(* ===== verification/Whist_Prelude.thy ===== *)
theory Whist_Prelude
  imports Main "HOL-Library.Word" "HOL-Library.Monad_Syntax"
begin

text \<open>
  Shared vocabulary of the development: the outcome of a fallible C function, the
  macros \<open>max\<close>, \<open>min\<close> and \<open>int_div_roundup\<close> of \<^verbatim>\<open>whist/core/whist.h\<close> and
  \<^verbatim>\<open>whist.c\<close>, and the facts on lists, options and words that several components use.

  A C function that can stop the process (\<^verbatim>\<open>FATAL_ASSERT\<close>, \<^verbatim>\<open>LOG_FATAL\<close>, a
  dereferenced null pointer) returns an \<open>option\<close>: \<open>None\<close> is "the process was
  terminated", and \<open>Option.bind\<close> (the \<open>do\<close> blocks) is sequential composition that
  stops at the first failed assertion.
\<close>

named_theorems seg_simps \<open>unfolding pointer segments at list constructors\<close>
named_theorems abs_simps \<open>abstraction functions of the components, as rewrite rules\<close>
named_theorems step_defs \<open>definitions of the operations of a component's transition system\<close>

type_synonym 'a ptr = "'a option"
type_synonym byte = "8 word"

subsection \<open>Assertions\<close>

definition fatal_assert :: "bool \<Rightarrow> unit option" where
  "fatal_assert b = (if b then Some () else None)"

lemma fatal_assert_simps [simp]:
  "fatal_assert True = Some ()"
  "fatal_assert False = None"
  by (simp_all add: fatal_assert_def)

lemma fatal_assert_eq_Some [simp]: "fatal_assert b = Some u \<longleftrightarrow> b"
  by (cases u) (simp add: fatal_assert_def)

lemma bind_fatal_assert [simp]:
  "Option.bind (fatal_assert b) f = (if b then f () else None)"
  by (simp add: fatal_assert_def)

subsection \<open>Integer helpers\<close>

text \<open>\<^verbatim>\<open>int_div_roundup\<close> on the C type \<open>int\<close>; the callers pass a positive divisor.
  C division truncates towards zero, which is \<open>div\<close> on the non-negative operands the
  callers use.\<close>

definition int_div_roundup :: "int \<Rightarrow> int \<Rightarrow> int" where
  "int_div_roundup a b = (a + b - 1) div b"

lemma int_div_roundup_bounds:
  assumes "0 < b"
  shows "a \<le> b * int_div_roundup a b" and "b * int_div_roundup a b < a + b"
proof -
  have "a + b - 1 = b * ((a + b - 1) div b) + (a + b - 1) mod b" by simp
  moreover have "0 \<le> (a + b - 1) mod b" "(a + b - 1) mod b < b"
    using assms by simp_all
  ultimately show "a \<le> b * int_div_roundup a b" and "b * int_div_roundup a b < a + b"
    unfolding int_div_roundup_def by linarith+
qed

lemma int_div_roundup_least:
  assumes "0 < b" "a \<le> b * k"
  shows "int_div_roundup a b \<le> k"
proof (rule ccontr)
  assume "\<not> int_div_roundup a b \<le> k"
  then have "b * (k + 1) \<le> b * int_div_roundup a b"
    using \<open>0 < b\<close> by (intro mult_left_mono) auto
  with int_div_roundup_bounds(2) [OF \<open>0 < b\<close>, of a] assms show False
    by (simp add: algebra_simps)
qed

subsection \<open>First and last elements as pointers\<close>

text \<open>\<open>first_of xs q\<close> is the address of the first element of \<open>xs\<close>, or \<open>q\<close> when there
  is none; \<open>last_of\<close> is its mirror image. They let a pointer structure be described
  piecewise, with the boundary pointers of each piece as parameters.\<close>

fun first_of :: "'a list \<Rightarrow> 'a ptr \<Rightarrow> 'a ptr" where
  "first_of [] q = q"
| "first_of (x # xs) q = Some x"

fun last_of :: "'a list \<Rightarrow> 'a ptr \<Rightarrow> 'a ptr" where
  "last_of [] p = p"
| "last_of (x # xs) p = last_of xs (Some x)"

lemma first_of_append [simp]: "first_of (xs @ ys) q = first_of xs (first_of ys q)"
  by (cases xs) auto

lemma last_of_append [simp]: "last_of (xs @ ys) p = last_of ys (last_of xs p)"
  by (induction xs arbitrary: p) auto

lemma first_of_None_iff [simp]: "first_of xs None = None \<longleftrightarrow> xs = []"
  by (cases xs) auto

lemma last_of_Some_eq: "last_of xs (Some x) = Some (last (x # xs))"
  by (induction xs arbitrary: x) auto

lemma last_of_None_iff [simp]: "last_of xs None = None \<longleftrightarrow> xs = []"
  by (cases xs) (auto simp: last_of_Some_eq)

lemma last_of_neq_None [simp]: "last_of xs (Some x) \<noteq> None"
  by (simp add: last_of_Some_eq)

lemma first_of_None_SomeD: "first_of xs None = Some x \<Longrightarrow> \<exists>ys. xs = x # ys"
  by (cases xs) auto

lemma last_of_None_SomeD: "last_of xs None = Some x \<Longrightarrow> \<exists>ys. xs = ys @ [x]"
  by (cases xs rule: rev_cases) auto

lemma first_of_in_set: "first_of xs None = Some x \<Longrightarrow> x \<in> set xs"
  by (cases xs) auto

lemma last_of_in_set: "last_of xs None = Some x \<Longrightarrow> x \<in> set xs"
  by (auto dest: last_of_None_SomeD)

subsection \<open>Byte buffers\<close>

text \<open>\<open>mem_write off src buf\<close> is \<^verbatim>\<open>memcpy(buf + off, src, |src|)\<close> and
  \<open>mem_read off n buf\<close> the \<open>n\<close> bytes at \<^verbatim>\<open>buf + off\<close>. Every use states the range it
  touches, so that a copy outside the buffer is visible in the proof obligations.\<close>

definition mem_write :: "nat \<Rightarrow> 'a list \<Rightarrow> 'a list \<Rightarrow> 'a list" where
  "mem_write off src buf = take off buf @ src @ drop (off + length src) buf"

definition mem_read :: "nat \<Rightarrow> nat \<Rightarrow> 'a list \<Rightarrow> 'a list" where
  "mem_read off n buf = take n (drop off buf)"

lemma length_mem_write [simp]:
  "off + length src \<le> length buf \<Longrightarrow> length (mem_write off src buf) = length buf"
  by (simp add: mem_write_def)

lemma length_mem_read [simp]: "off + n \<le> length buf \<Longrightarrow> length (mem_read off n buf) = n"
  by (simp add: mem_read_def)

lemma mem_read_write_same [simp]:
  "off + length src \<le> length buf \<Longrightarrow> mem_read off (length src) (mem_write off src buf) = src"
  by (simp add: mem_read_def mem_write_def)

lemma nth_mem_write:
  "off + length src \<le> length buf \<Longrightarrow> i < length buf \<Longrightarrow>
     mem_write off src buf ! i =
       (if off \<le> i \<and> i < off + length src then src ! (i - off) else buf ! i)"
  by (auto simp: mem_write_def nth_append min_def)

lemma mem_read_write_other:
  assumes "off + length src \<le> length buf" "off' + n \<le> length buf"
    and "off' + n \<le> off \<or> off + length src \<le> off'"
  shows "mem_read off' n (mem_write off src buf) = mem_read off' n buf"
proof (rule nth_equalityI)
  show "length (mem_read off' n (mem_write off src buf)) = length (mem_read off' n buf)"
    using assms by simp
next
  fix i assume "i < length (mem_read off' n (mem_write off src buf))"
  then have "i < n" using assms by simp
  then show "mem_read off' n (mem_write off src buf) ! i = mem_read off' n buf ! i"
    using assms by (auto simp: mem_read_def nth_mem_write)
qed

lemma take_eq_shorter: "n \<le> m \<Longrightarrow> take m xs = take m ys \<Longrightarrow> take n xs = take n ys"
  by (metis min.absorb1 take_take)

text \<open>Slots of equal size do not overlap.\<close>

lemma slot_disjoint:
  assumes "i \<noteq> j"
  shows "sz * i + sz \<le> sz * j \<or> sz * j + sz \<le> sz * (i :: nat)"
proof (cases "i < j")
  case True
  then have "sz * Suc i \<le> sz * j" by (intro mult_le_mono) auto
  then show ?thesis by simp
next
  case False
  with assms have "sz * Suc j \<le> sz * i" by (intro mult_le_mono) auto
  then show ?thesis by simp
qed

lemma slot_bound: "i < m \<Longrightarrow> sz * i + sz \<le> sz * (m :: nat)"
proof -
  assume "i < m"
  then have "sz * Suc i \<le> sz * m" by (intro mult_le_mono) auto
  then show ?thesis by simp
qed

lemma mod_add_inj:
  fixes a b k m :: nat
  assumes "a < m" "b < m" "(k + a) mod m = (k + b) mod m"
  shows "a = b"
  using assms
proof (induction a b rule: linorder_wlog)
  case (le a b)
  then have "m dvd b - a" using mod_eq_dvd_iff_nat [of "k + a" "k + b" m] by simp
  moreover have "b - a < m" using le by simp
  ultimately have "b - a = 0" by (metis dvd_imp_le gr0I leD)
  with le show ?case by simp
next
  case (sym a b)
  then show ?case by simp
qed

end
