(* ===== verification/Linked_List.thy ===== *)
theory Linked_List
  imports Whist_Prelude "HOL-Library.Multiset"
begin

text \<open>
  The intrusive doubly linked list of \<^verbatim>\<open>protocol/whist/utils/linked_list.c\<close>, at
  pointer level: a heap of \<^verbatim>\<open>LinkedListHeader\<close>s indexed by the address of the item
  that embeds the header, and the \<^verbatim>\<open>LinkedList\<close> anchor with its \<open>head\<close>, \<open>tail\<close>
  and \<open>items\<close> fields. Addresses are a type parameter, the null pointer is \<open>None\<close>.

  The second half gives the abstraction: \<open>dll h l xs\<close> says that the anchor \<open>l\<close>
  represents the sequence \<open>xs\<close> in heap \<open>h\<close>. Every operation is shown to implement
  its operation on sequences, and to leave every list on other nodes alone. The locale
  \<open>sequence_store\<close> states this contract for the clients of the list.
\<close>

section \<open>The code\<close>

record 'a LinkedListHeader =
  nxt :: "'a ptr"
  prv :: "'a ptr"

record 'a LinkedList =
  head :: "'a ptr"
  tail :: "'a ptr"
  items :: int

type_synonym 'a list_heap = "'a \<Rightarrow> 'a LinkedListHeader"

definition linked_list_init :: "'a LinkedList" where
  "linked_list_init = \<lparr>head = None, tail = None, items = 0\<rparr>"

text \<open>Single stores through an item pointer.\<close>

definition set_nxt :: "'a \<Rightarrow> 'a ptr \<Rightarrow> 'a list_heap \<Rightarrow> 'a list_heap" where
  "set_nxt a q h = h(a := (h a)\<lparr>nxt := q\<rparr>)"

definition set_prv :: "'a \<Rightarrow> 'a ptr \<Rightarrow> 'a list_heap \<Rightarrow> 'a list_heap" where
  "set_prv a q h = h(a := (h a)\<lparr>prv := q\<rparr>)"

definition linked_list_add_head_internal ::
    "'a list_heap \<times> 'a LinkedList \<Rightarrow> 'a \<Rightarrow> 'a list_heap \<times> 'a LinkedList" where
  "linked_list_add_head_internal = (\<lambda>(h, l) item.
     let l = l\<lparr>items := items l + 1\<rparr>;
         h = set_nxt item (head l) h;
         h = set_prv item None h
     in case head l of
          Some hd_item \<Rightarrow> (set_prv hd_item (Some item) h, l\<lparr>head := Some item\<rparr>)
        | None \<Rightarrow> (h, l\<lparr>tail := Some item, head := Some item\<rparr>))"

definition linked_list_add_tail_internal ::
    "'a list_heap \<times> 'a LinkedList \<Rightarrow> 'a \<Rightarrow> 'a list_heap \<times> 'a LinkedList" where
  "linked_list_add_tail_internal = (\<lambda>(h, l) item.
     let l = l\<lparr>items := items l + 1\<rparr>;
         h = set_prv item (tail l) h;
         h = set_nxt item None h
     in case tail l of
          Some tl_item \<Rightarrow> (set_nxt tl_item (Some item) h, l\<lparr>tail := Some item\<rparr>)
        | None \<Rightarrow> (h, l\<lparr>head := Some item, tail := Some item\<rparr>))"

definition linked_list_add_after_internal ::
    "'a list_heap \<times> 'a LinkedList \<Rightarrow> 'a \<Rightarrow> 'a \<Rightarrow> 'a list_heap \<times> 'a LinkedList" where
  "linked_list_add_after_internal = (\<lambda>(h, l) old_item new_item.
     case nxt (h old_item) of
       None \<Rightarrow> linked_list_add_tail_internal (h, l) new_item
     | Some succ_item \<Rightarrow>
         let l = l\<lparr>items := items l + 1\<rparr>;
             h = set_nxt new_item (Some succ_item) h;
             h = set_prv new_item (Some old_item) h;
             h = set_prv succ_item (Some new_item) h;
             h = set_nxt old_item (Some new_item) h
         in (h, l))"

definition linked_list_add_before_internal ::
    "'a list_heap \<times> 'a LinkedList \<Rightarrow> 'a \<Rightarrow> 'a \<Rightarrow> 'a list_heap \<times> 'a LinkedList" where
  "linked_list_add_before_internal = (\<lambda>(h, l) old_item new_item.
     case prv (h old_item) of
       None \<Rightarrow> linked_list_add_head_internal (h, l) new_item
     | Some pred_item \<Rightarrow>
         let l = l\<lparr>items := items l + 1\<rparr>;
             h = set_nxt new_item (Some old_item) h;
             h = set_prv new_item (Some pred_item) h;
             h = set_nxt pred_item (Some new_item) h;
             h = set_prv old_item (Some new_item) h
         in (h, l))"

text \<open>\<^verbatim>\<open>FATAL_ASSERT(list->items > 0)\<close> is the \<open>None\<close> result.\<close>

definition linked_list_remove_internal ::
    "'a list_heap \<times> 'a LinkedList \<Rightarrow> 'a \<Rightarrow> ('a list_heap \<times> 'a LinkedList) option" where
  "linked_list_remove_internal = (\<lambda>(h, l) item. do {
     fatal_assert (items l > 0);
     let (h, l) = (case nxt (h item) of
           Some n \<Rightarrow> (set_prv n (prv (h item)) h, l)
         | None \<Rightarrow> (h, l\<lparr>tail := prv (h item)\<rparr>));
     let (h, l) = (case prv (h item) of
           Some p \<Rightarrow> (set_nxt p (nxt (h item)) h, l)
         | None \<Rightarrow> (h, l\<lparr>head := nxt (h item)\<rparr>));
     let h = set_nxt item None (set_prv item None h);
     Some (h, l\<lparr>items := items l - 1\<rparr>)
   })"

definition linked_list_size :: "'a LinkedList \<Rightarrow> int" where
  "linked_list_size l = items l"

definition linked_list_extract_head ::
    "'a list_heap \<times> 'a LinkedList \<Rightarrow> (('a list_heap \<times> 'a LinkedList) \<times> 'a ptr) option" where
  "linked_list_extract_head s =
     (case head (snd s) of
        None \<Rightarrow> Some (s, None)
      | Some item \<Rightarrow> do { s' \<leftarrow> linked_list_remove_internal s item; Some (s', Some item) })"

definition linked_list_extract_tail ::
    "'a list_heap \<times> 'a LinkedList \<Rightarrow> (('a list_heap \<times> 'a LinkedList) \<times> 'a ptr) option" where
  "linked_list_extract_tail s =
     (case tail (snd s) of
        None \<Rightarrow> Some (s, None)
      | Some item \<Rightarrow> do { s' \<leftarrow> linked_list_remove_internal s item; Some (s', Some item) })"

text \<open>
  The loops follow \<open>prv\<close> or \<open>nxt\<close> pointers and do not return on a cyclic structure;
  they are partial functions, with \<open>None\<close> for "does not return". The inner loop of the
  sort walks back from \<open>a->prev\<close> to the first node \<open>b\<close> with \<open>cmp(a, b) > 0\<close>.
\<close>

partial_function (option) sort_find_pos ::
    "('a \<Rightarrow> 'a \<Rightarrow> int) \<Rightarrow> 'a list_heap \<Rightarrow> 'a \<Rightarrow> 'a ptr \<Rightarrow> 'a ptr option" where
  "sort_find_pos cmp h a b =
     (case b of
        None \<Rightarrow> Some None
      | Some b' \<Rightarrow> if cmp a b' > 0 then Some b else sort_find_pos cmp h a (prv (h b')))"

definition sort_move ::
    "'a list_heap \<times> 'a LinkedList \<Rightarrow> 'a \<Rightarrow> 'a ptr \<Rightarrow> ('a list_heap \<times> 'a LinkedList) option" where
  "sort_move s a b =
     (if b = prv (fst s a) then Some s
      else case b of
        None \<Rightarrow> do { s \<leftarrow> linked_list_remove_internal s a;
                      Some (linked_list_add_head_internal s a) }
      | Some b' \<Rightarrow> do { s \<leftarrow> linked_list_remove_internal s a;
                         Some (linked_list_add_after_internal s b' a) })"

partial_function (option) sort_loop ::
    "('a \<Rightarrow> 'a \<Rightarrow> int) \<Rightarrow> 'a list_heap \<times> 'a LinkedList \<Rightarrow> 'a ptr
      \<Rightarrow> ('a list_heap \<times> 'a LinkedList) option" where
  "sort_loop cmp s a =
     (case a of
        None \<Rightarrow> Some s
      | Some a' \<Rightarrow> do {
          let nxt_item = nxt (fst s a');
          b \<leftarrow> sort_find_pos cmp (fst s) a' (prv (fst s a'));
          s \<leftarrow> sort_move s a' b;
          sort_loop cmp s nxt_item
        })"

definition linked_list_sort ::
    "('a \<Rightarrow> 'a \<Rightarrow> int) \<Rightarrow> 'a list_heap \<times> 'a LinkedList \<Rightarrow> ('a list_heap \<times> 'a LinkedList) option" where
  "linked_list_sort cmp s = sort_loop cmp s (head (snd s))"

definition node_valid :: "'a list_heap \<Rightarrow> 'a LinkedList \<Rightarrow> 'a \<Rightarrow> bool" where
  "node_valid h l a \<longleftrightarrow>
     (case prv (h a) of Some p \<Rightarrow> nxt (h p) = Some a | None \<Rightarrow> head l = Some a) \<and>
     (case nxt (h a) of Some n \<Rightarrow> prv (h n) = Some a | None \<Rightarrow> tail l = Some a)"

partial_function (option) check_validity_loop ::
    "'a list_heap \<Rightarrow> 'a LinkedList \<Rightarrow> 'a ptr \<Rightarrow> int \<Rightarrow> bool option" where
  "check_validity_loop h l iter cnt =
     (case iter of
        None \<Rightarrow> Some (cnt = items l)
      | Some a \<Rightarrow> if node_valid h l a then check_validity_loop h l (nxt (h a)) (cnt + 1)
                  else Some False)"

text \<open>
  The search loops of the clients: \<^verbatim>\<open>linked_list_for_each\<close> (or a \<open>while\<close> over
  \<^verbatim>\<open>linked_list_prev\<close>) that leaves at the first item with a property.
\<close>

partial_function (option) walk_find ::
    "('a \<Rightarrow> 'a ptr) \<Rightarrow> ('a \<Rightarrow> bool) \<Rightarrow> 'a ptr \<Rightarrow> 'a ptr option" where
  "walk_find step P item =
     (case item of
        None \<Rightarrow> Some None
      | Some a \<Rightarrow> if P a then Some (Some a) else walk_find step P (step a))"

definition linked_list_check_validity :: "'a list_heap \<Rightarrow> 'a LinkedList \<Rightarrow> bool option" where
  "linked_list_check_validity h l = check_validity_loop h l (head l) 0"

section \<open>The sequence a list represents\<close>

primrec seg :: "'a list_heap \<Rightarrow> 'a ptr \<Rightarrow> 'a list \<Rightarrow> 'a ptr \<Rightarrow> bool" where
  "seg h p [] q \<longleftrightarrow> True"
| "seg h p (x # xs) q \<longleftrightarrow> prv (h x) = p \<and> nxt (h x) = first_of xs q \<and> seg h (Some x) xs q"

definition dll :: "'a list_heap \<Rightarrow> 'a LinkedList \<Rightarrow> 'a list \<Rightarrow> bool" where
  "dll h l xs \<longleftrightarrow> distinct xs \<and> seg h None xs None \<and>
     head l = first_of xs None \<and> tail l = last_of xs None \<and> items l = int (length xs)"


subsection \<open>Segments and single stores\<close>

lemma nxt_set [simp]:
  "nxt (set_nxt a q h b) = (if b = a then q else nxt (h b))"
  "nxt (set_prv a q h b) = nxt (h b)"
  by (auto simp: set_nxt_def set_prv_def)

lemma prv_set [simp]:
  "prv (set_prv a q h b) = (if b = a then q else prv (h b))"
  "prv (set_nxt a q h b) = prv (h b)"
  by (auto simp: set_nxt_def set_prv_def)

lemma set_other [simp]:
  "b \<noteq> a \<Longrightarrow> set_nxt a q h b = h b"
  "b \<noteq> a \<Longrightarrow> set_prv a q h b = h b"
  by (auto simp: set_nxt_def set_prv_def)

lemma seg_append [seg_simps]:
  "seg h p (xs @ ys) q \<longleftrightarrow> seg h p xs (first_of ys q) \<and> seg h (last_of xs p) ys q"
  by (induction xs arbitrary: p) auto

lemma seg_cong:
  "(\<And>x. x \<in> set xs \<Longrightarrow> h x = h' x) \<Longrightarrow> seg h p xs q = seg h' p xs q"
  by (induction xs arbitrary: p) auto

lemma seg_set_notin [simp]:
  "a \<notin> set xs \<Longrightarrow> seg (set_nxt a r h) p xs q = seg h p xs q"
  "a \<notin> set xs \<Longrightarrow> seg (set_prv a r h) p xs q = seg h p xs q"
  by (auto intro!: seg_cong simp: set_nxt_def set_prv_def)

text \<open>The shape of a represented list around a node, as every operation on a node needs it.\<close>

lemma dll_nodeD:
  assumes "dll h l (xs @ x # ys)"
  shows "prv (h x) = last_of xs None" and "nxt (h x) = first_of ys None"
    and "x \<notin> set xs" and "x \<notin> set ys"
  using assms by (auto simp: dll_def seg_append)

lemma dll_distinct: "dll h l xs \<Longrightarrow> distinct xs"
  by (simp add: dll_def)

lemma seg_walk_unique:
  "seg h p xs None \<Longrightarrow> seg h p' ys None \<Longrightarrow> first_of xs None = first_of ys None \<Longrightarrow> xs = ys"
proof (induction xs arbitrary: ys p p')
  case Nil
  then show ?case by (cases ys) auto
next
  case (Cons x xs)
  then show ?case by (cases ys) auto
qed

lemma dll_unique: "dll h l xs \<Longrightarrow> dll h l ys \<Longrightarrow> xs = ys"
  unfolding dll_def by (metis seg_walk_unique)

text \<open>A walk along \<open>nxt\<close> pointers that ends never repeats a node.\<close>

lemma seg_None_distinct: "seg h p xs None \<Longrightarrow> distinct xs"
proof (induction xs arbitrary: p)
  case (Cons x xs)
  have "x \<notin> set xs"
  proof
    assume "x \<in> set xs"
    then obtain ys zs where xs: "xs = ys @ x # zs" by (meson split_list)
    with Cons.prems have "seg h (Some x) zs None" "seg h (Some x) xs None"
      and "first_of zs None = first_of xs None"
      by (auto simp: seg_append)
    then have "zs = xs" by (rule seg_walk_unique)
    with xs show False by (metis length_Cons length_append not_add_less2 less_Suc_eq)
  qed
  with Cons show ?case by auto
qed simp

lemma dll_frame: "dll h l xs \<Longrightarrow> (\<And>x. x \<in> set xs \<Longrightarrow> h' x = h x) \<Longrightarrow> dll h' l xs"
  unfolding dll_def using seg_cong by metis

subsection \<open>Operations on the represented sequence\<close>

lemma dll_init: "dll h linked_list_init []"
  by (simp add: dll_def linked_list_init_def)

lemma dll_size: "dll h l xs \<Longrightarrow> linked_list_size l = int (length xs)"
  by (simp add: dll_def linked_list_size_def)

lemma dll_add_head:
  assumes "dll h l xs" "x \<notin> set xs"
    and "linked_list_add_head_internal (h, l) x = (h', l')"
  shows "dll h' l' (x # xs)" and "\<And>z. z \<notin> set (x # xs) \<Longrightarrow> h' z = h z"
  using assms
  by (cases xs; fastforce simp: dll_def linked_list_add_head_internal_def Let_def)+

lemma dll_add_tail:
  assumes "dll h l xs" "x \<notin> set xs"
    and "linked_list_add_tail_internal (h, l) x = (h', l')"
  shows "dll h' l' (xs @ [x])" and "\<And>z. z \<notin> set (x # xs) \<Longrightarrow> h' z = h z"
  using assms
  by (cases xs rule: rev_cases;
      fastforce simp: dll_def linked_list_add_tail_internal_def Let_def seg_append)+

lemma dll_add_after:
  assumes "dll h l (xs @ y # ys)" "x \<notin> set (xs @ y # ys)"
    and "linked_list_add_after_internal (h, l) y x = (h', l')"
  shows "dll h' l' (xs @ y # x # ys)" and "\<And>z. z \<notin> set (xs @ y # x # ys) \<Longrightarrow> h' z = h z"
proof -
  have "dll h' l' (xs @ y # x # ys) \<and> (\<forall>z. z \<notin> set (xs @ y # x # ys) \<longrightarrow> h' z = h z)"
  proof (cases ys)
    case Nil
    with assms have "linked_list_add_tail_internal (h, l) x = (h', l')"
      by (simp add: linked_list_add_after_internal_def dll_nodeD(2))
    with assms Nil show ?thesis using dll_add_tail [of h l "xs @ [y]" x h' l'] by auto
  next
    case (Cons n zs)
    with assms dll_nodeD(2) [OF assms(1)]
    have "h' = set_nxt y (Some x) (set_prv n (Some x) (set_prv x (Some y) (set_nxt x (Some n) h)))"
      and "l' = l\<lparr>items := items l + 1\<rparr>"
      by (simp_all add: linked_list_add_after_internal_def Let_def)
    with assms(1,2) Cons show ?thesis
      by (auto simp: dll_def seg_append)
  qed
  then show "dll h' l' (xs @ y # x # ys)" and "\<And>z. z \<notin> set (xs @ y # x # ys) \<Longrightarrow> h' z = h z"
    by auto
qed

lemma dll_add_before:
  assumes "dll h l (xs @ y # ys)" "x \<notin> set (xs @ y # ys)"
    and "linked_list_add_before_internal (h, l) y x = (h', l')"
  shows "dll h' l' (xs @ x # y # ys)" and "\<And>z. z \<notin> set (xs @ x # y # ys) \<Longrightarrow> h' z = h z"
proof -
  have "dll h' l' (xs @ x # y # ys) \<and> (\<forall>z. z \<notin> set (xs @ x # y # ys) \<longrightarrow> h' z = h z)"
  proof (cases xs rule: rev_cases)
    case Nil
    with assms have "linked_list_add_head_internal (h, l) x = (h', l')"
      using dll_nodeD(1) [OF assms(1)] by (simp add: linked_list_add_before_internal_def)
    with assms Nil show ?thesis using dll_add_head [of h l "y # ys" x h' l'] by auto
  next
    case (snoc zs p)
    with assms dll_nodeD(1) [OF assms(1)]
    have "h' = set_prv y (Some x) (set_nxt p (Some x) (set_prv x (Some p) (set_nxt x (Some y) h)))"
      and "l' = l\<lparr>items := items l + 1\<rparr>"
      by (simp_all add: linked_list_add_before_internal_def Let_def)
    with assms(1,2) snoc show ?thesis
      by (auto simp: dll_def seg_append)
  qed
  then show "dll h' l' (xs @ x # y # ys)" and "\<And>z. z \<notin> set (xs @ x # y # ys) \<Longrightarrow> h' z = h z"
    by auto
qed

lemma dll_remove:
  assumes "dll h l (xs @ x # ys)"
  obtains h' l' where "linked_list_remove_internal (h, l) x = Some (h', l')"
    and "dll h' l' (xs @ ys)" and "\<And>z. z \<notin> set (xs @ x # ys) \<Longrightarrow> h' z = h z"
    and "nxt (h' x) = None" "prv (h' x) = None"
proof -
  note node = dll_nodeD [OF assms]
  have pos: "items l > 0" using assms by (simp add: dll_def)
  show thesis
  proof (cases xs rule: rev_cases; cases ys)
    assume "xs = []" "ys = []"
    then show thesis
      using assms node pos that [of "set_nxt x None (set_prv x None h)"
          "l\<lparr>tail := None, head := None, items := items l - 1\<rparr>"]
      by (auto simp: linked_list_remove_internal_def dll_def)
  next
    fix n zs assume "xs = []" "ys = n # zs"
    then show thesis
      using assms node pos that [of "set_nxt x None (set_prv x None (set_prv n None h))"
          "l\<lparr>head := Some n, items := items l - 1\<rparr>"]
      by (auto simp: linked_list_remove_internal_def dll_def)
  next
    fix us p assume "xs = us @ [p]" "ys = []"
    then show thesis
      using assms node pos that [of "set_nxt x None (set_prv x None (set_nxt p None h))"
          "l\<lparr>tail := Some p, items := items l - 1\<rparr>"]
      by (auto simp: linked_list_remove_internal_def dll_def seg_append)
  next
    fix us p n zs assume "xs = us @ [p]" "ys = n # zs"
    then show thesis
      using assms node pos
        that [of "set_nxt x None (set_prv x None (set_nxt p (Some n) (set_prv n (Some p) h)))"
          "l\<lparr>items := items l - 1\<rparr>"]
      by (auto simp: linked_list_remove_internal_def dll_def seg_append)
  qed
qed


lemma dll_extract_head:
  assumes "dll h l (x # xs)"
  obtains h' l' where "linked_list_extract_head (h, l) = Some ((h', l'), Some x)"
    and "dll h' l' xs" and "\<And>z. z \<notin> set (x # xs) \<Longrightarrow> h' z = h z"
proof -
  from assms have "head l = Some x" by (simp add: dll_def)
  moreover obtain h' l' where "linked_list_remove_internal (h, l) x = Some (h', l')"
    and "dll h' l' xs" and "\<And>z. z \<notin> set (x # xs) \<Longrightarrow> h' z = h z"
    using dll_remove [of h l "[]" x xs] assms by (metis append_Nil)
  ultimately show thesis using that by (simp add: linked_list_extract_head_def)
qed

lemma dll_extract_tail:
  assumes "dll h l (xs @ [x])"
  obtains h' l' where "linked_list_extract_tail (h, l) = Some ((h', l'), Some x)"
    and "dll h' l' xs" and "\<And>z. z \<notin> set (xs @ [x]) \<Longrightarrow> h' z = h z"
proof -
  from assms have "tail l = Some x" by (simp add: dll_def)
  moreover obtain h' l' where "linked_list_remove_internal (h, l) x = Some (h', l')"
    and "dll h' l' xs" and "\<And>z. z \<notin> set (xs @ [x]) \<Longrightarrow> h' z = h z"
    using dll_remove [of h l xs x "[]"] assms by (metis append_Nil2)
  ultimately show thesis using that by (simp add: linked_list_extract_tail_def)
qed

lemma dll_extract_empty:
  assumes "dll h l []"
  shows "linked_list_extract_head (h, l) = Some ((h, l), None)"
    and "linked_list_extract_tail (h, l) = Some ((h, l), None)"
  using assms by (simp_all add: dll_def linked_list_extract_head_def linked_list_extract_tail_def)

subsection \<open>Sorting\<close>

text \<open>The insertion step on sequences: \<open>a\<close> goes right after the last element of the
  sorted prefix that it exceeds.\<close>

definition insert_back :: "('a \<Rightarrow> 'a \<Rightarrow> int) \<Rightarrow> 'a \<Rightarrow> 'a list \<Rightarrow> 'a list" where
  "insert_back cmp a ws =
     (let P = (\<lambda>b. cmp a b \<le> 0)
      in rev (dropWhile P (rev ws)) @ a # rev (takeWhile P (rev ws)))"

lemma split_insert_back:
  obtains us vs where "ws = us @ vs" "insert_back cmp a ws = us @ a # vs"
    and "\<forall>v \<in> set vs. cmp a v \<le> 0" and "us = [] \<or> cmp a (last us) > 0"
proof
  let ?P = "\<lambda>b. cmp a b \<le> 0"
  let ?us = "rev (dropWhile ?P (rev ws))" and ?vs = "rev (takeWhile ?P (rev ws))"
  show "ws = ?us @ ?vs" by (metis rev_append rev_rev_ident takeWhile_dropWhile_id)
  show "insert_back cmp a ws = ?us @ a # ?vs" by (simp add: insert_back_def Let_def)
  show "\<forall>v \<in> set ?vs. cmp a v \<le> 0" using set_takeWhileD by fastforce
  show "?us = [] \<or> cmp a (last ?us) > 0"
  proof (cases "dropWhile ?P (rev ws)")
    case (Cons x xs)
    then have "\<not> ?P x" using hd_dropWhile [of ?P "rev ws"] by simp
    with Cons show ?thesis by simp
  qed simp
qed

lemma mset_insert_back [simp]: "mset (insert_back cmp a ws) = add_mset a (mset ws)"
  by (rule split_insert_back [of ws cmp a]) auto

definition consistent_cmp :: "('a \<Rightarrow> 'a \<Rightarrow> int) \<Rightarrow> bool" where
  "consistent_cmp cmp \<longleftrightarrow> (\<forall>a b. cmp a b > 0 \<longrightarrow> cmp b a \<le> 0) \<and>
     (\<forall>a b c. cmp a b \<le> 0 \<longrightarrow> cmp b c \<le> 0 \<longrightarrow> cmp a c \<le> 0)"

lemma sorted_insert_back:
  assumes "consistent_cmp cmp" "sorted_wrt (\<lambda>a b. cmp a b \<le> 0) ws"
  shows "sorted_wrt (\<lambda>a b. cmp a b \<le> 0) (insert_back cmp a ws)"
proof -
  obtain us vs where ws: "ws = us @ vs" "insert_back cmp a ws = us @ a # vs"
    and vs: "\<forall>v \<in> set vs. cmp a v \<le> 0" and us: "us = [] \<or> cmp a (last us) > 0"
    by (rule split_insert_back)
  have "cmp u a \<le> 0" if "u \<in> set us" for u
  proof -
    from that us have "cmp (last us) a \<le> 0" and ne: "us \<noteq> []"
      using assms(1) by (auto simp: consistent_cmp_def)
    moreover have "u = last us \<or> cmp u (last us) \<le> 0"
    proof -
      from ne obtain us' where "us = us' @ [last us]" by (metis append_butlast_last_id)
      with assms(2) ws(1) that show ?thesis
        by (metis (no_types, lifting) Un_iff list.set_intros(1) set_append set_ConsD
            sorted_wrt_append list.set(1) empty_iff)
    qed
    ultimately show ?thesis using assms(1) unfolding consistent_cmp_def by blast
  qed
  with assms(2) vs ws(1) show ?thesis
    unfolding ws(2) by (auto simp: sorted_wrt_append)
qed

lemma sort_find_pos_split:
  assumes "seg h None (us @ vs) q"
    and "\<forall>v \<in> set vs. cmp a v \<le> 0" and "us = [] \<or> cmp a (last us) > 0"
  shows "sort_find_pos cmp h a (last_of (us @ vs) None) = Some (last_of us None)"
  using assms
proof (induction vs arbitrary: q rule: rev_induct)
  case Nil
  then show ?case
    by (cases us rule: rev_cases) (simp_all add: sort_find_pos.simps)
next
  case (snoc x vs)
  then have "prv (h x) = last_of (us @ vs) None" and "seg h None (us @ vs) (Some x)"
    by (auto simp: seg_append)
  moreover from this snoc have "sort_find_pos cmp h a (last_of (us @ vs) None) = Some (last_of us None)"
    by auto
  ultimately show ?case using snoc.prems(2)
    by (subst sort_find_pos.simps) simp
qed

text \<open>One round of the outer loop moves \<open>a\<close> back over the nodes \<open>vs\<close>.\<close>

lemma sort_move_back:
  assumes "dll h l (us @ vs @ a # ys)"
  obtains h' l' where "sort_move (h, l) a (last_of us None) = Some (h', l')"
    and "dll h' l' (us @ a # vs @ ys)"
    and "\<And>z. z \<notin> set (us @ vs @ a # ys) \<Longrightarrow> h' z = h z"
proof (cases "vs = []")
  case True
  then show thesis
    using that [of h l] assms dll_nodeD(1) [of h l us a ys] by (simp add: sort_move_def)
next
  case False
  then obtain vs' v where vs: "vs = vs' @ [v]" by (cases vs rule: rev_cases) auto
  from assms dll_nodeD(1) [of h l "us @ vs" a ys] have "prv (h a) = Some v" by (simp add: vs)
  moreover from assms have "v \<notin> set us" by (auto simp: dll_def vs)
  ultimately have ne: "last_of us None \<noteq> prv (h a)" by (auto dest: last_of_in_set)
  have a: "a \<notin> set (us @ vs @ ys)" using assms by (auto simp: dll_def)
  obtain h1 l1 where rm: "linked_list_remove_internal (h, l) a = Some (h1, l1)"
    and d1: "dll h1 l1 (us @ vs @ ys)" and f1: "\<And>z. z \<notin> set (us @ vs @ a # ys) \<Longrightarrow> h1 z = h z"
    using dll_remove [of h l "us @ vs" a ys] assms by (metis append.assoc)
  show thesis
  proof (cases us rule: rev_cases)
    case Nil
    obtain h' l' where ah: "linked_list_add_head_internal (h1, l1) a = (h', l')"
      by (cases "linked_list_add_head_internal (h1, l1) a")
    from dll_add_head [OF d1 a ah] f1 rm ah Nil ne show thesis
      by (intro that [of h' l']) (auto simp: sort_move_def)
  next
    case (snoc us' b)
    obtain h' l' where af: "linked_list_add_after_internal (h1, l1) b a = (h', l')"
      by (cases "linked_list_add_after_internal (h1, l1) b a")
    from dll_add_after [of h1 l1 us' b "vs @ ys" a h' l'] a d1 f1 rm af snoc ne show thesis
      by (intro that [of h' l']) (auto simp: sort_move_def)
  qed
qed

lemma sort_loop_insert:
  assumes "dll h l (ws @ ys)"
  shows "\<exists>h' l'. sort_loop cmp (h, l) (first_of ys None) = Some (h', l') \<and>
     dll h' l' (foldl (\<lambda>ws a. insert_back cmp a ws) ws ys) \<and>
     (\<forall>z. z \<notin> set (ws @ ys) \<longrightarrow> h' z = h z)"
  using assms
proof (induction ys arbitrary: h l ws)
  case Nil
  then show ?case by (simp add: sort_loop.simps)
next
  case (Cons a ys)
  obtain us vs where ws: "ws = us @ vs" "insert_back cmp a ws = us @ a # vs"
    and vs: "\<forall>v \<in> set vs. cmp a v \<le> 0" and us: "us = [] \<or> cmp a (last us) > 0"
    by (rule split_insert_back)
  have prva: "prv (h a) = last_of (us @ vs) None" and nxta: "nxt (h a) = first_of ys None"
    using dll_nodeD(1,2) [OF Cons.prems] by (simp_all add: ws(1))
  from Cons.prems have sg: "seg h None (us @ vs) (Some a)"
    by (simp add: ws(1) dll_def seg_append)
  note pos = sort_find_pos_split [where cmp = cmp and a = a, OF sg vs us]
  from Cons.prems have "dll h l (us @ vs @ a # ys)" by (simp add: ws(1))
  then obtain h1 l1 where mv: "sort_move (h, l) a (last_of us None) = Some (h1, l1)"
    and d1: "dll h1 l1 (us @ a # vs @ ys)"
    and f1: "\<And>z. z \<notin> set (us @ vs @ a # ys) \<Longrightarrow> h1 z = h z"
    by (rule sort_move_back) blast
  from d1 have "dll h1 l1 (insert_back cmp a ws @ ys)" by (simp add: ws(2))
  from Cons.IH [OF this] obtain h' l' where
    lp: "sort_loop cmp (h1, l1) (first_of ys None) = Some (h', l')"
    and d': "dll h' l' (foldl (\<lambda>ws a. insert_back cmp a ws) (insert_back cmp a ws) ys)"
    and f': "\<And>z. z \<notin> set (insert_back cmp a ws @ ys) \<Longrightarrow> h' z = h1 z"
    by blast
  have "sort_loop cmp (h, l) (first_of (a # ys) None) = Some (h', l')"
    by (subst sort_loop.simps) (simp add: prva nxta pos [simplified] mv lp)
  moreover have "h' z = h z" if "z \<notin> set (ws @ a # ys)" for z
    using that f' [of z] f1 [of z] ws by auto
  ultimately show ?case using d' by auto
qed

lemma foldl_insert_back:
  assumes "consistent_cmp cmp" "sorted_wrt (\<lambda>a b. cmp a b \<le> 0) ws"
  shows "sorted_wrt (\<lambda>a b. cmp a b \<le> 0) (foldl (\<lambda>ws a. insert_back cmp a ws) ws ys)"
  using assms(2) by (induction ys arbitrary: ws) (auto intro: sorted_insert_back assms(1))

lemma mset_foldl_insert_back:
  "mset (foldl (\<lambda>ws a. insert_back cmp a ws) ws ys) = mset ws + mset ys"
  by (induction ys arbitrary: ws) auto

lemma dll_sort:
  assumes "dll h l xs" "consistent_cmp cmp"
  obtains h' l' ys where "linked_list_sort cmp (h, l) = Some (h', l')"
    and "dll h' l' ys" and "mset ys = mset xs" and "sorted_wrt (\<lambda>a b. cmp a b \<le> 0) ys"
    and "\<And>z. z \<notin> set xs \<Longrightarrow> h' z = h z"
proof -
  from assms(1) have hd: "head l = first_of xs None" by (simp add: dll_def)
  from sort_loop_insert [of h l "[]" xs cmp] assms(1) obtain h' l' where
    lp: "sort_loop cmp (h, l) (first_of xs None) = Some (h', l')"
    and d': "dll h' l' (foldl (\<lambda>ws a. insert_back cmp a ws) [] xs)"
    and f': "\<And>z. z \<notin> set xs \<Longrightarrow> h' z = h z"
    by (metis append_Nil)
  let ?ys = "foldl (\<lambda>ws a. insert_back cmp a ws) [] xs"
  have "mset ?ys = mset xs" by (simp add: mset_foldl_insert_back)
  moreover have "sorted_wrt (\<lambda>a b. cmp a b \<le> 0) ?ys"
    by (rule foldl_insert_back [OF assms(2)]) simp
  moreover have "linked_list_sort cmp (h, l) = Some (h', l')"
    by (simp add: linked_list_sort_def hd lp)
  ultimately show thesis using that d' f' by blast
qed

subsection \<open>The validity check\<close>

text \<open>What the check decides: the nodes reached from \<open>head\<close> form a properly linked
  segment that ends at \<open>tail\<close> and has the right count. Of the first node's \<open>prev\<close>
  pointer it only asks that the node it points to, if any, points back.\<close>

definition dll_but_first_prev :: "'a list_heap \<Rightarrow> 'a LinkedList \<Rightarrow> 'a list \<Rightarrow> bool" where
  "dll_but_first_prev h l xs \<longleftrightarrow> distinct xs \<and> items l = int (length xs) \<and>
     head l = first_of xs None \<and>
     (\<forall>x ys. xs = x # ys \<longrightarrow> tail l = last_of xs None \<and> seg h (prv (h x)) xs None \<and>
        (\<forall>p. prv (h x) = Some p \<longrightarrow> nxt (h p) = Some x))"

lemma check_validity_loop_True:
  "check_validity_loop h l it cnt = Some True \<Longrightarrow>
     \<exists>xs. it = first_of xs None \<and> items l = cnt + int (length xs) \<and>
       (\<forall>x ys. xs = x # ys \<longrightarrow> tail l = last_of xs None \<and> seg h (prv (h x)) xs None \<and>
          (\<forall>p. prv (h x) = Some p \<longrightarrow> nxt (h p) = Some x))"
proof (rule check_validity_loop.raw_induct
    [where P = "\<lambda>h l it cnt r. r \<longrightarrow> (\<exists>xs. it = first_of xs None \<and> items l = cnt + int (length xs) \<and>
       (\<forall>x ys. xs = x # ys \<longrightarrow> tail l = last_of xs None \<and> seg h (prv (h x)) xs None \<and>
          (\<forall>p. prv (h x) = Some p \<longrightarrow> nxt (h p) = Some x)))", rule_format])
  fix f :: "'a list_heap \<Rightarrow> 'a LinkedList \<Rightarrow> 'a ptr \<Rightarrow> int \<Rightarrow> bool option" and h l it cnt and r :: bool
  let ?Q = "\<lambda>h l it cnt. \<exists>xs. it = first_of xs None \<and> items l = cnt + int (length xs) \<and>
       (\<forall>x ys. xs = x # ys \<longrightarrow> tail l = last_of xs None \<and> seg h (prv (h x)) xs None \<and>
          (\<forall>p. prv (h x) = Some p \<longrightarrow> nxt (h p) = Some x))"
  assume IH: "\<And>h l it cnt r. f h l it cnt = Some r \<Longrightarrow> r \<Longrightarrow> ?Q h l it cnt"
    and eq: "(case it of None \<Rightarrow> Some (cnt = items l)
       | Some a \<Rightarrow> if node_valid h l a then f h l (nxt (h a)) (cnt + 1) else Some False) = Some r"
    and r: r
  show "?Q h l it cnt"
  proof (cases it)
    case None
    with eq r show ?thesis by (intro exI [of _ "[]"]) auto
  next
    case (Some a)
    with eq r have v: "node_valid h l a" and "f h l (nxt (h a)) (cnt + 1) = Some True"
      by (auto split: if_splits)
    then have "?Q h l (nxt (h a)) (cnt + 1)" using IH by blast
    then obtain xs where xs: "nxt (h a) = first_of xs None" "items l = cnt + 1 + int (length xs)"
      and tl: "\<forall>x ys. xs = x # ys \<longrightarrow> tail l = last_of xs None \<and> seg h (prv (h x)) xs None"
      by auto
    have "tail l = last_of (a # xs) None \<and> seg h (prv (h a)) (a # xs) None"
    proof (cases xs)
      case Nil
      with v xs show ?thesis by (simp add: node_valid_def)
    next
      case (Cons x ys)
      with v xs have "prv (h x) = Some a" by (simp add: node_valid_def)
      with Cons tl xs show ?thesis by auto
    qed
    with v xs Some show ?thesis
      by (intro exI [of _ "a # xs"]) (auto simp: node_valid_def)
  qed
qed (simp_all)

lemma check_validity_loop_seg:
  assumes "seg h p xs None" "xs \<noteq> [] \<longrightarrow> tail l = last_of xs None"
    and "\<forall>x ys. xs = x # ys \<longrightarrow> (case p of Some q \<Rightarrow> nxt (h q) = Some x | None \<Rightarrow> head l = Some x)"
  shows "check_validity_loop h l (first_of xs None) cnt = Some (items l = cnt + int (length xs))"
  using assms
proof (induction xs arbitrary: p cnt)
  case Nil
  then show ?case by (subst check_validity_loop.simps) auto
next
  case (Cons x xs)
  have "node_valid h l x"
    using Cons.prems by (cases xs) (auto simp: node_valid_def split: option.splits)
  moreover have "check_validity_loop h l (first_of xs None) (cnt + 1) =
      Some (items l = cnt + 1 + int (length xs))"
    using Cons.prems by (intro Cons.IH [of "Some x"]) (auto, cases xs, auto)
  ultimately show ?case using Cons.prems
    by (subst check_validity_loop.simps) (auto simp: add.assoc)
qed

lemma check_validity_iff:
  "linked_list_check_validity h l = Some True \<longleftrightarrow> (\<exists>xs. dll_but_first_prev h l xs)"
proof
  assume "linked_list_check_validity h l = Some True"
  then show "\<exists>xs. dll_but_first_prev h l xs"
    unfolding linked_list_check_validity_def dll_but_first_prev_def
    by (drule_tac check_validity_loop_True)
      (metis add_0 distinct.simps(1) list.exhaust seg_None_distinct)
next
  assume "\<exists>xs. dll_but_first_prev h l xs"
  then obtain xs where xs: "dll_but_first_prev h l xs" ..
  show "linked_list_check_validity h l = Some True"
  proof (cases xs)
    case Nil
    with xs show ?thesis
      by (simp add: linked_list_check_validity_def dll_but_first_prev_def check_validity_loop.simps)
  next
    case (Cons x ys)
    with xs check_validity_loop_seg [of h "prv (h x)" xs l 0] show ?thesis
      by (auto simp: linked_list_check_validity_def dll_but_first_prev_def split: option.splits)
  qed
qed

lemma dll_check_validity:
  assumes "dll h l xs"
  shows "linked_list_check_validity h l = Some True"
proof -
  have "dll_but_first_prev h l xs"
    using assms by (auto simp: dll_def dll_but_first_prev_def)
  then show ?thesis by (auto simp: check_validity_iff)
qed

section \<open>The contract the clients rely on\<close>

text \<open>
  A store of disjoint sequences: \<open>rep h l xs\<close> relates the shared heap \<open>h\<close> and the
  anchor \<open>l\<close> to the sequence. Each mutation changes one sequence and keeps every
  sequence that shares no item with it.
\<close>

locale sequence_store =
  fixes rep :: "'h \<Rightarrow> 'l \<Rightarrow> 'a list \<Rightarrow> bool"
    and empty_anchor :: 'l
    and add_tail :: "'h \<times> 'l \<Rightarrow> 'a \<Rightarrow> 'h \<times> 'l"
    and remove :: "'h \<times> 'l \<Rightarrow> 'a \<Rightarrow> ('h \<times> 'l) option"
    and extract_head :: "'h \<times> 'l \<Rightarrow> (('h \<times> 'l) \<times> 'a ptr) option"
    and next_item :: "'h \<Rightarrow> 'a \<Rightarrow> 'a ptr"
    and prev_item :: "'h \<Rightarrow> 'a \<Rightarrow> 'a ptr"
    and first_item :: "'l \<Rightarrow> 'a ptr"
    and last_item :: "'l \<Rightarrow> 'a ptr"
    and size_of :: "'l \<Rightarrow> int"
  assumes rep_empty: "rep h empty_anchor []"
    and rep_distinct: "rep h l xs \<Longrightarrow> distinct xs"
    and rep_first: "rep h l xs \<Longrightarrow> first_item l = first_of xs None"
    and rep_last: "rep h l xs \<Longrightarrow> last_item l = last_of xs None"
    and rep_size: "rep h l xs \<Longrightarrow> size_of l = int (length xs)"
    and rep_next: "rep h l (xs @ x # ys) \<Longrightarrow> next_item h x = first_of ys None"
    and rep_prev: "rep h l (xs @ x # ys) \<Longrightarrow> prev_item h x = last_of xs None"
    and rep_add_tail: "rep h l xs \<Longrightarrow> x \<notin> set xs \<Longrightarrow> add_tail (h, l) x = (h', l') \<Longrightarrow>
      rep h' l' (xs @ [x]) \<and>
      (\<forall>k ys. rep h k ys \<longrightarrow> set ys \<inter> set (x # xs) = {} \<longrightarrow> rep h' k ys)"
    and rep_remove: "rep h l (xs @ x # ys) \<Longrightarrow>
      \<exists>h' l'. remove (h, l) x = Some (h', l') \<and> rep h' l' (xs @ ys) \<and>
        (\<forall>k zs. rep h k zs \<longrightarrow> set zs \<inter> set (xs @ x # ys) = {} \<longrightarrow> rep h' k zs)"
    and rep_extract_head: "rep h l (x # xs) \<Longrightarrow>
      \<exists>h' l'. extract_head (h, l) = Some ((h', l'), Some x) \<and> rep h' l' xs \<and>
        (\<forall>k zs. rep h k zs \<longrightarrow> set zs \<inter> set (x # xs) = {} \<longrightarrow> rep h' k zs)"
    and rep_extract_empty: "rep h l [] \<Longrightarrow> extract_head (h, l) = Some ((h, l), None)"
begin

text \<open>Moving an item to the end of another sequence (\<open>remove\<close>, then \<open>add_tail\<close>).\<close>

lemma move_to_tail:
  assumes "rep h l (xs @ x # ys)" "rep h k zs" "set (xs @ x # ys) \<inter> set zs = {}"
  shows "\<exists>h1 l' h' k'. remove (h, l) x = Some (h1, l') \<and> add_tail (h1, k) x = (h', k') \<and>
     rep h' l' (xs @ ys) \<and> rep h' k' (zs @ [x]) \<and>
     (\<forall>m us. rep h m us \<longrightarrow> set us \<inter> set (xs @ x # ys @ zs) = {} \<longrightarrow> rep h' m us)"
proof -
  obtain h1 l' where rm: "remove (h, l) x = Some (h1, l')" and l': "rep h1 l' (xs @ ys)"
    and fr: "\<And>m us. rep h m us \<Longrightarrow> set us \<inter> set (xs @ x # ys) = {} \<Longrightarrow> rep h1 m us"
    using rep_remove [OF assms(1)] by blast
  have k: "rep h1 k zs" using fr [OF assms(2)] assms(3) by blast
  obtain h' k' where ad: "add_tail (h1, k) x = (h', k')" by (cases "add_tail (h1, k) x")
  have x: "x \<notin> set zs" using assms(3) by auto
  from rep_add_tail [OF k x ad] have k': "rep h' k' (zs @ [x])"
    and fr': "\<And>m us. rep h1 m us \<Longrightarrow> set us \<inter> set (x # zs) = {} \<Longrightarrow> rep h' m us" by auto
  have "set (xs @ ys) \<inter> set (x # zs) = {}"
    using assms(3) rep_distinct [OF assms(1)] by auto
  with l' fr' have "rep h' l' (xs @ ys)" by blast
  moreover have "rep h' m us" if "rep h m us" "set us \<inter> set (xs @ x # ys @ zs) = {}" for m us
    using that fr [of m us] fr' [of m us] by auto
  ultimately show ?thesis using rm ad k' by blast
qed

text \<open>Handing the first item of one sequence to the end of another.\<close>

lemma head_to_tail:
  assumes "rep h l (x # xs)" "rep h k zs" "set (x # xs) \<inter> set zs = {}"
  shows "\<exists>h1 l' h' k'. extract_head (h, l) = Some ((h1, l'), Some x) \<and>
     add_tail (h1, k) x = (h', k') \<and> rep h' l' xs \<and> rep h' k' (zs @ [x]) \<and>
     (\<forall>m us. rep h m us \<longrightarrow> set us \<inter> set (x # xs @ zs) = {} \<longrightarrow> rep h' m us)"
proof -
  obtain h1 l' where ex: "extract_head (h, l) = Some ((h1, l'), Some x)" and l': "rep h1 l' xs"
    and fr: "\<And>m us. rep h m us \<Longrightarrow> set us \<inter> set (x # xs) = {} \<Longrightarrow> rep h1 m us"
    using rep_extract_head [OF assms(1)] by blast
  have k: "rep h1 k zs" using fr [OF assms(2)] assms(3) by blast
  obtain h' k' where ad: "add_tail (h1, k) x = (h', k')" by (cases "add_tail (h1, k) x")
  have x: "x \<notin> set zs" using assms(3) by auto
  from rep_add_tail [OF k x ad] have k': "rep h' k' (zs @ [x])"
    and fr': "\<And>m us. rep h1 m us \<Longrightarrow> set us \<inter> set (x # zs) = {} \<Longrightarrow> rep h' m us" by auto
  have "set xs \<inter> set (x # zs) = {}"
    using assms(3) rep_distinct [OF assms(1)] by auto
  with l' fr' have "rep h' l' xs" by blast
  moreover have "rep h' m us" if "rep h m us" "set us \<inter> set (x # xs @ zs) = {}" for m us
    using that fr [of m us] fr' [of m us] by auto
  ultimately show ?thesis using ex ad k' by blast
qed

text \<open>The search loops return, with the first match in the direction of the walk.\<close>

lemma walk_next_find:
  assumes "rep h l (xs @ ys)"
  shows "walk_find (next_item h) P (first_of ys None) = Some (List.find P ys)"
  using assms
proof (induction ys arbitrary: xs)
  case Nil
  show ?case by (subst walk_find.simps) simp
next
  case (Cons y ys)
  have "walk_find (next_item h) P (first_of ys None) = Some (List.find P ys)"
    using Cons.prems by (intro Cons.IH [of "xs @ [y]"]) simp
  with Cons.prems rep_next [OF Cons.prems] show ?case
    by (subst walk_find.simps) simp
qed

lemma walk_prev_find:
  assumes "rep h l (xs @ ys)"
  shows "walk_find (prev_item h) P (last_of xs None) = Some (List.find P (rev xs))"
  using assms
proof (induction xs arbitrary: ys rule: rev_induct)
  case Nil
  show ?case by (subst walk_find.simps) simp
next
  case (snoc x xs)
  have "walk_find (prev_item h) P (last_of xs None) = Some (List.find P (rev xs))"
    using snoc.prems by (intro snoc.IH [of "x # ys"]) simp
  moreover have "prev_item h x = last_of xs None"
    using rep_prev [of h l xs x ys] snoc.prems by simp
  ultimately show ?case
    by (subst walk_find.simps) simp
qed

end

text \<open>The doubly linked list provides the contract.\<close>

interpretation ll: sequence_store dll linked_list_init linked_list_add_tail_internal
  linked_list_remove_internal linked_list_extract_head "\<lambda>h a. nxt (h a)" "\<lambda>h a. prv (h a)"
  head tail linked_list_size
proof (unfold_locales, goal_cases)
  case (8 h l xs x h' l')
  have "dll h' k ys" if "dll h k ys" "set ys \<inter> set (x # xs) = {}" for k ys
    using dll_frame [OF that(1)] dll_add_tail(2) [OF 8] that(2) by (metis disjoint_iff)
  with dll_add_tail(1) [OF 8] show ?case by blast
next
  case (9 h l xs x ys)
  then obtain h' l' where *: "linked_list_remove_internal (h, l) x = Some (h', l')" "dll h' l' (xs @ ys)"
    and f: "\<And>z. z \<notin> set (xs @ x # ys) \<Longrightarrow> h' z = h z"
    by (rule dll_remove) blast
  have "dll h' k zs" if "dll h k zs" "set zs \<inter> set (xs @ x # ys) = {}" for k zs
    using dll_frame [OF that(1)] f that(2) by (metis disjoint_iff)
  with * show ?case by blast
next
  case (10 h l x xs)
  then obtain h' l' where *: "linked_list_extract_head (h, l) = Some ((h', l'), Some x)" "dll h' l' xs"
    and f: "\<And>z. z \<notin> set (x # xs) \<Longrightarrow> h' z = h z"
    by (rule dll_extract_head) blast
  have "dll h' k zs" if "dll h k zs" "set zs \<inter> set (x # xs) = {}" for k zs
    using dll_frame [OF that(1)] f that(2) by (metis disjoint_iff)
  with * show ?case by blast
qed (simp_all add: dll_init dll_distinct dll_size dll_nodeD dll_extract_empty, simp_all add: dll_def)

section \<open>Properties\<close>


text \<open>A two-element list in the heap of all cleared headers, for the witnesses.\<close>

definition cleared_heap :: "nat list_heap" where
  "cleared_heap = (\<lambda>_. \<lparr>nxt = None, prv = None\<rparr>)"

definition two_items :: "nat list_heap \<times> nat LinkedList" where
  "two_items = linked_list_add_tail_internal
     (linked_list_add_tail_internal (cleared_heap, linked_list_init) 7) 3"

lemma dll_two_items: "dll (fst two_items) (snd two_items) [7, 3]"
  by (simp add: two_items_def cleared_heap_def linked_list_init_def dll_def
      linked_list_add_tail_internal_def)


text \<open>C15: the insertion sort returns on every represented list and leaves a list of the same
  items in non-decreasing order of the comparator, for every comparator that is a total
  preorder in the sense its documentation asks for.\<close>

theorem linked_list_sort_correct:
  assumes "dll h l xs" and "consistent_cmp cmp"
  shows "\<exists>h' l' ys. linked_list_sort cmp (h, l) = Some (h', l') \<and> dll h' l' ys \<and>
     mset ys = mset xs \<and> sorted_wrt (\<lambda>a b. cmp a b \<le> 0) ys"
  by (rule dll_sort [OF assms]) blast

theorem linked_list_sort_correct_witness:
  "\<exists>h' l' ys. linked_list_sort (\<lambda>a b. int a - int b) two_items = Some (h', l') \<and> dll h' l' ys \<and>
     mset ys = mset [7, 3 :: nat] \<and> sorted_wrt (\<lambda>a b. int a - int b \<le> 0) ys"
  using linked_list_sort_correct [of "fst two_items" "snd two_items" "[7, 3]" "\<lambda>a b. int a - int b"]
    dll_two_items by (simp add: consistent_cmp_def)

text \<open>C26: \<^verbatim>\<open>linked_list_check_validity\<close> returns true exactly when the nodes reached from
  \<open>head\<close> form a correctly linked, duplicate-free list that ends at \<open>tail\<close> and has
  \<open>items\<close> nodes, except that the first node's \<open>prev\<close> may be non-null as long as the node
  it points to points back. So it accepts every well-formed list, and there is a list it
  accepts whose \<^verbatim>\<open>head->prev\<close> is not null although the documentation says that all list
  pointers match up.\<close>

theorem linked_list_check_validity_decides:
  "(linked_list_check_validity h l = Some True \<longleftrightarrow> (\<exists>xs. dll_but_first_prev h l xs)) \<and>
   (\<exists>(h' :: nat list_heap) l'. linked_list_check_validity h' l' = Some True \<and> \<not> (\<exists>xs. dll h' l' xs))"
proof (intro conjI check_validity_iff exI)
  let ?h = "set_nxt 1 (Some 0) (set_prv (0 :: nat) (Some 1) cleared_heap)"
  let ?l = "\<lparr>head = Some 0, tail = Some 0, items = 1\<rparr>"
  have "dll_but_first_prev ?h ?l [0]"
    by (simp add: dll_but_first_prev_def cleared_heap_def)
  then show "linked_list_check_validity ?h ?l = Some True"
    by (auto simp: check_validity_iff)
  show "\<not> (\<exists>xs. dll ?h ?l xs)"
  proof
    assume "\<exists>xs. dll ?h ?l xs"
    then obtain xs where xs: "dll ?h ?l xs" ..
    then obtain ys where "xs = 0 # ys" by (cases xs) (auto simp: dll_def)
    with xs show False by (simp add: dll_def)
  qed
qed

end
