(* ===== verification/Fifo_Queue.thy ===== *)
theory Fifo_Queue
  imports Whist_Prelude
begin

text \<open>
  The thread-safe bounded queue of \<^verbatim>\<open>protocol/whist/utils/queue.c\<close>. The storage is the
  byte array of the code: slot \<open>i\<close> is the \<open>item_size\<close> bytes at offset
  \<open>item_size * i\<close>. Each critical section (lock to unlock, or lock to wait) is one function;
  the blocking calls are a step relation over threads in which a waiting thread gives up the
  mutex and is made runnable again by a broadcast, a spurious wake-up or its timeout.

  The locale \<open>bounded_fifo\<close> is the contract of a bounded queue; it is interpreted on the
  code's operations and carries the FIFO theorem for arbitrary histories.
\<close>

section \<open>The code\<close>

record QueueContext =
  read_idx :: nat
  write_idx :: nat
  item_size :: nat
  num_items :: nat
  max_items :: nat
  data :: "byte list"
  destroying :: bool

definition increment_idx :: "QueueContext \<Rightarrow> nat \<Rightarrow> nat" where
  "increment_idx q idx = (if idx + 1 = max_items q then 0 else idx + 1)"

definition dequeue_item :: "QueueContext \<Rightarrow> QueueContext \<times> byte list" where
  "dequeue_item q =
     (let q = q\<lparr>num_items := num_items q - 1\<rparr>;
          item = mem_read (item_size q * read_idx q) (item_size q) (data q)
      in (q\<lparr>read_idx := increment_idx q (read_idx q)\<rparr>, item))"

definition enqueue_item :: "QueueContext \<Rightarrow> byte list \<Rightarrow> QueueContext" where
  "enqueue_item q item =
     (let q = q\<lparr>num_items := num_items q + 1\<rparr>;
          q = q\<lparr>data := mem_write (item_size q * write_idx q) item (data q)\<rparr>
      in q\<lparr>write_idx := increment_idx q (write_idx q)\<rparr>)"

text \<open>Creation: the four allocations may fail in turn. \<^verbatim>\<open>fifo_queue_destroy\<close> broadcasts on
  both conditions before it frees what exists, and \<^verbatim>\<open>whist_broadcast_cond\<close> dereferences its
  argument, so destroying a context whose conditions were never created terminates the process
  (\<open>None\<close>). \<open>Some None\<close> is the null pointer that the caller gets.\<close>

record QueueHandles =
  has_data :: bool
  has_mutex :: bool
  has_items_cond :: bool
  has_space_cond :: bool

definition fifo_queue_destroy :: "QueueHandles option \<Rightarrow> unit option" where
  "fifo_queue_destroy ctx =
     (case ctx of None \<Rightarrow> Some ()
      | Some c \<Rightarrow> do {
          fatal_assert (has_items_cond c);
          fatal_assert (has_space_cond c);
          Some () })"

record alloc_results =
  calloc_ok :: bool
  data_ok :: bool
  mutex_ok :: bool
  items_cond_ok :: bool
  space_cond_ok :: bool

definition fifo_queue_create ::
    "alloc_results \<Rightarrow> byte list \<Rightarrow> nat \<Rightarrow> nat \<Rightarrow> QueueContext option option" where
  "fifo_queue_create r mem sz maxn =
     (if \<not> calloc_ok r then Some None
      else if \<not> data_ok r then
        do { fifo_queue_destroy (Some \<lparr>has_data = False, has_mutex = False,
               has_items_cond = False, has_space_cond = False\<rparr>); Some None }
      else if \<not> mutex_ok r then
        do { fifo_queue_destroy (Some \<lparr>has_data = True, has_mutex = False,
               has_items_cond = False, has_space_cond = False\<rparr>); Some None }
      else if \<not> items_cond_ok r then
        do { fifo_queue_destroy (Some \<lparr>has_data = True, has_mutex = True,
               has_items_cond = False, has_space_cond = False\<rparr>); Some None }
      else if \<not> space_cond_ok r then
        do { fifo_queue_destroy (Some \<lparr>has_data = True, has_mutex = True,
               has_items_cond = True, has_space_cond = False\<rparr>); Some None }
      else Some (Some \<lparr>read_idx = 0, write_idx = 0, item_size = sz, num_items = 0,
             max_items = maxn, data = take (sz * maxn) mem, destroying = False\<rparr>))"

text \<open>The non-blocking calls; the context pointer may be null. The result is the return code.\<close>

definition fifo_queue_enqueue_item ::
    "QueueContext option \<Rightarrow> byte list \<Rightarrow> QueueContext option \<times> int" where
  "fifo_queue_enqueue_item ctx item =
     (case ctx of None \<Rightarrow> (None, -1)
      | Some q \<Rightarrow> if num_items q \<ge> max_items q then (Some q, -1)
                  else (Some (enqueue_item q item), 0))"

definition fifo_queue_dequeue_item ::
    "QueueContext option \<Rightarrow> QueueContext option \<times> byte list option \<times> int" where
  "fifo_queue_dequeue_item ctx =
     (case ctx of None \<Rightarrow> (None, None, -1)
      | Some q \<Rightarrow> if num_items q \<le> 0 then (Some q, None, -1)
                  else (case dequeue_item q of (q', item) \<Rightarrow> (Some q', Some item, 0)))"

text \<open>
  The blocking calls. A thread is idle, waits on a condition variable with its remaining
  timeout, or is runnable again and will re-test the loop condition once it holds the mutex.
  \<open>timeout\<close> is the argument of the call (negative: wait without timeout).
\<close>

datatype call = Enq "byte list" int | Deq int

datatype thread =
    Idle
  | Waiting call int        \<comment> \<open>in the condition wait, remaining timeout in ms\<close>
  | Runnable call int       \<comment> \<open>woken, about to re-test the loop condition\<close>
  | Returned int "byte list option"

type_synonym tid = nat

record queue_system =
  ctx :: QueueContext
  threads :: "tid \<Rightarrow> thread"

definition waits_for_items :: "thread \<Rightarrow> bool" where
  "waits_for_items t = (case t of Waiting (Deq _) _ \<Rightarrow> True | _ \<Rightarrow> False)"

definition waits_for_space :: "thread \<Rightarrow> bool" where
  "waits_for_space t = (case t of Waiting (Enq _ _) _ \<Rightarrow> True | _ \<Rightarrow> False)"

definition wake :: "(thread \<Rightarrow> bool) \<Rightarrow> thread \<Rightarrow> thread" where
  "wake P t = (case t of Waiting c ms \<Rightarrow> if P t then Runnable c ms else t | _ \<Rightarrow> t)"

text \<open>One round of the \<^verbatim>\<open>while\<close> loop of the blocking calls, from holding the mutex to giving
  it up: return, or start to wait. A successful round broadcasts the other condition.\<close>

definition section_round :: "tid \<Rightarrow> call \<Rightarrow> int \<Rightarrow> queue_system \<Rightarrow> queue_system" where
  "section_round t c ms s =
     (let q = ctx s in
      case c of
        Enq item timeout \<Rightarrow>
          if num_items q \<ge> max_items q then
            (if destroying q then s\<lparr>threads := (threads s)(t := Returned (-1) None)\<rparr>
             else s\<lparr>threads := (threads s)(t := Waiting c ms)\<rparr>)
          else s\<lparr>ctx := enqueue_item q item,
                 threads := (wake waits_for_items \<circ> threads s)(t := Returned 0 None)\<rparr>
      | Deq timeout \<Rightarrow>
          if num_items q \<le> 0 then
            (if destroying q then s\<lparr>threads := (threads s)(t := Returned (-1) None)\<rparr>
             else s\<lparr>threads := (threads s)(t := Waiting c ms)\<rparr>)
          else (case dequeue_item q of (q', item) \<Rightarrow>
            s\<lparr>ctx := q',
              threads := (wake waits_for_space \<circ> threads s)(t := Returned 0 (Some item))\<rparr>))"

definition call_timeout :: "call \<Rightarrow> int" where
  "call_timeout c = (case c of Enq _ timeout \<Rightarrow> timeout | Deq timeout \<Rightarrow> timeout)"

text \<open>After a wake-up the loop recomputes the remaining timeout from the elapsed time, if the
  call has one.\<close>

definition remaining_timeout :: "call \<Rightarrow> int \<Rightarrow> int \<Rightarrow> int" where
  "remaining_timeout c ms elapsed_ms =
     (if call_timeout c \<ge> 0 then max (call_timeout c - elapsed_ms) 0 else ms)"

text \<open>The first part of \<^verbatim>\<open>fifo_queue_destroy\<close>: raise the flag and broadcast both conditions.
  (The frees that follow are only meaningful once no thread uses the queue.)\<close>

definition destroy_signal :: "queue_system \<Rightarrow> queue_system" where
  "destroy_signal s = s\<lparr>ctx := (ctx s)\<lparr>destroying := True\<rparr>,
     threads := wake (\<lambda>t. waits_for_items t \<or> waits_for_space t) \<circ> threads s\<rparr>"

text \<open>The C calls copy exactly \<open>item_size\<close> bytes from the caller's item.\<close>

definition call_fits :: "nat \<Rightarrow> call \<Rightarrow> bool" where
  "call_fits sz c = (case c of Enq item _ \<Rightarrow> length item = sz | Deq _ \<Rightarrow> True)"

inductive queue_step :: "queue_system \<Rightarrow> queue_system \<Rightarrow> bool" where
  call_blocking: "threads s t = Idle \<Longrightarrow> c \<noteq> Deq 0 \<Longrightarrow> call_fits (item_size (ctx s)) c \<Longrightarrow>
     queue_step s (section_round t c (call_timeout c) s)"
| call_deq_no_wait: "threads s t = Idle \<Longrightarrow>
     fifo_queue_dequeue_item (Some (ctx s)) = (Some q', item, r) \<Longrightarrow>
     queue_step s (s\<lparr>ctx := q', threads :=
       (if r = 0 then wake waits_for_space \<circ> threads s else threads s)(t := Returned r item)\<rparr>)"
| call_enq_no_wait: "threads s t = Idle \<Longrightarrow> length item = item_size (ctx s) \<Longrightarrow>
     fifo_queue_enqueue_item (Some (ctx s)) item = (Some q', r) \<Longrightarrow>
     queue_step s (s\<lparr>ctx := q', threads :=
       (if r = 0 then wake waits_for_items \<circ> threads s else threads s)(t := Returned r None)\<rparr>)"
| resume: "threads s t = Runnable c ms \<Longrightarrow>
     queue_step s (section_round t c (remaining_timeout c ms elapsed_ms) s)"
| spurious: "threads s t = Waiting c ms \<Longrightarrow>
     queue_step s (s\<lparr>threads := (threads s)(t := Runnable c ms)\<rparr>)"
| timed_out: "threads s t = Waiting c ms \<Longrightarrow> call_timeout c \<ge> 0 \<Longrightarrow>
     queue_step s (s\<lparr>threads := (threads s)(t := Returned (-1) None)\<rparr>)"
| finish: "threads s t = Returned r item \<Longrightarrow>
     queue_step s (s\<lparr>threads := (threads s)(t := Idle)\<rparr>)"
| destroy: "queue_step s (destroy_signal s)"

inductive_cases queue_stepE: "queue_step s s'"

inductive queue_reachable :: "QueueContext \<Rightarrow> queue_system \<Rightarrow> bool" for q0 where
  start: "queue_reachable q0 \<lparr>ctx = q0, threads = (\<lambda>_. Idle)\<rparr>"
| step: "queue_reachable q0 s \<Longrightarrow> queue_step s s' \<Longrightarrow> queue_reachable q0 s'"

section \<open>Contents and invariant\<close>

definition slot :: "QueueContext \<Rightarrow> nat \<Rightarrow> byte list" where
  "slot q i = mem_read (item_size q * i) (item_size q) (data q)"

definition contents :: "QueueContext \<Rightarrow> byte list list" where
  "contents q = map (\<lambda>k. slot q ((read_idx q + k) mod max_items q)) [0..<num_items q]"

definition queue_inv :: "QueueContext \<Rightarrow> bool" where
  "queue_inv q \<longleftrightarrow> 0 < max_items q \<and> num_items q \<le> max_items q \<and> read_idx q < max_items q \<and>
     write_idx q = (read_idx q + num_items q) mod max_items q \<and>
     length (data q) = item_size q * max_items q"

definition fits :: "QueueContext \<Rightarrow> byte list \<Rightarrow> bool" where
  "fits q item \<longleftrightarrow> length item = item_size q"

lemma length_contents [simp]: "length (contents q) = num_items q"
  by (simp add: contents_def)

lemma increment_idx_mod:
  "0 < max_items q \<Longrightarrow> idx < max_items q \<Longrightarrow> increment_idx q idx = (idx + 1) mod max_items q"
  by (simp add: increment_idx_def)

lemma increment_idx_cong [simp]:
  "increment_idx (q\<lparr>num_items := n\<rparr>) = increment_idx q"
  "increment_idx (q\<lparr>data := d\<rparr>) = increment_idx q"
  by (simp_all add: increment_idx_def fun_eq_iff)

lemma queue_inv_created:
  assumes "0 < maxn" "length mem \<ge> sz * maxn"
    and "fifo_queue_create r mem sz maxn = Some (Some q)"
  shows "queue_inv q" and "contents q = []" and "max_items q = maxn" and "item_size q = sz"
  using assms
  by (auto simp: fifo_queue_create_def fifo_queue_destroy_def queue_inv_def contents_def
      split: if_splits)

text \<open>The slot that \<open>enqueue_item\<close> overwrites is not one of the occupied slots.\<close>

lemma slot_enqueue_other:
  assumes "queue_inv q" "fits q item" "i < max_items q" "i \<noteq> write_idx q"
  shows "slot (enqueue_item q item) i = slot q i"
proof -
  have w: "write_idx q < max_items q" using assms(1) by (simp add: queue_inv_def)
  show ?thesis
    using assms slot_bound [OF w, of "item_size q"] slot_bound [OF assms(3), of "item_size q"]
      slot_disjoint [OF assms(4), of "item_size q"]
    by (auto simp: slot_def enqueue_item_def Let_def queue_inv_def fits_def
        intro!: mem_read_write_other)
qed

lemma slot_enqueue_same:
  assumes "queue_inv q" "fits q item"
  shows "slot (enqueue_item q item) (write_idx q) = item"
proof -
  have w: "write_idx q < max_items q" using assms(1) by (simp add: queue_inv_def)
  have "mem_read (item_size q * write_idx q) (length item)
      (mem_write (item_size q * write_idx q) item (data q)) = item"
    using assms slot_bound [OF w, of "item_size q"]
    by (intro mem_read_write_same) (simp add: queue_inv_def fits_def)
  then show ?thesis
    using assms(2) by (simp add: slot_def enqueue_item_def Let_def fits_def)
qed

lemma enqueue_item_fields [simp]:
  "num_items (enqueue_item q item) = num_items q + 1"
  "max_items (enqueue_item q item) = max_items q"
  "item_size (enqueue_item q item) = item_size q"
  "read_idx (enqueue_item q item) = read_idx q"
  "destroying (enqueue_item q item) = destroying q"
  "write_idx (enqueue_item q item) = increment_idx q (write_idx q)"
  by (simp_all add: enqueue_item_def Let_def)

lemma enqueue_item_refines:
  assumes "queue_inv q" "fits q item" "num_items q < max_items q"
  shows "queue_inv (enqueue_item q item)" and "contents (enqueue_item q item) = contents q @ [item]"
proof -
  have w: "write_idx q = (read_idx q + num_items q) mod max_items q" "write_idx q < max_items q"
    using assms(1) by (simp_all add: queue_inv_def)
  have "length (data (enqueue_item q item)) = length (data q)"
    using assms slot_bound [OF w(2), of "item_size q"]
    by (simp add: enqueue_item_def Let_def queue_inv_def fits_def)
  then show "queue_inv (enqueue_item q item)"
    using assms w by (auto simp: queue_inv_def increment_idx_mod mod_Suc_eq)
  have "slot (enqueue_item q item) ((read_idx q + k) mod max_items q) =
      slot q ((read_idx q + k) mod max_items q)" if "k < num_items q" for k
    using assms that w mod_add_inj [of k "max_items q" "num_items q" "read_idx q"]
    by (intro slot_enqueue_other) auto
  moreover have "slot (enqueue_item q item) ((read_idx q + num_items q) mod max_items q) = item"
    using slot_enqueue_same [OF assms(1,2)] w(1) by simp
  ultimately show "contents (enqueue_item q item) = contents q @ [item]"
    by (simp add: contents_def)
qed

lemma dequeue_item_refines:
  assumes "queue_inv q" "0 < num_items q" "dequeue_item q = (q', item)"
  shows "queue_inv q'" and "contents q = item # contents q'"
    and "max_items q' = max_items q" and "item_size q' = item_size q"
    and "destroying q' = destroying q" and "num_items q' = num_items q - 1"
proof -
  have q': "read_idx q' = (read_idx q + 1) mod max_items q" "num_items q' = num_items q - 1"
    "max_items q' = max_items q" "item_size q' = item_size q" "data q' = data q"
    "write_idx q' = write_idx q" "destroying q' = destroying q" "item = slot q (read_idx q)"
    using assms by (auto simp: dequeue_item_def Let_def increment_idx_mod queue_inv_def slot_def)
  show "max_items q' = max_items q" "item_size q' = item_size q"
    "destroying q' = destroying q" "num_items q' = num_items q - 1"
    by (fact q')+
  obtain n where n: "num_items q = Suc n" using assms(2) by (cases "num_items q") auto
  have "contents q = slot q (read_idx q mod max_items q) #
      map (\<lambda>k. slot q ((read_idx q + Suc k) mod max_items q)) [0..<n]"
    unfolding contents_def n by (simp add: upt_conv_Cons map_Suc_upt [symmetric] del: upt_Suc)
  moreover have "contents q' = map (\<lambda>k. slot q ((read_idx q + Suc k) mod max_items q)) [0..<n]"
    unfolding contents_def q' by (simp add: n slot_def q' mod_simps)
  ultimately show "contents q = item # contents q'"
    using assms(1) q'(8) by (simp add: queue_inv_def)
  show "queue_inv q'"
    using assms(1) n by (auto simp: queue_inv_def q' mod_simps)
qed

section \<open>The contract of a bounded queue\<close>

datatype 'a fifo_op = Put 'a | Take

locale bounded_fifo =
  fixes enq :: "'q \<Rightarrow> 'a \<Rightarrow> 'q option"
    and deq :: "'q \<Rightarrow> ('q \<times> 'a) option"
    and inv :: "'q \<Rightarrow> bool"
    and seq :: "'q \<Rightarrow> 'a list"
    and cap :: "'q \<Rightarrow> nat"
    and ok :: "'q \<Rightarrow> 'a \<Rightarrow> bool"
  assumes seq_bounded: "inv q \<Longrightarrow> length (seq q) \<le> cap q"
    and enq_room: "inv q \<Longrightarrow> ok q x \<Longrightarrow> length (seq q) < cap q \<Longrightarrow>
      \<exists>q'. enq q x = Some q' \<and> inv q' \<and> seq q' = seq q @ [x] \<and> cap q' = cap q \<and> ok q' = ok q"
    and enq_full: "inv q \<Longrightarrow> length (seq q) = cap q \<Longrightarrow> enq q x = None"
    and deq_some: "inv q \<Longrightarrow> seq q = x # xs \<Longrightarrow>
      \<exists>q'. deq q = Some (q', x) \<and> inv q' \<and> seq q' = xs \<and> cap q' = cap q \<and> ok q' = ok q"
    and deq_empty: "inv q \<Longrightarrow> seq q = [] \<Longrightarrow> deq q = None"
begin

text \<open>A history: each operation either takes effect or is refused. The result carries the
  items that were accepted and the items that were handed out, in order.\<close>

primrec run :: "'q \<Rightarrow> 'a fifo_op list \<Rightarrow> 'q \<times> 'a list \<times> 'a list" where
  "run q [] = (q, [], [])"
| "run q (op # ops) =
     (case op of
        Put x \<Rightarrow> (case enq q x of
            None \<Rightarrow> run q ops
          | Some q' \<Rightarrow> (case run q' ops of (r, ins, outs) \<Rightarrow> (r, x # ins, outs)))
      | Take \<Rightarrow> (case deq q of
            None \<Rightarrow> run q ops
          | Some (q', x) \<Rightarrow> (case run q' ops of (r, ins, outs) \<Rightarrow> (r, ins, x # outs))))"

lemma run_fifo:
  assumes "inv q" "\<forall>x. Put x \<in> set ops \<longrightarrow> ok q x" "run q ops = (r, ins, outs)"
  shows "inv r \<and> cap r = cap q \<and> seq q @ ins = outs @ seq r"
  using assms
proof (induction ops arbitrary: q r ins outs)
  case Nil
  then show ?case by simp
next
  case (Cons op ops)
  note prems = Cons.prems and IH = Cons.IH
  have fits: "\<forall>x. Put x \<in> set ops \<longrightarrow> ok q x" using prems(2) by simp
  show ?case
  proof (cases op)
    case (Put x)
    show ?thesis
    proof (cases "length (seq q) < cap q")
      case True
      with prems(1,2) Put obtain q' where q': "enq q x = Some q'" "inv q'"
        "seq q' = seq q @ [x]" "cap q' = cap q" "ok q' = ok q"
        using enq_room [of q x] by auto
      obtain ins' where run: "run q' ops = (r, ins', outs)" "ins = x # ins'"
        using prems(3) Put q'(1) by (auto split: prod.splits)
      with IH [OF q'(2) _ run(1)] fits q' show ?thesis by simp
    next
      case False
      with prems(1) have "enq q x = None"
        using enq_full [of q] seq_bounded [of q] by simp
      with prems Put have "run q ops = (r, ins, outs)" by simp
      from IH [OF prems(1) fits this] show ?thesis .
    qed
  next
    case Take
    show ?thesis
    proof (cases "seq q")
      case Nil
      with prems Take have "run q ops = (r, ins, outs)" using deq_empty by simp
      from IH [OF prems(1) fits this] show ?thesis .
    next
      case (Cons y ys)
      with prems(1) obtain q' where q': "deq q = Some (q', y)" "inv q'"
        "seq q' = ys" "cap q' = cap q" "ok q' = ok q"
        using deq_some by blast
      obtain outs' where run: "run q' ops = (r, ins, outs')" "outs = y # outs'"
        using prems(3) Take q'(1) by (auto split: prod.splits)
      with IH [OF q'(2) _ run(1)] fits q' Cons show ?thesis by simp
    qed
  qed
qed

end

definition try_enqueue :: "QueueContext \<Rightarrow> byte list \<Rightarrow> QueueContext option" where
  "try_enqueue q item =
     (case fifo_queue_enqueue_item (Some q) item of (q', r) \<Rightarrow> if r = 0 then q' else None)"

definition try_dequeue :: "QueueContext \<Rightarrow> (QueueContext \<times> byte list) option" where
  "try_dequeue q =
     (case fifo_queue_dequeue_item (Some q) of
        (Some q', Some item, r) \<Rightarrow> if r = 0 then Some (q', item) else None
      | _ \<Rightarrow> None)"

interpretation fq: bounded_fifo try_enqueue try_dequeue queue_inv contents max_items fits
proof (unfold_locales, goal_cases)
  case (1 q)
  then show ?case by (simp add: queue_inv_def)
next
  case (2 q x)
  then show ?case
    using enqueue_item_refines [of q x]
    by (auto simp: try_enqueue_def fifo_queue_enqueue_item_def fits_def fun_eq_iff)
next
  case (3 q x)
  then show ?case by (simp add: try_enqueue_def fifo_queue_enqueue_item_def)
next
  case (4 q x xs)
  then have "0 < num_items q" by (metis length_contents length_greater_0_conv list.distinct(1))
  moreover obtain q' item where d: "dequeue_item q = (q', item)" by (cases "dequeue_item q")
  ultimately show ?case
    using dequeue_item_refines [OF 4(1) _ d] 4(2)
    by (auto simp: try_dequeue_def fifo_queue_dequeue_item_def fits_def fun_eq_iff)
next
  case (5 q)
  then have "num_items q = 0" by (metis length_contents list.size(3))
  then show ?case by (simp add: try_dequeue_def fifo_queue_dequeue_item_def)
qed

section \<open>Threads: no lost wake-up\<close>

definition pending_call :: "thread \<Rightarrow> call option" where
  "pending_call t = (case t of Waiting c _ \<Rightarrow> Some c | Runnable c _ \<Rightarrow> Some c | _ \<Rightarrow> None)"

text \<open>A thread only waits while the condition it waits for is false, and nobody waits once the
  queue is being destroyed.\<close>

definition wait_inv :: "queue_system \<Rightarrow> bool" where
  "wait_inv s \<longleftrightarrow>
     (\<forall>t. waits_for_items (threads s t) \<longrightarrow> num_items (ctx s) = 0 \<and> \<not> destroying (ctx s)) \<and>
     (\<forall>t. waits_for_space (threads s t) \<longrightarrow>
        num_items (ctx s) \<ge> max_items (ctx s) \<and> \<not> destroying (ctx s))"

definition system_inv :: "queue_system \<Rightarrow> bool" where
  "system_inv s \<longleftrightarrow> queue_inv (ctx s) \<and> wait_inv s \<and>
     (\<forall>t c. pending_call (threads s t) = Some c \<longrightarrow> call_fits (item_size (ctx s)) c)"

lemma waits_simps [simp]:
  "waits_for_items (Waiting c ms) = (case c of Deq _ \<Rightarrow> True | _ \<Rightarrow> False)"
  "waits_for_space (Waiting c ms) = (case c of Enq _ _ \<Rightarrow> True | _ \<Rightarrow> False)"
  "\<not> waits_for_items Idle" "\<not> waits_for_space Idle"
  "\<not> waits_for_items (Runnable c ms)" "\<not> waits_for_space (Runnable c ms)"
  "\<not> waits_for_items (Returned r item)" "\<not> waits_for_space (Returned r item)"
  by (simp_all add: waits_for_items_def waits_for_space_def split: call.split)

lemma waits_wake [simp]:
  "waits_for_items (wake P t) \<longleftrightarrow> waits_for_items t \<and> \<not> P t"
  "waits_for_space (wake P t) \<longleftrightarrow> waits_for_space t \<and> \<not> P t"
  by (cases t; auto simp: wake_def)+

lemma pending_call_simps [simp]:
  "pending_call (Waiting c ms) = Some c" "pending_call (Runnable c ms) = Some c"
  "pending_call Idle = None" "pending_call (Returned r item) = None"
  by (simp_all add: pending_call_def)

lemma pending_call_wake [simp]: "pending_call (wake P t) = pending_call t"
  by (cases t) (auto simp: wake_def)

text \<open>What an atomic operation on the queue guarantees its waiters.\<close>

lemma wait_inv_enqueue:
  assumes "wait_inv s"
  shows "wait_inv (s\<lparr>ctx := enqueue_item (ctx s) item,
     threads := (wake waits_for_items \<circ> threads s)(t := Returned r i)\<rparr>)"
  using assms by (auto simp: wait_inv_def)

lemma wait_inv_dequeue:
  assumes "wait_inv s" "destroying q' = destroying (ctx s)"
    and "num_items q' = num_items (ctx s) - 1"
  shows "wait_inv (s\<lparr>ctx := q',
     threads := (wake waits_for_space \<circ> threads s)(t := Returned r i)\<rparr>)"
  using assms by (auto simp: wait_inv_def)

lemma system_inv_section_round:
  assumes "system_inv s" "call_fits (item_size (ctx s)) c"
  shows "system_inv (section_round t c ms s)"
proof (cases c)
  case (Enq item timeout)
  with assms have "fits (ctx s) item" by (simp add: fits_def call_fits_def)
  with assms Enq show ?thesis
    using wait_inv_enqueue [where s = s and item = item and t = t and r = 0 and i = None] enqueue_item_refines(1) [of "ctx s" item]
    by (auto simp: section_round_def system_inv_def Let_def)
      (auto simp: wait_inv_def)
next
  case (Deq timeout)
  obtain q' item where d: "dequeue_item (ctx s) = (q', item)" by (cases "dequeue_item (ctx s)")
  show ?thesis
  proof (cases "num_items (ctx s) = 0")
    case True
    with assms Deq show ?thesis
      by (auto simp: section_round_def system_inv_def Let_def) (auto simp: wait_inv_def)
  next
    case False
    from assms(1) have "queue_inv (ctx s)" by (simp add: system_inv_def)
    with False have "num_items (ctx s) > 0" by simp
    from dequeue_item_refines [OF \<open>queue_inv (ctx s)\<close> this d] assms False Deq d show ?thesis
      using wait_inv_dequeue [where s = s and q' = q' and t = t and r = 0 and i = "Some item"]
      by (auto simp: section_round_def system_inv_def Let_def)
  qed
qed

lemma queue_step_system_inv: "queue_step s s' \<Longrightarrow> system_inv s \<Longrightarrow> system_inv s'"
proof (induction rule: queue_step.induct)
  case (call_blocking s t c)
  then show ?case by (simp add: system_inv_section_round)
next
  case (call_deq_no_wait s t q' item r)
  show ?case
  proof (cases "num_items (ctx s) = 0")
    case True
    with call_deq_no_wait show ?thesis
      by (auto simp: fifo_queue_dequeue_item_def system_inv_def wait_inv_def)
  next
    case False
    with call_deq_no_wait obtain i where d: "dequeue_item (ctx s) = (q', i)" "item = Some i" "r = 0"
      by (auto simp: fifo_queue_dequeue_item_def split: prod.splits)
    from call_deq_no_wait have "queue_inv (ctx s)" by (simp add: system_inv_def)
    with False have "num_items (ctx s) > 0" by simp
    from dequeue_item_refines [OF \<open>queue_inv (ctx s)\<close> this d(1)] call_deq_no_wait d show ?thesis
      using wait_inv_dequeue [where s = s and q' = q' and t = t and r = 0 and i = "Some i"] by (auto simp: system_inv_def)
  qed
next
  case (call_enq_no_wait s t item q' r)
  show ?case
  proof (cases "num_items (ctx s) \<ge> max_items (ctx s)")
    case True
    with call_enq_no_wait show ?thesis
      by (auto simp: fifo_queue_enqueue_item_def system_inv_def wait_inv_def)
  next
    case False
    with call_enq_no_wait have "q' = enqueue_item (ctx s) item" "r = 0"
      by (auto simp: fifo_queue_enqueue_item_def)
    with call_enq_no_wait False show ?thesis
      using wait_inv_enqueue [where s = s and item = item and t = t and r = 0 and i = None] enqueue_item_refines(1) [of "ctx s" item]
      by (auto simp: system_inv_def fits_def)
  qed
next
  case (resume s t c ms elapsed_ms)
  then have "call_fits (item_size (ctx s)) c"
    unfolding system_inv_def by (metis pending_call_simps(2))
  with resume show ?case by (simp add: system_inv_section_round)
next
  case (spurious s t c ms)
  then have "call_fits (item_size (ctx s)) c"
    unfolding system_inv_def by (metis pending_call_simps(1))
  with spurious show ?case by (auto simp: system_inv_def wait_inv_def)
next
  case (timed_out s t c ms)
  then show ?case by (auto simp: system_inv_def wait_inv_def)
next
  case (finish s t r item)
  then show ?case by (auto simp: system_inv_def wait_inv_def)
next
  case (destroy s)
  then show ?case
    by (auto simp: system_inv_def wait_inv_def destroy_signal_def queue_inv_def)
qed

lemma queue_reachable_inv:
  "queue_reachable q0 s \<Longrightarrow> queue_inv q0 \<Longrightarrow> system_inv s"
proof (induction rule: queue_reachable.induct)
  case start
  then show ?case by (simp add: system_inv_def wait_inv_def)
next
  case (step s s')
  then show ?case by (blast intro: queue_step_system_inv)
qed

section \<open>Properties\<close>


definition example_queue :: QueueContext where
  "example_queue = \<lparr>read_idx = 1, write_idx = 1, item_size = 1, num_items = 0, max_items = 2,
     data = [0, 0], destroying = False\<rparr>"




text \<open>C29: creation. A created queue is empty, has the requested capacity and satisfies the
  invariant; but if the item storage (or the mutex, or a condition) cannot be allocated, the
  error path destroys a context whose condition variables do not exist yet, which
  dereferences a null pointer instead of returning null.\<close>

theorem fifo_queue_create_outcome:
  assumes "0 < maxn" and "length mem \<ge> sz * maxn"
  shows "(\<not> calloc_ok r \<longrightarrow> fifo_queue_create r mem sz maxn = Some None) \<and>
    (calloc_ok r \<and> data_ok r \<and> mutex_ok r \<and> items_cond_ok r \<and> space_cond_ok r \<longrightarrow>
       (\<exists>q. fifo_queue_create r mem sz maxn = Some (Some q) \<and> queue_inv q \<and> contents q = [] \<and>
          max_items q = maxn \<and> item_size q = sz)) \<and>
    (calloc_ok r \<and> \<not> (data_ok r \<and> mutex_ok r \<and> items_cond_ok r \<and> space_cond_ok r) \<longrightarrow>
       fifo_queue_create r mem sz maxn = None)"
proof -
  have "\<exists>q. fifo_queue_create r mem sz maxn = Some (Some q)"
    if "calloc_ok r" "data_ok r" "mutex_ok r" "items_cond_ok r" "space_cond_ok r"
    using that by (simp add: fifo_queue_create_def)
  then show ?thesis
    using queue_inv_created [OF assms, of r]
    by (auto simp: fifo_queue_create_def fifo_queue_destroy_def)
qed

theorem fifo_queue_create_outcome_witness:
  "fifo_queue_create \<lparr>calloc_ok = True, data_ok = False, mutex_ok = True, items_cond_ok = True,
     space_cond_ok = True\<rparr> [0, 0, 0, 0] 2 2 = None"
  using fifo_queue_create_outcome [where maxn = 2 and mem = "[0, 0, 0, 0]" and sz = 2
      and r = "\<lparr>calloc_ok = True, data_ok = False, mutex_ok = True, items_cond_ok = True,
     space_cond_ok = True\<rparr>"]
  by simp

end
