(* ===== verification/Whist_Memory.thy ===== *)
theory Whist_Memory
  imports Whist_Prelude
begin

text \<open>
  The memory handling of \<^verbatim>\<open>protocol/whist/core/whist_memory.c\<close> (Linux configuration):
  page-granular regions, the block allocator with its free list, and the dynamic buffer.

  The operating system is a record: the regions that are mapped with their bytes, the page
  size, and the system's own choices as fields (\<open>mmap_pick\<close>: the address of a new mapping;
  \<open>reclaim\<close>: what the kernel leaves of pages marked with \<^verbatim>\<open>MADV_FREE\<close>; \<open>mmap_ok\<close>: whether
  it can serve a size at all). \<open>None\<close> means that a call does not return: the process was
  terminated, or a loop runs forever. Sizes are 64-bit words with C's wrap-around. When
  \<^verbatim>\<open>mmap\<close> fails the code compares its result with \<^verbatim>\<open>NULL\<close>, not with \<^verbatim>\<open>MAP_FAILED\<close>, and then
  stores the header through that invalid address, so the process ends there too.
\<close>

section \<open>Regions\<close>

type_synonym size_t = "64 word"
type_synonym addr = nat

record region_os =
  live :: "addr list"
  region_bytes :: "addr \<Rightarrow> byte list"     \<comment> \<open>the data part of a mapped region\<close>
  region_size_hdr :: "addr \<Rightarrow> size_t"     \<comment> \<open>\<^verbatim>\<open>RegionHeader.size\<close> in front of it\<close>
  page_size :: size_t
  mmap_pick :: "addr list \<Rightarrow> addr"
  mmap_ok :: "size_t \<Rightarrow> bool"
  reclaim :: "byte list \<Rightarrow> byte list"

text \<open>\<^verbatim>\<open>sizeof(RegionHeader)\<close> is the size of one \<^verbatim>\<open>size_t\<close>.\<close>

definition region_header_size :: size_t where
  "region_header_size = 8"

definition round_up_to_page :: "size_t \<Rightarrow> size_t \<Rightarrow> size_t" where
  "round_up_to_page page sz = sz + (page - sz mod page) mod page"

definition allocate_region :: "region_os \<Rightarrow> size_t \<Rightarrow> (region_os \<times> addr) option" where
  "allocate_region os sz =
     (let total = round_up_to_page (page_size os) (sz + region_header_size);
          a = mmap_pick os (live os)
      in do {
        fatal_assert (mmap_ok os total);
        Some (os\<lparr>live := a # live os,
                 region_size_hdr := (region_size_hdr os)(a := total),
                 region_bytes := (region_bytes os)(a :=
                   replicate (unat total - unat region_header_size) 0)\<rparr>, a) })"

text \<open>The page that holds the header is kept; the pages after it may lose their contents.\<close>

definition mark_unused_region :: "region_os \<Rightarrow> addr \<Rightarrow> region_os" where
  "mark_unused_region os a =
     (if region_size_hdr os a > page_size os then
        let kept = unat (page_size os) - unat region_header_size;
            bytes = region_bytes os a
        in os\<lparr>region_bytes := (region_bytes os)(a := take kept bytes @ reclaim os (drop kept bytes))\<rparr>
      else os)"

text \<open>On Linux this does nothing.\<close>

definition mark_used_region :: "region_os \<Rightarrow> addr \<Rightarrow> region_os" where
  "mark_used_region os a = os"

text \<open>Unmapping an address that is not a mapped region is a failed \<^verbatim>\<open>munmap\<close>.\<close>

definition deallocate_region :: "region_os \<Rightarrow> addr \<Rightarrow> region_os option" where
  "deallocate_region os a = do {
     fatal_assert (a \<in> set (live os));
     Some (os\<lparr>live := remove1 a (live os)\<rparr>) }"

definition realloc_region :: "region_os \<Rightarrow> addr \<Rightarrow> size_t \<Rightarrow> (region_os \<times> addr) option" where
  "realloc_region os a new_size =
     (let old_size = region_size_hdr os a in do {
        (os, b) \<leftarrow> allocate_region os new_size;
        let n = unat (min (old_size - region_header_size) new_size);
        let os = os\<lparr>region_bytes := (region_bytes os)(b :=
              mem_write 0 (mem_read 0 n (region_bytes os a)) (region_bytes os b))\<rparr>;
        os \<leftarrow> deallocate_region os a;
        Some (os, b) })"

section \<open>Block allocator\<close>

definition MAX_FREES :: nat where
  "MAX_FREES = 1024"

text \<open>\<open>free_blocks\<close> is the used part of the array, \<open>num_free_blocks\<close> its length.\<close>

record BlockAllocator =
  block_size :: size_t
  num_allocated_blocks :: int
  free_blocks :: "addr list"
  os :: region_os

definition num_free_blocks :: "BlockAllocator \<Rightarrow> nat" where
  "num_free_blocks b = length (free_blocks b)"

definition create_block_allocator :: "region_os \<Rightarrow> size_t \<Rightarrow> BlockAllocator" where
  "create_block_allocator s sz =
     \<lparr>block_size = sz, num_allocated_blocks = 0, free_blocks = [], os = s\<rparr>"

definition allocate_block :: "BlockAllocator \<Rightarrow> (BlockAllocator \<times> addr) option" where
  "allocate_block b =
     (if num_free_blocks b > 0 then
        let a = last (free_blocks b)
        in Some (b\<lparr>free_blocks := butlast (free_blocks b), os := mark_used_region (os b) a\<rparr>, a)
      else
        let b = b\<lparr>num_allocated_blocks := num_allocated_blocks b + 1\<rparr>
        in do { (s, a) \<leftarrow> allocate_region (os b) (block_size b); Some (b\<lparr>os := s\<rparr>, a) })"

definition free_block :: "BlockAllocator \<Rightarrow> addr \<Rightarrow> BlockAllocator option" where
  "free_block b a =
     (if num_free_blocks b < MAX_FREES then
        Some (b\<lparr>os := mark_unused_region (os b) a, free_blocks := free_blocks b @ [a]\<rparr>)
      else do {
        s \<leftarrow> deallocate_region (os b) a;
        Some (b\<lparr>os := s, num_allocated_blocks := num_allocated_blocks b - 1\<rparr>) })"

fun deallocate_all :: "region_os \<Rightarrow> addr list \<Rightarrow> region_os option" where
  "deallocate_all s [] = Some s"
| "deallocate_all s (a # as) = do { s \<leftarrow> deallocate_region s a; deallocate_all s as }"

definition destroy_block_allocator :: "BlockAllocator \<Rightarrow> region_os option" where
  "destroy_block_allocator b = do {
     fatal_assert (int (num_free_blocks b) = num_allocated_blocks b);
     deallocate_all (os b) (rev (free_blocks b)) }"

section \<open>Dynamic buffer\<close>

text \<open>The \<^verbatim>\<open>malloc\<close> heap: its blocks, and as fields the allocator's own choices (which sizes it
  can serve, the address of a new block, the bytes fresh memory holds).\<close>

record c_memory =
  regions :: region_os
  heap_block :: "addr \<rightharpoonup> byte list"
  heap_ok :: "size_t \<Rightarrow> bool"
  heap_pick :: "(addr \<rightharpoonup> byte list) \<Rightarrow> addr"
  junk :: "nat \<Rightarrow> byte"

definition safe_malloc :: "c_memory \<Rightarrow> size_t \<Rightarrow> (c_memory \<times> addr) option" where
  "safe_malloc m sz = do {
     fatal_assert (heap_ok m sz);
     let a = heap_pick m (heap_block m);
     Some (m\<lparr>heap_block := (heap_block m)(a \<mapsto> map (junk m) [0..<unat sz])\<rparr>, a) }"

definition safe_zalloc :: "c_memory \<Rightarrow> size_t \<Rightarrow> (c_memory \<times> addr) option" where
  "safe_zalloc m sz = do {
     fatal_assert (heap_ok m sz);
     let a = heap_pick m (heap_block m);
     Some (m\<lparr>heap_block := (heap_block m)(a \<mapsto> replicate (unat sz) 0)\<rparr>, a) }"

text \<open>\<^verbatim>\<open>realloc\<close> of an address that is not a heap block is undefined in C (\<open>None\<close>).\<close>

definition safe_realloc :: "c_memory \<Rightarrow> addr \<Rightarrow> size_t \<Rightarrow> (c_memory \<times> addr) option" where
  "safe_realloc m a sz = do {
     old \<leftarrow> heap_block m a;
     fatal_assert (heap_ok m sz);
     let m = m\<lparr>heap_block := (heap_block m)(a := None)\<rparr>;
     let b = heap_pick m (heap_block m);
     let bytes = take (unat sz) old @ map (junk m) [length old..<unat sz];
     Some (m\<lparr>heap_block := (heap_block m)(b \<mapsto> bytes)\<rparr>, b) }"

record DynamicBuffer =
  db_size :: size_t
  db_capacity :: size_t
  db_buf :: addr
  use_memory_regions :: bool

definition init_dynamic_buffer :: "c_memory \<Rightarrow> bool \<Rightarrow> (c_memory \<times> DynamicBuffer) option" where
  "init_dynamic_buffer m use_regions =
     (if use_regions then do {
        (r, a) \<leftarrow> allocate_region (regions m) 4096;
        Some (m\<lparr>regions := r\<rparr>,
              \<lparr>db_size = 0, db_capacity = 4096, db_buf = a, use_memory_regions = True\<rparr>) }
      else do {
        (m, a) \<leftarrow> safe_malloc m 128;
        Some (m, \<lparr>db_size = 0, db_capacity = 128, db_buf = a, use_memory_regions = False\<rparr>) })"

partial_function (option) halve_capacity :: "size_t \<Rightarrow> size_t \<Rightarrow> size_t option" where
  "halve_capacity cap new_size =
     (if cap div 4 > new_size then halve_capacity (cap div 2) new_size else Some cap)"

partial_function (option) double_capacity :: "size_t \<Rightarrow> size_t \<Rightarrow> size_t option" where
  "double_capacity cap new_size =
     (if cap < new_size then double_capacity (cap * 2) new_size else Some cap)"

text \<open>The second half of \<^verbatim>\<open>resize_dynamic_buffer\<close>: reallocate when the capacity has changed.\<close>

definition move_buffer :: "c_memory \<Rightarrow> DynamicBuffer \<Rightarrow> size_t \<Rightarrow> (c_memory \<times> DynamicBuffer) option" where
  "move_buffer m db cap =
     (if db_capacity db \<noteq> cap then do {
        (m, b) \<leftarrow> (if use_memory_regions db then do {
                     (r, b) \<leftarrow> realloc_region (regions m) (db_buf db) cap;
                     Some (m\<lparr>regions := r\<rparr>, b) }
                   else safe_realloc m (db_buf db) cap);
        Some (m, db\<lparr>db_capacity := cap, db_buf := b\<rparr>) }
      else Some (m, db))"

definition resize_dynamic_buffer ::
    "c_memory \<Rightarrow> DynamicBuffer \<Rightarrow> size_t \<Rightarrow> (c_memory \<times> DynamicBuffer) option" where
  "resize_dynamic_buffer m db new_size = do {
     cap \<leftarrow> halve_capacity (db_capacity db) new_size;
     cap \<leftarrow> double_capacity cap new_size;
     let cap = (if use_memory_regions db then max cap 4096 else max cap 128);
     (m, db) \<leftarrow> move_buffer m db cap;
     Some (m, db\<lparr>db_size := new_size\<rparr>) }"

definition free_dynamic_buffer :: "c_memory \<Rightarrow> DynamicBuffer \<Rightarrow> c_memory option" where
  "free_dynamic_buffer m db =
     (if use_memory_regions db then do {
        r \<leftarrow> deallocate_region (regions m) (db_buf db);
        Some (m\<lparr>regions := r\<rparr>) }
      else do {
        fatal_assert (db_buf db \<in> dom (heap_block m));
        Some (m\<lparr>heap_block := (heap_block m)(db_buf db := None)\<rparr>) })"

section \<open>Rounding to pages\<close>

lemma round_up_to_page_nat:
  assumes "0 < page" "unat sz + unat page \<le> 2 ^ 64 - 1"
  shows "unat (round_up_to_page page sz) =
    unat sz + (unat page - unat sz mod unat page) mod unat page"
proof -
  have pos: "0 < unat page" using assms(1) by (simp add: word_less_nat_alt)
  have "unat sz mod unat page \<le> unat page" using pos by (simp add: less_imp_le)
  then have m: "unat ((page - sz mod page) mod page) = (unat page - unat sz mod unat page) mod unat page"
    by (simp add: unat_mod_distrib unat_sub word_le_nat_alt)
  have "(unat page - unat sz mod unat page) mod unat page < unat page" using pos by simp
  then have "unat sz + unat ((page - sz mod page) mod page) < 2 ^ LENGTH(64)"
    using assms(2) unfolding m by simp
  then have "unat (sz + (page - sz mod page) mod page) =
      unat sz + unat ((page - sz mod page) mod page)"
    by (rule unat_add_lem [THEN iffD1])
  then show ?thesis unfolding round_up_to_page_def m .
qed

lemma round_up_nat:
  fixes p n :: nat
  assumes "0 < p"
  defines "r \<equiv> n + (p - n mod p) mod p"
  shows "p dvd r" "n \<le> r" "r < n + p"
proof -
  show "n \<le> r" "r < n + p" using assms(1) unfolding r_def by simp_all
  show "p dvd r"
  proof (cases "n mod p = 0")
    case True
    then show ?thesis unfolding r_def by (simp add: mod_eq_0_iff_dvd)
  next
    case False
    then have e: "(p - n mod p) mod p = p - n mod p" using assms(1) by simp
    have "n mod p < p" "n = p * (n div p) + n mod p" using assms(1) by simp_all
    then have "r = p * (n div p) + p" unfolding r_def e by linarith
    then show ?thesis by simp
  qed
qed

section \<open>Ownership of blocks\<close>

text \<open>\<open>os_ok\<close>: the kernel maps a new region only at a free address, advised pages keep their
  number, the page is larger than the region header, and the header records the mapped size.\<close>

definition os_ok :: "region_os \<Rightarrow> bool" where
  "os_ok s \<longleftrightarrow> distinct (live s) \<and> (\<forall>L. mmap_pick s L \<notin> set L) \<and>
     (\<forall>bs. length (reclaim s bs) = length bs) \<and> region_header_size < page_size s \<and>
     (\<forall>a \<in> set (live s). unat (region_size_hdr s a) = length (region_bytes s a) + 8)"

definition fits_in_region :: "region_os \<Rightarrow> size_t \<Rightarrow> bool" where
  "fits_in_region s sz \<longleftrightarrow> unat sz + unat region_header_size + unat (page_size s) \<le> 2 ^ 64 - 1"

lemma unat_region_header_size [simp]: "unat region_header_size = 8"
  by (simp add: region_header_size_def)

text \<open>A successful allocation adds one zeroed region that is large enough and not yet mapped.\<close>

lemma allocate_region_SomeD:
  assumes "allocate_region s sz = Some (s', a)"
  defines "tot \<equiv> round_up_to_page (page_size s) (sz + region_header_size)"
  shows "a = mmap_pick s (live s)"
    and "s' = s\<lparr>live := a # live s, region_size_hdr := (region_size_hdr s)(a := tot),
      region_bytes := (region_bytes s)(a := replicate (unat tot - 8) 0)\<rparr>"
  using assms(1) unfolding tot_def
  by (auto simp: allocate_region_def Let_def split: if_splits)

lemma region_total_bounds:
  assumes "os_ok s" "fits_in_region s sz"
  shows "unat sz + 8 \<le> unat (round_up_to_page (page_size s) (sz + region_header_size))"
proof -
  have pg: "0 < page_size s"
    using assms(1) unfolding os_ok_def by (auto intro: le_less_trans [OF word_zero_le])
  have sum: "unat (sz + region_header_size) = unat sz + unat region_header_size"
    using assms(2) by (intro unat_add_lem [THEN iffD1]) (simp add: fits_in_region_def)
  have "unat (sz + region_header_size) + unat (page_size s) \<le> 2 ^ 64 - 1"
    using assms(2) unfolding sum fits_in_region_def .
  from round_up_to_page_nat [OF pg this] show ?thesis unfolding sum by simp
qed

lemma allocate_region_ok:
  assumes "os_ok s" "fits_in_region s sz" "allocate_region s sz = Some (s', a)"
  shows "a \<notin> set (live s)" "live s' = a # live s" "os_ok s'" "page_size s' = page_size s" "mmap_ok s' = mmap_ok s"
    and "unat sz \<le> length (region_bytes s' a)"
    and "region_bytes s' a = replicate (length (region_bytes s' a)) 0"
    and "\<And>x. x \<noteq> a \<Longrightarrow> region_bytes s' x = region_bytes s x"
proof -
  note s' = allocate_region_SomeD [OF assms(3)]
  note tot = region_total_bounds [OF assms(1,2)]
  show fresh: "a \<notin> set (live s)" using assms(1) s'(1) by (auto simp: os_ok_def)
  show "live s' = a # live s" "page_size s' = page_size s" "mmap_ok s' = mmap_ok s"
    by (simp_all add: s'(2))
  show "region_bytes s' a = replicate (length (region_bytes s' a)) 0"
    and "\<And>x. x \<noteq> a \<Longrightarrow> region_bytes s' x = region_bytes s x" by (simp_all add: s'(2))
  show "unat sz \<le> length (region_bytes s' a)" using tot by (simp add: s'(2))
  show "os_ok s'" using assms(1) fresh tot by (auto simp: os_ok_def s'(2))
qed

lemma mark_unused_region_ok:
  assumes "os_ok s"
  shows "live (mark_unused_region s a) = live s" "os_ok (mark_unused_region s a)"
    "page_size (mark_unused_region s a) = page_size s"
    "mmap_ok (mark_unused_region s a) = mmap_ok s"
    "length (region_bytes (mark_unused_region s a) x) = length (region_bytes s x)"
    "x \<noteq> a \<Longrightarrow> region_bytes (mark_unused_region s a) x = region_bytes s x"
  using assms by (auto simp: mark_unused_region_def os_ok_def Let_def)

lemma deallocate_region_ok:
  assumes "os_ok s" "a \<in> set (live s)"
  shows "deallocate_region s a = Some (s\<lparr>live := remove1 a (live s)\<rparr>)"
    and "os_ok (s\<lparr>live := remove1 a (live s)\<rparr>)"
  using assms by (auto simp: deallocate_region_def os_ok_def dest: notin_set_remove1)

text \<open>\<open>owned\<close> is the set of blocks handed out and not returned; \<open>ok\<close> is what sizes the kernel serves.\<close>

definition pool_inv :: "(size_t \<Rightarrow> bool) \<Rightarrow> BlockAllocator \<Rightarrow> addr set \<Rightarrow> bool" where
  "pool_inv ok b owned \<longleftrightarrow> mmap_ok (os b) = ok \<and> os_ok (os b) \<and> finite owned \<and> distinct (free_blocks b) \<and>
     set (free_blocks b) \<inter> owned = {} \<and> set (free_blocks b) \<union> owned \<subseteq> set (live (os b)) \<and>
     num_allocated_blocks b = int (card owned + num_free_blocks b) \<and>
     num_free_blocks b \<le> MAX_FREES \<and> fits_in_region (os b) (block_size b) \<and>
     (\<forall>a \<in> owned \<union> set (free_blocks b). unat (block_size b) \<le> length (region_bytes (os b) a))"

definition block_bytes :: "BlockAllocator \<Rightarrow> addr \<Rightarrow> byte list" where
  "block_bytes b a = region_bytes (os b) a"

lemma pool_invD:
  assumes "pool_inv ok b owned"
  shows "os_ok (os b)" "finite owned" "distinct (free_blocks b)"
    "set (free_blocks b) \<inter> owned = {}" "set (free_blocks b) \<union> owned \<subseteq> set (live (os b))"
    "num_allocated_blocks b = int (card owned + num_free_blocks b)"
    "num_free_blocks b \<le> MAX_FREES" "fits_in_region (os b) (block_size b)"
    "\<And>a. a \<in> owned \<union> set (free_blocks b) \<Longrightarrow> unat (block_size b) \<le> length (region_bytes (os b) a)"
    "mmap_ok (os b) = ok"
  using assms by (auto simp: pool_inv_def)

lemma pool_inv_create:
  "os_ok s \<Longrightarrow> fits_in_region s sz \<Longrightarrow> pool_inv (mmap_ok s) (create_block_allocator s sz) {}"
  by (simp add: pool_inv_def create_block_allocator_def num_free_blocks_def)

lemma allocate_block_fresh:
  assumes "pool_inv ok b owned" "free_blocks b = []" "allocate_block b = Some (b', a)"
  shows "a \<notin> owned" "pool_inv ok b' (insert a owned)" "block_size b' = block_size b"
    "\<And>x. x \<in> owned \<Longrightarrow> block_bytes b' x = block_bytes b x"
proof -
  note inv = pool_invD [OF assms(1)]
  obtain s where s: "allocate_region (os b) (block_size b) = Some (s, a)"
    and b': "b' = b\<lparr>num_allocated_blocks := num_allocated_blocks b + 1, os := s\<rparr>"
    using assms(2,3)
    by (auto simp: allocate_block_def num_free_blocks_def Let_def split: bind_splits)
  note r = allocate_region_ok [OF inv(1,8) s]
  show fresh: "a \<notin> owned" using inv(5) r(1) by blast
  show "block_size b' = block_size b" by (simp add: b')
  have old: "region_bytes s x = region_bytes (os b) x" if "x \<in> owned" for x
    using that fresh by (intro r(8)) auto
  then show "\<And>x. x \<in> owned \<Longrightarrow> block_bytes b' x = block_bytes b x"
    by (simp add: b' block_bytes_def)
  have "card (insert a owned) = Suc (card owned)" using fresh inv(2) by simp
  then show "pool_inv ok b' (insert a owned)"
    using inv r(2-6) old assms(2)
    by (auto simp: pool_inv_def b' num_free_blocks_def fits_in_region_def)
qed

lemma allocate_block_reuse:
  assumes "pool_inv ok b owned" "free_blocks b = xs @ [x]"
  defines "b' \<equiv> b\<lparr>free_blocks := xs\<rparr>"
  shows "allocate_block b = Some (b', x)" "x \<notin> owned" "pool_inv ok b' (insert x owned)"
proof -
  note inv = pool_invD [OF assms(1)]
  show "allocate_block b = Some (b', x)"
    unfolding b'_def using assms(2)
    by (simp add: allocate_block_def num_free_blocks_def Let_def mark_used_region_def)
  show fresh: "x \<notin> owned" using inv(4) assms(2) by auto
  then have "card (insert x owned) = Suc (card owned)" using inv(2) by simp
  then show "pool_inv ok b' (insert x owned)"
    using inv assms(2) by (auto simp: pool_inv_def b'_def num_free_blocks_def)
qed

lemma allocate_block_ok:
  assumes "pool_inv ok b owned" "allocate_block b = Some (b', a)"
  shows "a \<notin> owned" "pool_inv ok b' (insert a owned)" "block_size b' = block_size b"
    and "\<And>x. x \<in> owned \<Longrightarrow> block_bytes b' x = block_bytes b x"
proof -
  have "a \<notin> owned \<and> pool_inv ok b' (insert a owned) \<and> block_size b' = block_size b \<and>
    (\<forall>x \<in> owned. block_bytes b' x = block_bytes b x)"
  proof (cases "free_blocks b" rule: rev_cases)
    case Nil
    from allocate_block_fresh [OF assms(1) Nil assms(2)] show ?thesis by blast
  next
    case (snoc xs x)
    with allocate_block_reuse [OF assms(1) snoc] assms(2) show ?thesis
      by (auto simp: block_bytes_def)
  qed
  then show "a \<notin> owned" "pool_inv ok b' (insert a owned)" "block_size b' = block_size b"
    and "\<And>x. x \<in> owned \<Longrightarrow> block_bytes b' x = block_bytes b x" by auto
qed

lemma free_block_ok:
  assumes "pool_inv ok b owned" "a \<in> owned"
  shows "\<exists>b'. free_block b a = Some b' \<and> pool_inv ok b' (owned - {a}) \<and> block_size b' = block_size b \<and>
    (\<forall>x \<in> owned - {a}. block_bytes b' x = block_bytes b x)"
proof -
  note inv = pool_invD [OF assms(1)]
  note unused = mark_unused_region_ok [OF inv(1), where a = a]
  have live: "a \<in> set (live (os b))" using assms(2) inv(5) by blast
  have card: "0 < card owned" "card (owned - {a}) = card owned - 1"
    using assms(2) inv(2) by (auto simp: card_gt_0_iff)
  show ?thesis
  proof (cases "num_free_blocks b < MAX_FREES")
    case True
    let ?b = "b\<lparr>os := mark_unused_region (os b) a, free_blocks := free_blocks b @ [a]\<rparr>"
    have "pool_inv ok ?b (owned - {a})"
      using inv unused assms(2) card True
      by (auto simp: pool_inv_def num_free_blocks_def fits_in_region_def)
    then show ?thesis
      using True unused(6) by (auto simp: free_block_def block_bytes_def)
  next
    case False
    note d = deallocate_region_ok [OF inv(1) live]
    let ?b = "b\<lparr>os := (os b)\<lparr>live := remove1 a (live (os b))\<rparr>,
      num_allocated_blocks := num_allocated_blocks b - 1\<rparr>"
    have "distinct (live (os b))" using inv(1) by (simp add: os_ok_def)
    then have "set (remove1 a (live (os b))) = set (live (os b)) - {a}"
      by (rule set_remove1_eq)
    then have "pool_inv ok ?b (owned - {a})"
      using inv d(2) assms(2) card
      by (auto simp: pool_inv_def num_free_blocks_def fits_in_region_def)
    then show ?thesis
      using False d(1) by (auto simp: free_block_def block_bytes_def)
  qed
qed

lemma deallocate_all_ok:
  assumes "distinct as" "set as \<subseteq> set (live s)" "distinct (live s)"
  shows "\<exists>s'. deallocate_all s as = Some s' \<and> set (live s') = set (live s) - set as \<and>
    region_bytes s' = region_bytes s"
  using assms
proof (induction "as" arbitrary: s)
  case (Cons a "as")
  let ?s = "s\<lparr>live := remove1 a (live s)\<rparr>"
  have sub: "set as \<subseteq> set (live ?s)" "distinct (live ?s)" "set (live ?s) = set (live s) - {a}"
    using Cons.prems by auto
  from Cons.IH [OF _ sub(1,2)] Cons.prems(1) obtain s' where
    "deallocate_all ?s as = Some s'" "set (live s') = set (live ?s) - set as"
    "region_bytes s' = region_bytes ?s" by auto
  moreover have "a \<in> set (live s)" using Cons.prems(2) by simp
  ultimately show ?case using sub(3) by (auto simp: deallocate_region_def)
qed auto

section \<open>The contract of a block pool\<close>

text \<open>A client allocates blocks, copies bytes into the blocks it holds and returns them. \<open>held\<close>
  lists the blocks it holds together with the bytes it last copied to their start.\<close>

datatype pool_op = GetBlock | CopyBlock nat "byte list" | PutBlock nat

type_synonym held = "(addr \<times> byte list) list"

definition drop_nth :: "nat \<Rightarrow> 'a list \<Rightarrow> 'a list" where
  "drop_nth i xs = take i xs @ drop (Suc i) xs"

fun pool_history :: "('p \<Rightarrow> ('p \<times> addr) option) \<Rightarrow> ('p \<Rightarrow> addr \<Rightarrow> 'p option) \<Rightarrow>
    ('p \<Rightarrow> addr \<Rightarrow> byte list \<Rightarrow> 'p) \<Rightarrow> nat \<Rightarrow> pool_op list \<Rightarrow> 'p \<times> held \<Rightarrow> ('p \<times> held) option"
where
  "pool_history get put copy n [] ph = Some ph"
| "pool_history get put copy n (GetBlock # ops) (p, h) =
     (case get p of None \<Rightarrow> None
      | Some (p, a) \<Rightarrow> pool_history get put copy n ops (p, (a, []) # h))"
| "pool_history get put copy n (CopyBlock i bs # ops) (p, h) =
     (if i < length h \<and> length bs \<le> n
      then pool_history get put copy n ops (copy p (fst (h ! i)) bs, h[i := (fst (h ! i), bs)])
      else pool_history get put copy n ops (p, h))"
| "pool_history get put copy n (PutBlock i # ops) (p, h) =
     (if i < length h
      then (case put p (fst (h ! i)) of None \<Rightarrow> None
            | Some p \<Rightarrow> pool_history get put copy n ops (p, drop_nth i h))
      else pool_history get put copy n ops (p, h))"

lemma drop_nth_split:
  assumes "i < length xs"
  shows "xs = take i xs @ xs ! i # drop (Suc i) xs"
  using assms by (rule id_take_nth_drop)

lemma set_drop_nth:
  assumes "i < length xs" "distinct (map f xs)"
  shows "f ` set (drop_nth i xs) = f ` set xs - {f (xs ! i)}" "distinct (map f (drop_nth i xs))"
proof -
  note e = drop_nth_split [OF assms(1)]
  have d: "distinct (map f (take i xs) @ f (xs ! i) # map f (drop (Suc i) xs))"
    using assms(2) e by (metis list.simps(9) map_append)
  then show "distinct (map f (drop_nth i xs))" by (auto simp: drop_nth_def)
  have "f ` set xs = insert (f (xs ! i)) (f ` set (drop_nth i xs))"
    unfolding drop_nth_def by (subst e) auto
  moreover have "f (xs ! i) \<notin> f ` set (drop_nth i xs)" using d by (auto simp: drop_nth_def)
  ultimately show "f ` set (drop_nth i xs) = f ` set xs - {f (xs ! i)}" by auto
qed

locale block_pool =
  fixes get :: "'p \<Rightarrow> ('p \<times> addr) option"
    and put :: "'p \<Rightarrow> addr \<Rightarrow> 'p option"
    and copy :: "'p \<Rightarrow> addr \<Rightarrow> byte list \<Rightarrow> 'p"
    and inv :: "'p \<Rightarrow> addr set \<Rightarrow> bool"
    and bytes :: "'p \<Rightarrow> addr \<Rightarrow> byte list"
    and room :: "'p \<Rightarrow> nat"
  assumes get_ok: "inv p owned \<Longrightarrow> get p = Some (p', a) \<Longrightarrow>
      a \<notin> owned \<and> inv p' (insert a owned) \<and> room p' = room p \<and>
      (\<forall>x \<in> owned. bytes p' x = bytes p x)"
    and put_ok: "inv p owned \<Longrightarrow> a \<in> owned \<Longrightarrow>
      \<exists>p'. put p a = Some p' \<and> inv p' (owned - {a}) \<and> room p' = room p \<and>
      (\<forall>x \<in> owned - {a}. bytes p' x = bytes p x)"
    and copy_ok: "inv p owned \<Longrightarrow> a \<in> owned \<Longrightarrow> length bs \<le> room p \<Longrightarrow>
      inv (copy p a bs) owned \<and> room (copy p a bs) = room p \<and>
      take (length bs) (bytes (copy p a bs) a) = bs \<and>
      (\<forall>x \<in> owned - {a}. bytes (copy p a bs) x = bytes p x)"
begin

text \<open>What a client relies on: the blocks it holds are distinct, and each still has the bytes
  it put there.\<close>

definition holds :: "'p \<Rightarrow> held \<Rightarrow> bool" where
  "holds p h \<longleftrightarrow> inv p (fst ` set h) \<and> distinct (map fst h) \<and>
     (\<forall>x \<in> set h. take (length (snd x)) (bytes p (fst x)) = snd x)"

lemma holds_get:
  assumes "holds p h" "get p = Some (p', a)"
  shows "holds p' ((a, []) # h)" "room p' = room p"
proof -
  have i: "inv p (fst ` set h)" using assms(1) by (simp add: holds_def)
  note g = get_ok [OF i assms(2)]
  show "room p' = room p" using g by blast
  have "bytes p' (fst x) = bytes p (fst x)" if "x \<in> set h" for x using g that by blast
  then show "holds p' ((a, []) # h)" using g assms(1) by (simp add: holds_def)
qed

lemma holds_put:
  assumes "holds p h" "i < length h"
  shows "\<exists>p'. put p (fst (h ! i)) = Some p' \<and> holds p' (drop_nth i h) \<and> room p' = room p"
proof -
  have inv: "inv p (fst ` set h)" and d: "distinct (map fst h)"
    using assms(1) by (simp_all add: holds_def)
  have "fst (h ! i) \<in> fst ` set h" using assms(2) by simp
  from put_ok [OF inv this] obtain p' where p': "put p (fst (h ! i)) = Some p'"
    "inv p' (fst ` set h - {fst (h ! i)})" "room p' = room p"
    "\<And>x. x \<in> fst ` set h - {fst (h ! i)} \<Longrightarrow> bytes p' x = bytes p x" by blast
  note e = set_drop_nth [OF assms(2) d]
  have sub: "set (drop_nth i h) \<subseteq> set h"
    unfolding drop_nth_def by (auto dest: in_set_takeD in_set_dropD)
  have "take (length (snd x)) (bytes p' (fst x)) = snd x" if m: "x \<in> set (drop_nth i h)" for x
  proof -
    have "fst x \<in> fst ` set h - {fst (h ! i)}" unfolding e(1) [symmetric] using m by (rule imageI)
    then have "bytes p' (fst x) = bytes p (fst x)" by (rule p'(4))
    with m sub assms(1) show ?thesis by (auto simp: holds_def)
  qed
  with p' e have "holds p' (drop_nth i h)" by (simp add: holds_def)
  with p' show ?thesis by blast
qed

lemma holds_copy:
  assumes "holds p h" "i < length h" "length bs \<le> room p"
  shows "holds (copy p (fst (h ! i)) bs) (h[i := (fst (h ! i), bs)])"
    "room (copy p (fst (h ! i)) bs) = room p"
proof -
  let ?a = "fst (h ! i)" and ?p = "copy p (fst (h ! i)) bs" and ?h = "h[i := (fst (h ! i), bs)]"
  have inv: "inv p (fst ` set h)" and d: "distinct (map fst h)"
    using assms(1) by (simp_all add: holds_def)
  have m: "map fst ?h = map fst h"
    using assms(2) by (simp add: map_update) (metis list_update_id nth_map)
  then have same: "fst ` set ?h = fst ` set h" by (metis list.set_map)
  have "?a \<in> fst ` set h" using assms(2) by simp
  note c = copy_ok [OF inv this assms(3)]
  show "room ?p = room p" using c by blast
  have "take (length (snd (?h ! j))) (bytes ?p (fst (?h ! j))) = snd (?h ! j)" if j: "j < length h" for j
  proof (cases "j = i")
    case True
    with j c show ?thesis by simp
  next
    case False
    with d j assms(2) have "fst (h ! j) \<noteq> ?a" by (metis distinct_conv_nth length_map nth_map)
    then have "fst (h ! j) \<in> fst ` set h - {?a}" using j by simp
    with c have "bytes ?p (fst (h ! j)) = bytes p (fst (h ! j))" by blast
    moreover have "h ! j \<in> set h" using j by simp
    ultimately show ?thesis using assms(1) False by (simp add: holds_def)
  qed
  then have "\<forall>x \<in> set ?h. take (length (snd x)) (bytes ?p (fst x)) = snd x"
    by (metis in_set_conv_nth length_list_update)
  with c inv d m same show "holds ?p ?h" by (simp add: holds_def)
qed

text \<open>Every history keeps this, and it stops only when no block can be obtained.\<close>

lemma history_outcome:
  assumes "holds p h"
  shows "case pool_history get put copy (room p) ops (p, h) of
      Some (p', h') \<Rightarrow> holds p' h' \<and> room p' = room p
    | None \<Rightarrow> \<exists>q hq. holds q hq \<and> room q = room p \<and> get q = None"
  using assms
proof (induction ops arbitrary: p h)
  case (Cons oper ops)
  show ?case
  proof (cases oper)
    case GetBlock
    show ?thesis
    proof (cases "get p")
      case None
      with GetBlock Cons.prems show ?thesis by auto
    next
      case (Some qa)
      then obtain q a where q: "get p = Some (q, a)" by (cases qa) auto
      note h = holds_get [OF Cons.prems q]
      from Cons.IH [OF h(1), unfolded h(2)] GetBlock q show ?thesis by simp
    qed
  next
    case (CopyBlock i bs)
    show ?thesis
    proof (cases "i < length h \<and> length bs \<le> room p")
      case True
      note h = holds_copy [OF Cons.prems True [THEN conjunct1] True [THEN conjunct2]]
      from Cons.IH [OF h(1), unfolded h(2)] CopyBlock True show ?thesis by simp
    qed (use Cons.IH [OF Cons.prems] CopyBlock in auto)
  next
    case (PutBlock i)
    show ?thesis
    proof (cases "i < length h")
      case True
      from holds_put [OF Cons.prems True] obtain q where q:
        "put p (fst (h ! i)) = Some q" "holds q (drop_nth i h)" "room q = room p" by blast
      from Cons.IH [OF q(2), unfolded q(3)] q(1) PutBlock True show ?thesis by simp
    qed (use Cons.IH [OF Cons.prems] PutBlock in auto)
  qed
qed simp

end

text \<open>The block allocator is such a pool; copying into a block is a write to its region.\<close>

definition write_block :: "BlockAllocator \<Rightarrow> addr \<Rightarrow> byte list \<Rightarrow> BlockAllocator" where
  "write_block b a bs = b\<lparr>os := (os b)\<lparr>region_bytes :=
     (region_bytes (os b))(a := mem_write 0 bs (region_bytes (os b) a))\<rparr>\<rparr>"

definition block_room :: "BlockAllocator \<Rightarrow> nat" where
  "block_room b = unat (block_size b)"

lemma write_block_ok:
  assumes "pool_inv ok b owned" "a \<in> owned" "length bs \<le> block_room b"
  shows "pool_inv ok (write_block b a bs) owned"
    "take (length bs) (block_bytes (write_block b a bs) a) = bs"
proof -
  have len: "length bs \<le> length (region_bytes (os b) a)"
    using pool_invD(9) [OF assms(1), of a] assms(2,3) by (simp add: block_room_def)
  then show "pool_inv ok (write_block b a bs) owned"
    using assms(1)
    by (auto simp: pool_inv_def write_block_def os_ok_def num_free_blocks_def fits_in_region_def)
  show "take (length bs) (block_bytes (write_block b a bs) a) = bs"
    by (simp add: write_block_def block_bytes_def mem_write_def)
qed

interpretation pool: block_pool allocate_block free_block write_block "pool_inv ok"
    block_bytes block_room for ok
proof unfold_locales
  fix b owned b' a
  assume "pool_inv ok b owned" "allocate_block b = Some (b', a)"
  from allocate_block_ok [OF this] show "a \<notin> owned \<and> pool_inv ok b' (insert a owned) \<and>
    block_room b' = block_room b \<and> (\<forall>x \<in> owned. block_bytes b' x = block_bytes b x)"
    by (simp add: block_room_def)
next
  fix b owned a assume "pool_inv ok b owned" "a \<in> owned"
  from free_block_ok [OF this] show "\<exists>b'. free_block b a = Some b' \<and> pool_inv ok b' (owned - {a}) \<and>
    block_room b' = block_room b \<and> (\<forall>x \<in> owned - {a}. block_bytes b' x = block_bytes b x)"
    by (auto simp: block_room_def)
next
  fix b owned a and bs :: "byte list"
  assume "pool_inv ok b owned" "a \<in> owned" "length bs \<le> block_room b"
  from write_block_ok [OF this] show "pool_inv ok (write_block b a bs) owned \<and>
    block_room (write_block b a bs) = block_room b \<and>
    take (length bs) (block_bytes (write_block b a bs) a) = bs \<and>
    (\<forall>x \<in> owned - {a}. block_bytes (write_block b a bs) x = block_bytes b x)"
    by (auto simp: write_block_def block_room_def block_bytes_def)
qed

text \<open>Destroying the allocator ends the process while a block is held, and otherwise unmaps
  every region the allocator ever kept.\<close>

lemma destroy_block_allocator_ok:
  assumes "pool_inv ok b owned"
  shows "if owned = {} then \<exists>s. destroy_block_allocator b = Some s \<and>
           set (live s) = set (live (os b)) - set (free_blocks b)
         else destroy_block_allocator b = None"
proof -
  note inv = pool_invD [OF assms]
  have guard: "int (num_free_blocks b) = num_allocated_blocks b \<longleftrightarrow> owned = {}"
    using inv(2,6) by simp
  have "distinct (rev (free_blocks b))" "set (rev (free_blocks b)) \<subseteq> set (live (os b))"
    "distinct (live (os b))" using inv(1,3,5) by (auto simp: os_ok_def)
  from deallocate_all_ok [OF this] guard show ?thesis
    by (auto simp: destroy_block_allocator_def)
qed

lemma allocate_block_None:
  assumes "allocate_block b = None"
  shows "\<exists>n. \<not> mmap_ok (os b) n"
  using assms by (auto simp: allocate_block_def allocate_region_def Let_def split: if_splits)

text \<open>
  C18: Any sequence of allocations, copies into held blocks and frees on a fresh block allocator
  either runs to its end or stops at an \<^verbatim>\<open>mmap\<close> that the kernel refuses. At the end
  the held blocks are pairwise distinct, each has room for \<^verbatim>\<open>block_size\<close> bytes and still holds the
  bytes last copied into it, and \<^verbatim>\<open>destroy_block_allocator\<close> returns exactly when nothing is held.
\<close>

theorem block_allocator_history:
  assumes "os_ok s" "fits_in_region s sz"
  shows "case pool_history allocate_block free_block write_block (unat sz) ops
             (create_block_allocator s sz, []) of
           None \<Rightarrow> \<exists>n. \<not> mmap_ok s n
         | Some (b, h) \<Rightarrow> distinct (map fst h) \<and>
             (\<forall>x \<in> set h. unat sz \<le> length (block_bytes b (fst x)) \<and>
                take (length (snd x)) (block_bytes b (fst x)) = snd x) \<and>
             (destroy_block_allocator b \<noteq> None \<longleftrightarrow> h = [])"
proof -
  let ?b = "create_block_allocator s sz"
  have room: "block_room ?b = unat sz" by (simp add: block_room_def create_block_allocator_def)
  have "pool.holds (mmap_ok s) ?b []"
    using pool_inv_create [OF assms] by (simp add: pool.holds_def)
  note o = pool.history_outcome [OF this, of ops, unfolded room]
  show ?thesis
  proof (cases "pool_history allocate_block free_block write_block (unat sz) ops (?b, [])")
    case None
    with o obtain q and hq :: held where "pool_inv (mmap_ok s) q (fst ` set hq)" "allocate_block q = None"
      by (auto simp: pool.holds_def)
    then have "\<exists>n. \<not> mmap_ok s n" using allocate_block_None pool_invD(10) by metis
    with None show ?thesis by simp
  next
    case (Some bh)
    obtain b h where bh: "bh = (b, h)" by (cases bh)
    with o Some have inv: "pool_inv (mmap_ok s) b (fst ` set h)" and d: "distinct (map fst h)"
      and c: "\<forall>x \<in> set h. take (length (snd x)) (block_bytes b (fst x)) = snd x"
      and r: "unat (block_size b) = unat sz"
      by (auto simp: pool.holds_def block_room_def)
    have "destroy_block_allocator b \<noteq> None \<longleftrightarrow> h = []"
      using destroy_block_allocator_ok [OF inv] by (auto split: if_splits)
    moreover have "unat sz \<le> length (block_bytes b (fst x))" if "x \<in> set h" for x
      using pool_invD(9) [OF inv, of "fst x"] that r by (simp add: block_bytes_def)
    ultimately show ?thesis using Some bh d c by simp
  qed
qed

text \<open>A concrete system for the examples: pages of 4096 bytes, every request served at the next
  unused address, advised pages read as zero.\<close>

definition plain_os :: region_os where
  "plain_os = \<lparr>live = [], region_bytes = (\<lambda>_. []), region_size_hdr = (\<lambda>_. 0), page_size = 4096,
     mmap_pick = (\<lambda>L. Suc (foldr max L 0)), mmap_ok = (\<lambda>_. True),
     reclaim = (\<lambda>bs. replicate (length bs) 0)\<rparr>"

lemma foldr_max_ge: "a \<in> set L \<Longrightarrow> a \<le> foldr max L (0 :: nat)"
  by (induction L) auto

lemma plain_os_ok: "os_ok plain_os" "fits_in_region plain_os 64"
proof -
  have "Suc (foldr max L 0) \<notin> set L" for L using foldr_max_ge [of "Suc (foldr max L 0)" L] by auto
  then show "os_ok plain_os" by (simp add: os_ok_def plain_os_def region_header_size_def)
  show "fits_in_region plain_os 64" by (simp add: fits_in_region_def plain_os_def)
qed

theorem block_allocator_history_witness:
  "case pool_history allocate_block free_block write_block (unat (64 :: size_t))
      [GetBlock, GetBlock, CopyBlock 0 [7, 8], PutBlock 1, GetBlock, CopyBlock 0 [9]] (create_block_allocator plain_os 64, []) of
     None \<Rightarrow> \<exists>n. \<not> mmap_ok plain_os n
   | Some (b, h) \<Rightarrow> distinct (map fst h) \<and>
       (\<forall>x \<in> set h. unat (64 :: size_t) \<le> length (block_bytes b (fst x)) \<and>
          take (length (snd x)) (block_bytes b (fst x)) = snd x) \<and>
       (destroy_block_allocator b \<noteq> None \<longleftrightarrow> h = [])"
  by (rule block_allocator_history [OF plain_os_ok])

section \<open>The dynamic buffer keeps its contents and grows geometrically\<close>

lemma unat_pow2 [simp]:
  assumes "k < 64"
  shows "unat ((2 :: size_t) ^ k) = 2 ^ k"
proof -
  have "(2 :: nat) ^ k < 2 ^ 64" using assms by (intro power_strict_increasing) auto
  moreover have "(2 :: size_t) ^ k = word_of_nat (2 ^ k)" by simp
  ultimately show ?thesis by (simp only: unat_of_nat) simp
qed

lemma pow2_div2: "0 < k \<Longrightarrow> k < 64 \<Longrightarrow> (2 :: size_t) ^ k div 2 = 2 ^ (k - 1)"
  by (rule word_unat_eq_iff [THEN iffD2]) (auto simp: unat_div power_diff)

lemma halve_capacity_pow2:
  "k < 64 \<Longrightarrow> \<exists>j \<le> k. halve_capacity (2 ^ k) n = Some (2 ^ j) \<and> 2 ^ j div 4 \<le> unat n \<and>
     (j < k \<longrightarrow> unat n < 2 ^ j)"
proof (induction k)
  case 0
  then show ?case by (subst halve_capacity.simps) (simp add: word_less_nat_alt unat_div)
next
  case (Suc k)
  show ?case
  proof (cases "unat n < 2 ^ Suc k div 4")
    case True
    then have "halve_capacity (2 ^ Suc k) n = halve_capacity (2 ^ k) n"
      using Suc.prems pow2_div2 [of "Suc k"]
      by (subst halve_capacity.simps) (simp add: word_less_nat_alt unat_div del: power_Suc)
    moreover have "unat n < 2 ^ k" using True by simp
    moreover obtain j where "j \<le> k" "halve_capacity (2 ^ k) n = Some (2 ^ j)" "2 ^ j div 4 \<le> unat n"
      "j < k \<longrightarrow> unat n < 2 ^ j" using Suc by auto
    ultimately show ?thesis by (intro exI [of _ j]) (auto simp: le_less)
  next
    case False
    then have "halve_capacity (2 ^ Suc k) n = Some (2 ^ Suc k)"
      using Suc.prems by (subst halve_capacity.simps) (simp add: word_less_nat_alt unat_div del: power_Suc)
    with False show ?thesis by (auto simp: not_less)
  qed
qed

lemma double_capacity_pow2:
  assumes "j < 64" "unat n \<le> 2 ^ 63"
  shows "\<exists>i. j \<le> i \<and> i < 64 \<and> double_capacity (2 ^ j) n = Some (2 ^ i) \<and> unat n \<le> 2 ^ i \<and>
    (j < i \<longrightarrow> 2 ^ (i - 1) < unat n)"
  using assms(1)
proof (induction "63 - j" arbitrary: j)
  case 0
  then have "j = 63" by simp
  moreover have "double_capacity (2 ^ 63) n = Some (2 ^ 63)"
    using assms(2) by (subst double_capacity.simps) (simp add: word_less_nat_alt)
  ultimately show ?case using assms(2) by auto
next
  case (Suc d)
  show ?case
  proof (cases "2 ^ j < unat n")
    case True
    have "Suc j < 64" "d = 63 - Suc j" using Suc.hyps(2) Suc.prems by auto
    from Suc.hyps(1) [OF this(2,1)] obtain i where i: "Suc j \<le> i" "i < 64"
      "double_capacity (2 ^ Suc j) n = Some (2 ^ i)" "unat n \<le> 2 ^ i"
      "Suc j < i \<longrightarrow> 2 ^ (i - 1) < unat n" by blast
    have "double_capacity (2 ^ j) n = double_capacity (2 ^ Suc j) n"
      using True Suc.prems by (subst double_capacity.simps) (simp add: word_less_nat_alt mult.commute)
    moreover have "2 ^ (i - 1) < unat n" using i(1,5) True by (cases "Suc j < i") auto
    ultimately show ?thesis using i by (intro exI [of _ i]) auto
  next
    case False
    then show ?thesis using Suc.prems
      by (subst double_capacity.simps) (auto simp: word_less_nat_alt not_less)
  qed
qed

lemma double_capacity_SomeD: "double_capacity a b = Some y \<Longrightarrow> a = 0 \<longrightarrow> b = 0"
  by (erule double_capacity.raw_induct [rotated]) (auto split: if_splits simp: word_less_nat_alt unat_eq_0)

lemma double_capacity_zero: "0 < n \<Longrightarrow> double_capacity 0 n = None"
  using double_capacity_SomeD [of 0 n] by (cases "double_capacity 0 n") auto

text \<open>Above \<open>2 ^ 63\<close> the doubling wraps to zero and never reaches the requested size.\<close>

lemma double_capacity_diverges:
  assumes "j < 64" "2 ^ 63 < unat n"
  shows "double_capacity (2 ^ j) n = None"
  using assms(1)
proof (induction "63 - j" arbitrary: j)
  case 0
  then have "j = 63" by simp
  have wrap: "(2 :: size_t) ^ 63 * 2 = 0" by (simp add: word_eq_iff_unsigned)
  have "0 < n" "2 ^ 63 < n" using assms(2) by (simp_all add: word_less_nat_alt)
  then show ?case using double_capacity_zero [of n] wrap \<open>j = 63\<close>
    by (subst double_capacity.simps) (simp only: if_True)
next
  case (Suc d)
  have "Suc j < 64" "d = 63 - Suc j" using Suc.hyps(2) Suc.prems by auto
  from Suc.hyps(1) [OF this(2,1)] have "double_capacity (2 ^ Suc j) n = None" .
  moreover have "(2 :: nat) ^ j \<le> 2 ^ 63" using Suc.prems by (intro power_increasing) auto
  then have "2 ^ j < unat n" using assms(2) by linarith
  ultimately show ?case using Suc.prems
    by (subst double_capacity.simps) (simp add: word_less_nat_alt mult.commute)
qed

text \<open>\<open>mem_ok\<close>: the kernel behaves, pages are of sane size, and memory is never exhausted.\<close>

definition mem_ok :: "c_memory \<Rightarrow> bool" where
  "mem_ok m \<longleftrightarrow> os_ok (regions m) \<and> unat (page_size (regions m)) \<le> 2 ^ 62 \<and>
     (\<forall>n. mmap_ok (regions m) n) \<and> (\<forall>n. heap_ok m n)"

definition min_capacity :: "DynamicBuffer \<Rightarrow> nat" where
  "min_capacity db = (if use_memory_regions db then 4096 else 128)"

definition buf_live :: "c_memory \<Rightarrow> DynamicBuffer \<Rightarrow> bool" where
  "buf_live m db = (if use_memory_regions db then db_buf db \<in> set (live (regions m))
     else db_buf db \<in> dom (heap_block m))"

definition buf_bytes :: "c_memory \<Rightarrow> DynamicBuffer \<Rightarrow> byte list" where
  "buf_bytes m db = (if use_memory_regions db then region_bytes (regions m) (db_buf db)
     else the (heap_block m (db_buf db)))"

definition db_ok :: "c_memory \<Rightarrow> DynamicBuffer \<Rightarrow> bool" where
  "db_ok m db \<longleftrightarrow> mem_ok m \<and> buf_live m db \<and> unat (db_capacity db) \<le> length (buf_bytes m db) \<and>
     (\<exists>k < 64. db_capacity db = 2 ^ k) \<and> min_capacity db \<le> unat (db_capacity db) \<and>
     db_size db \<le> db_capacity db"

lemma realloc_region_ok:
  assumes "os_ok s" "fits_in_region s sz" "\<forall>n. mmap_ok s n" "a \<in> set (live s)"
  shows "\<exists>s' b. realloc_region s a sz = Some (s', b) \<and> os_ok s' \<and> b \<in> set (live s') \<and>
    unat sz \<le> length (region_bytes s' b) \<and> page_size s' = page_size s \<and> mmap_ok s' = mmap_ok s \<and>
    take (min (length (region_bytes s a)) (unat sz)) (region_bytes s' b) =
      take (unat sz) (region_bytes s a)"
proof -
  obtain t b where t: "allocate_region s sz = Some (t, b)"
    using assms(3) by (auto simp: allocate_region_def Let_def)
  note r = allocate_region_ok [OF assms(1,2) t]
  have ab: "a \<noteq> b" using r(1) assms(4) by auto
  have hdr: "unat (region_size_hdr s a - region_header_size) = length (region_bytes s a)"
    using assms(1,4) by (simp add: os_ok_def unat_sub word_le_nat_alt region_header_size_def)
  define n where "n = unat (min (region_size_hdr s a - region_header_size) sz)"
  have n: "n = min (length (region_bytes s a)) (unat sz)"
    unfolding n_def hdr [symmetric] by (simp add: min_def word_le_nat_alt)
  define u where "u = t\<lparr>region_bytes := (region_bytes t)(b :=
      mem_write 0 (mem_read 0 n (region_bytes t a)) (region_bytes t b))\<rparr>"
  have len: "length (region_bytes u x) = length (region_bytes t x)" for x
    using r(6) n r(8) [OF ab] by (simp add: u_def)
  then have u: "os_ok u" "a \<in> set (live u)"
    using r(3) r(2) assms(4) by (simp_all add: os_ok_def u_def)
  note d = deallocate_region_ok [OF u]
  have "realloc_region s a sz = Some (u\<lparr>live := remove1 a (live u)\<rparr>, b)"
    using t d(1) by (simp add: realloc_region_def u_def n_def)
  moreover have "b \<in> set (remove1 a (live u))" using r(2) ab by (simp add: u_def)
  moreover have "take n (region_bytes u b) = take (unat sz) (region_bytes s a)"
    using n r(8) [OF ab] by (simp add: u_def mem_write_def mem_read_def min_def)
  ultimately show ?thesis
    using d(2) r(4-6) len [of b] n by (auto simp: u_def)
qed

lemma safe_realloc_ok:
  assumes "\<forall>n. heap_ok m n" "heap_block m a = Some old"
  shows "\<exists>m' b bs. safe_realloc m a sz = Some (m', b) \<and> heap_block m' b = Some bs \<and>
    regions m' = regions m \<and> heap_ok m' = heap_ok m \<and> length bs = unat sz \<and>
    take (min (length old) (unat sz)) bs = take (unat sz) old"
  using assms by (auto simp: safe_realloc_def Let_def min_def)

text \<open>Both ways to move the buffer keep the common prefix.\<close>

lemma move_buffer_ok:
  assumes "db_ok m db" "k < 64" "cap = 2 ^ k"
  shows "\<exists>m' db'. move_buffer m db cap = Some (m', db') \<and> mem_ok m' \<and> buf_live m' db' \<and>
    db_capacity db' = cap \<and> use_memory_regions db' = use_memory_regions db \<and>
    unat cap \<le> length (buf_bytes m' db') \<and>
    take (min (unat (db_capacity db)) (unat cap)) (buf_bytes m' db') =
      take (min (unat (db_capacity db)) (unat cap)) (buf_bytes m db)"
proof (cases "db_capacity db = cap")
  case True
  with assms(1) show ?thesis by (simp add: move_buffer_def db_ok_def)
next
  case neq: False
  have m: "mem_ok m" and len: "unat (db_capacity db) \<le> length (buf_bytes m db)"
    using assms(1) by (simp_all add: db_ok_def)
  let ?N = "min (unat (db_capacity db)) (unat cap)"
  have shorten: "take ?N xs = take ?N ys"
    if "take (min (length ys) (unat cap)) xs = take (unat cap) ys"
       "unat (db_capacity db) \<le> length ys" for xs ys :: "byte list"
  proof -
    have "take ?N xs = take ?N (take (min (length ys) (unat cap)) xs)" using that(2) by simp
    then show ?thesis unfolding that(1) by simp
  qed
  show ?thesis
  proof (cases "use_memory_regions db")
    case True
    have "(2 :: nat) ^ k \<le> 2 ^ 63" using assms(2) by (intro power_increasing) auto
    then have "fits_in_region (regions m) cap"
      using m assms(2,3) by (simp add: fits_in_region_def mem_ok_def)
    moreover have "db_buf db \<in> set (live (regions m))"
      using assms(1) True by (simp add: db_ok_def buf_live_def)
    ultimately obtain s' b where s': "realloc_region (regions m) (db_buf db) cap = Some (s', b)"
      "os_ok s'" "b \<in> set (live s')" "unat cap \<le> length (region_bytes s' b)"
      "page_size s' = page_size (regions m)" "mmap_ok s' = mmap_ok (regions m)"
      "take (min (length (buf_bytes m db)) (unat cap)) (region_bytes s' b) =
        take (unat cap) (buf_bytes m db)"
      using realloc_region_ok [of "regions m" cap "db_buf db"] m True
      by (auto simp: mem_ok_def buf_bytes_def)
    with m True neq shorten [OF s'(7) len] show ?thesis
      by (auto simp: move_buffer_def mem_ok_def buf_live_def buf_bytes_def)
  next
    case False
    then obtain old where old: "heap_block m (db_buf db) = Some old"
      using assms(1) by (auto simp: db_ok_def buf_live_def)
    obtain m' b bs where m': "safe_realloc m (db_buf db) cap = Some (m', b)"
      "heap_block m' b = Some bs" "regions m' = regions m" "heap_ok m' = heap_ok m"
      "length bs = unat cap" "take (min (length old) (unat cap)) bs = take (unat cap) old"
      using safe_realloc_ok [OF _ old, of cap] m by (auto simp: mem_ok_def)
    have "buf_bytes m db = old" using False old by (simp add: buf_bytes_def)
    with m m' False neq shorten [of old bs] len old show ?thesis
      by (auto simp: move_buffer_def mem_ok_def buf_live_def buf_bytes_def)
  qed
qed

lemma final_capacity:
  assumes "k < 64" "unat n \<le> 2 ^ 63" "lo = 7 \<or> lo = 12"
  shows "\<exists>c c' i. halve_capacity (2 ^ k) n = Some c \<and> double_capacity c n = Some c' \<and>
    i < 64 \<and> max c' (2 ^ lo) = 2 ^ i \<and> unat n \<le> 2 ^ i \<and> 2 ^ i \<le> max (4 * unat n) (2 ^ lo)"
proof -
  obtain j where j: "j \<le> k" "halve_capacity (2 ^ k) n = Some (2 ^ j)" "2 ^ j div 4 \<le> unat n"
    using halve_capacity_pow2 [OF assms(1)] by blast
  have "j < 64" using j(1) assms(1) by simp
  from double_capacity_pow2 [OF this assms(2)] obtain i where i: "j \<le> i" "i < 64"
    "double_capacity (2 ^ j) n = Some (2 ^ i)" "unat n \<le> 2 ^ i" "j < i \<longrightarrow> 2 ^ (i - 1) < unat n"
    by blast
  have lo: "lo < 64" "2 \<le> lo" using assms(3) by auto
  let ?i = "max i lo"
  have pow: "max ((2 :: size_t) ^ i) (2 ^ lo) = 2 ^ ?i"
    using i(2) lo by (auto simp: max_def word_le_nat_alt)
  have "2 ^ i \<le> 4 * unat n \<or> i < 2"
  proof (cases "j < i")
    case True
    then have "(2 :: nat) ^ i = 2 * 2 ^ (i - 1)" by (metis gr_implies_not0 power_eq_if)
    with True i(5) show ?thesis by linarith
  next
    case False
    show ?thesis
    proof (cases "2 \<le> j")
      case True
      then have "(2 :: nat) ^ j = 4 * 2 ^ (j - 2)" by (metis le_add_diff_inverse power_add power2_eq_square num_double numeral_times_numeral)
      with False j(3) i(1) show ?thesis by simp
    qed (use False i(1) in auto)
  qed
  then have "2 ^ ?i \<le> max (4 * unat n) (2 ^ lo)"
    using lo(2) by (cases "i \<le> lo") (auto simp: max_absorb1 max_absorb2 le_max_iff_disj)
  moreover have "unat n \<le> 2 ^ ?i" using i(4) by (auto simp: max_def intro: order_trans)
  ultimately show ?thesis using j(2) i(2,3) pow lo(1) by (intro exI [of _ "2 ^ j"] exI [of _ "2 ^ i"] exI [of _ ?i]) auto
qed



text \<open>A buffer on the heap of a system that serves every request.\<close>

definition plain_memory :: c_memory where
  "plain_memory = \<lparr>regions = plain_os, heap_block = (\<lambda>_. None), heap_ok = (\<lambda>_. True),
     heap_pick = (\<lambda>_. 1), junk = (\<lambda>_. 0)\<rparr>"

definition plain_buffer :: "c_memory \<times> DynamicBuffer" where
  "plain_buffer = the (init_dynamic_buffer plain_memory False)"

lemma plain_buffer_ok: "db_ok (fst plain_buffer) (snd plain_buffer)"
proof -
  have "mem_ok plain_memory"
    using plain_os_ok(1) by (simp add: mem_ok_def plain_memory_def) (simp add: plain_os_def)
  moreover have "\<exists>k < 64. (128 :: size_t) = 2 ^ k" by (rule exI [of _ 7]) simp
  ultimately show ?thesis
    by (simp add: plain_buffer_def init_dynamic_buffer_def safe_malloc_def db_ok_def mem_ok_def
        buf_live_def buf_bytes_def min_capacity_def Let_def plain_memory_def)
qed


text \<open>
  C27: A request above \<open>2 ^ 63\<close> bytes never returns: the capacity is doubled until it wraps to
  zero, after which the loop condition holds forever.
\<close>

theorem resize_dynamic_buffer_diverges:
  assumes "db_ok m db" "2 ^ 63 < unat n"
  shows "resize_dynamic_buffer m db n = None"
proof -
  obtain k where k: "k < 64" "db_capacity db = 2 ^ k" using assms(1) by (auto simp: db_ok_def)
  obtain j where "j \<le> k" "halve_capacity (2 ^ k) n = Some (2 ^ j)"
    using halve_capacity_pow2 [OF k(1)] by blast
  with k double_capacity_diverges [OF _ assms(2), of j] show ?thesis
    by (simp add: resize_dynamic_buffer_def)
qed

theorem resize_dynamic_buffer_diverges_witness:
  "resize_dynamic_buffer (fst plain_buffer) (snd plain_buffer) (2 ^ 63 + 1) = None"
  by (rule resize_dynamic_buffer_diverges [OF plain_buffer_ok]) (simp add: unat_word_ariths)

end
