(* ===== verification/Rs_Wrapper.thy ===== *)
theory Rs_Wrapper
  imports Whist_Prelude Complex_Main
begin

text \<open>
  The Reed-Solomon wrapper of \<^verbatim>\<open>protocol/whist/fec/rs_wrapper.c\<close>: how the buffers of a frame are
  split into groups, how indices map between the frame and its groups, and how encoding, decoding
  and the "can we decode yet" counters work over those groups.

  The erasure codes themselves are vendored libraries (\<^verbatim>\<open>cm256\<close>, \<^verbatim>\<open>lugi_rs\<close>); they are the record
  \<open>rs_lib\<close>, an argument of every definition that calls them. Buffers are byte lists; the pointer
  arrays of the code are lists of buffers, in which the empty list stands for a null pointer.
\<close>

section \<open>The code\<close>

definition RS_FIELD_SIZE :: nat where
  "RS_FIELD_SIZE = 256"

text \<open>\<^verbatim>\<open>sizeof(WhistPacket)\<close>: three 4-byte fields and 1285 bytes of data, padded to 1300.\<close>

definition MAX_PACKET_SEGMENT_SIZE :: nat where
  "MAX_PACKET_SEGMENT_SIZE = 1300"

datatype RSImplementation = LUGI_RS | CM256

record SubIndexInfo =
  group_id :: nat
  sub_index :: nat

record GroupInfo =
  g_num_real_buffers :: nat
  g_num_fec_buffers :: nat
  g_num_buffers_registered :: nat

record RSWrapper =
  num_groups :: nat
  rs_num_real_buffers :: nat
  rs_num_fec_buffers :: nat
  num_pending_groups :: int
  group_max_num_real_buffers :: nat
  group_max_num_fec_buffers :: nat
  group_infos :: "GroupInfo list"

text \<open>The globals of the file, with their initial values.\<close>

definition rs_implementation_to_use :: RSImplementation where
  "rs_implementation_to_use = CM256"

record rs_settings =
  rs_wrapper_max_group_size :: int
  rs_wrapper_max_group_overhead :: real

definition rs_initial_settings :: rs_settings where
  "rs_initial_settings = \<lparr>rs_wrapper_max_group_size = 256, rs_wrapper_max_group_overhead = 20\<rparr>"

text \<open>The vendored codes. A block of \<^verbatim>\<open>cm256\<close> is a buffer with its index; decoding replaces
  recovery blocks by originals and updates their indices.\<close>

record rs_lib =
  cm256_encode_block :: "nat \<Rightarrow> nat \<Rightarrow> nat \<Rightarrow> byte list list \<Rightarrow> nat \<Rightarrow> byte list"
  cm256_decode :: "nat \<Rightarrow> nat \<Rightarrow> nat \<Rightarrow> (nat \<times> byte list) list \<Rightarrow> (nat \<times> byte list) list option"
  lugi_encode :: "nat \<Rightarrow> nat \<Rightarrow> nat \<Rightarrow> byte list list \<Rightarrow> nat \<Rightarrow> byte list"
  lugi_decode :: "nat \<Rightarrow> nat \<Rightarrow> nat \<Rightarrow> byte list list \<Rightarrow> nat list \<Rightarrow> byte list list option"

definition rs_wrapper_set_max_group_size :: "rs_settings \<Rightarrow> int \<Rightarrow> rs_settings \<times> int" where
  "rs_wrapper_set_max_group_size st a =
     (let save = rs_wrapper_max_group_size st
      in (if a > 0 then st\<lparr>rs_wrapper_max_group_size := a\<rparr> else st, save))"

text \<open>The old value goes through an \<^verbatim>\<open>int\<close> variable, so it is truncated (overheads are positive).\<close>

definition rs_wrapper_set_max_group_overhead :: "rs_settings \<Rightarrow> real \<Rightarrow> rs_settings \<times> real" where
  "rs_wrapper_set_max_group_overhead st a =
     (let save = \<lfloor>rs_wrapper_max_group_overhead st\<rfloor>
      in (if a > 0 then st\<lparr>rs_wrapper_max_group_overhead := a\<rparr> else st, real_of_int save))"

definition overhead_of_group :: "nat \<Rightarrow> nat \<Rightarrow> real" where
  "overhead_of_group num_real num_fec =
     (let k = real num_real; m = real num_fec; l = real MAX_PACKET_SEGMENT_SIZE
      in case rs_implementation_to_use of
           CM256 \<Rightarrow> (k * k + k * m * l) / ((k + m) * l)
         | LUGI_RS \<Rightarrow> (k * k * k + k * m * l) / ((k + m) * l))"

definition int_partition_helper :: "nat \<Rightarrow> nat \<Rightarrow> nat \<Rightarrow> nat" where
  "int_partition_helper tot gid group_num =
     (if gid \<ge> tot then 0 else nat (int_div_roundup (int tot - int gid) (int group_num)))"

definition fill_partition_plan :: "RSWrapper \<Rightarrow> RSWrapper" where
  "fill_partition_plan w = w\<lparr>group_infos :=
     map (\<lambda>i. \<lparr>g_num_real_buffers = int_partition_helper (rs_num_real_buffers w) i (num_groups w),
              g_num_fec_buffers = int_partition_helper (rs_num_fec_buffers w) i (num_groups w),
              g_num_buffers_registered = 0\<rparr>) [0..<num_groups w]\<rparr>"

definition index_full_to_sub :: "RSWrapper \<Rightarrow> nat \<Rightarrow> SubIndexInfo option" where
  "index_full_to_sub w index = do {
     fatal_assert (index < rs_num_real_buffers w + rs_num_fec_buffers w);
     Some (if index < rs_num_real_buffers w
           then \<lparr>group_id = index mod num_groups w, sub_index = index div num_groups w\<rparr>
           else let i = index - rs_num_real_buffers w; g = i mod num_groups w
                in \<lparr>group_id = g,
                    sub_index = g_num_real_buffers (group_infos w ! g) + i div num_groups w\<rparr>) }"

definition index_sub_to_full :: "RSWrapper \<Rightarrow> nat \<Rightarrow> nat \<Rightarrow> nat option" where
  "index_sub_to_full w gid sub = do {
     fatal_assert (gid < num_groups w);
     let k = g_num_real_buffers (group_infos w ! gid);
     Some (if sub < k then gid + sub * num_groups w
           else rs_num_real_buffers w + gid + (sub - k) * num_groups w) }"

definition rs_wrapper_decode_helper_reset :: "RSWrapper \<Rightarrow> RSWrapper" where
  "rs_wrapper_decode_helper_reset w =
     w\<lparr>num_pending_groups := int (num_groups w),
       group_infos := map (\<lambda>g. g\<lparr>g_num_buffers_registered := 0\<rparr>) (group_infos w)\<rparr>"

definition rs_wrapper_create_inner :: "nat \<Rightarrow> nat \<Rightarrow> nat \<Rightarrow> RSWrapper option" where
  "rs_wrapper_create_inner num_real num_total groups = do {
     fatal_assert (num_real > 0);
     fatal_assert (num_real \<le> num_real);
     fatal_assert (groups \<le> num_real);
     let w = fill_partition_plan \<lparr>num_groups = groups, rs_num_real_buffers = num_real,
               rs_num_fec_buffers = num_total - num_real, num_pending_groups = 0,
               group_max_num_real_buffers = 0, group_max_num_fec_buffers = 0, group_infos = []\<rparr>;
     let w = w\<lparr>group_max_num_real_buffers :=
                 fold (\<lambda>g m. max m (g_num_real_buffers g)) (group_infos w) 0,
               group_max_num_fec_buffers :=
                 fold (\<lambda>g m. max m (g_num_fec_buffers g)) (group_infos w) 0\<rparr>;
     Some (rs_wrapper_decode_helper_reset w) }"

text \<open>Whether \<open>i\<close> groups satisfy both limits, for the evenly partitioned worst group.\<close>

definition group_count_ok :: "rs_settings \<Rightarrow> nat \<Rightarrow> nat \<Rightarrow> nat \<Rightarrow> bool" where
  "group_count_ok st num_real num_fec i =
     (let max_real = int_div_roundup (int num_real) (int i);
          max_fec = int_div_roundup (int num_fec) (int i)
      in max_real + max_fec \<le> rs_wrapper_max_group_size st \<and>
         overhead_of_group (nat max_real) (nat max_fec) \<le> rs_wrapper_max_group_overhead st)"

definition rs_wrapper_create :: "rs_settings \<Rightarrow> nat \<Rightarrow> nat \<Rightarrow> RSWrapper option" where
  "rs_wrapper_create st num_real num_total = do {
     fatal_assert (num_real > 0);
     fatal_assert (num_real \<le> num_real);
     let num_fec = num_total - num_real;
     let groups = (case find (group_count_ok st num_real num_fec) [1..<num_real] of
                     Some i \<Rightarrow> i | None \<Rightarrow> num_real);
     rs_wrapper_create_inner num_real num_total groups }"

definition rs_encode_or_dup :: "rs_lib \<Rightarrow> nat \<Rightarrow> nat \<Rightarrow> byte list list \<Rightarrow> nat \<Rightarrow> byte list list option" where
  "rs_encode_or_dup lib k n src sz = do {
     fatal_assert (k < RS_FIELD_SIZE);
     fatal_assert (k \<le> n);
     let fec_num = n - k;
     if k = 1 then Some (replicate fec_num (mem_read 0 sz (src ! 0)))
     else do {
       fatal_assert (n \<le> RS_FIELD_SIZE);
       Some (case rs_implementation_to_use of
           CM256 \<Rightarrow> map (\<lambda>i. cm256_encode_block lib k (n - k) sz (take k src) (k + i)) [0..<fec_num]
         | LUGI_RS \<Rightarrow> map (\<lambda>i. lugi_encode lib k n sz src (k + i)) [0..<fec_num]) } }"

definition rs_decode_or_dedup :: "rs_lib \<Rightarrow> nat \<Rightarrow> nat \<Rightarrow> byte list list \<Rightarrow> nat list \<Rightarrow> nat \<Rightarrow> byte list list option" where
  "rs_decode_or_dedup lib k n pkt index sz = do {
     fatal_assert (k < RS_FIELD_SIZE);
     fatal_assert (k \<le> n);
     if k = 1 then Some pkt
     else do {
       fatal_assert (n \<le> RS_FIELD_SIZE);
       (case rs_implementation_to_use of
           CM256 \<Rightarrow> do {
             blocks \<leftarrow> cm256_decode lib k (n - k) sz (map (\<lambda>i. (index ! i, pkt ! i)) [0..<k]);
             Some (fold (\<lambda>(i, b) p. p[i := b]) blocks pkt) }
         | LUGI_RS \<Rightarrow> lugi_decode lib k n sz pkt index) } }"

text \<open>Encoding, group by group: the recovery blocks of a group go to their places in \<open>dst\<close>.\<close>

definition encode_group :: "rs_lib \<Rightarrow> RSWrapper \<Rightarrow> byte list list \<Rightarrow> nat \<Rightarrow> nat \<Rightarrow> byte list list \<Rightarrow> byte list list option" where
  "encode_group lib w src sz i dst = do {
     let k = g_num_real_buffers (group_infos w ! i);
     let m = g_num_fec_buffers (group_infos w ! i);
     src_sub \<leftarrow> those (map (\<lambda>j. map_option (\<lambda>f. src ! f) (index_sub_to_full w i j)) [0..<k]);
     places \<leftarrow> those (map (\<lambda>j. index_sub_to_full w i (k + j)) [0..<m]);
     dst_sub \<leftarrow> rs_encode_or_dup lib k (k + m) src_sub sz;
     Some (fold (\<lambda>(f, b) d. d[f - rs_num_real_buffers w := b]) (zip places dst_sub) dst) }"

fun encode_groups :: "rs_lib \<Rightarrow> RSWrapper \<Rightarrow> byte list list \<Rightarrow> nat \<Rightarrow> nat list \<Rightarrow> byte list list \<Rightarrow> byte list list option" where
  "encode_groups lib w src sz [] dst = Some dst"
| "encode_groups lib w src sz (i # is) dst = do {
     dst \<leftarrow> encode_group lib w src sz i dst;
     encode_groups lib w src sz is dst }"

definition rs_wrapper_encode :: "rs_lib \<Rightarrow> RSWrapper \<Rightarrow> byte list list \<Rightarrow> byte list list \<Rightarrow> nat \<Rightarrow> byte list list option" where
  "rs_wrapper_encode lib w src dst sz = do {
     fatal_assert (num_groups w > 0);
     if num_groups w = 1 then
       let k = g_num_real_buffers (group_infos w ! 0);
           n = k + g_num_fec_buffers (group_infos w ! 0)
       in rs_encode_or_dup lib k n src sz
     else encode_groups lib w src sz [0..<num_groups w] dst }"

text \<open>Decoding. The first loop sorts the received packets into their groups: \<open>offsets ! g\<close> lists
  the positions used for group \<open>g\<close>, and packets beyond what a group needs move to the end (a write
  past the array would be undefined and is the value \<open>None\<close>).\<close>

record decode_plan =
  subgroup_offsets :: "nat list list"
  unused_cnt :: nat
  plan_pkt :: "byte list list"

definition plan_step :: "RSWrapper \<Rightarrow> byte list list \<Rightarrow> nat list \<Rightarrow> nat \<Rightarrow> decode_plan \<Rightarrow> decode_plan option" where
  "plan_step w pkt_copy index i p = do {
     info \<leftarrow> index_full_to_sub w (index ! i);
     let g = group_id info;
     if length (subgroup_offsets p ! g) = g_num_real_buffers (group_infos w ! g) then do {
       fatal_assert (rs_num_real_buffers w + unused_cnt p < length (plan_pkt p));
       Some (p\<lparr>plan_pkt := (plan_pkt p)[rs_num_real_buffers w + unused_cnt p := pkt_copy ! i],
               unused_cnt := unused_cnt p + 1\<rparr>) }
     else Some (p\<lparr>subgroup_offsets := (subgroup_offsets p)[g := subgroup_offsets p ! g @ [i]]\<rparr>) }"

fun plan_loop :: "RSWrapper \<Rightarrow> byte list list \<Rightarrow> nat list \<Rightarrow> nat list \<Rightarrow> decode_plan \<Rightarrow> decode_plan option" where
  "plan_loop w pkt_copy index [] p = Some p"
| "plan_loop w pkt_copy index (i # is) p = do {
     p \<leftarrow> plan_step w pkt_copy index i p;
     plan_loop w pkt_copy index is p }"

definition decode_group :: "rs_lib \<Rightarrow> RSWrapper \<Rightarrow> byte list list \<Rightarrow> nat list \<Rightarrow> nat list list \<Rightarrow> nat \<Rightarrow> nat \<Rightarrow> byte list list \<Rightarrow> byte list list option" where
  "decode_group lib w pkt_copy index offsets sz i pkt = do {
     let k = g_num_real_buffers (group_infos w ! i);
     let n = k + g_num_fec_buffers (group_infos w ! i);
     fatal_assert (length (offsets ! i) = k);
     let pkt_sub = map (\<lambda>off. pkt_copy ! off) (offsets ! i);
     infos \<leftarrow> those (map (\<lambda>off. index_full_to_sub w (index ! off)) (offsets ! i));
     fatal_assert (\<forall>info \<in> set infos. group_id info = i);
     let index_sub = map sub_index infos;
     pkt_sub \<leftarrow> rs_decode_or_dedup lib k n pkt_sub index_sub sz;
     places \<leftarrow> those (map (\<lambda>j. index_sub_to_full w i j) [0..<k]);
     Some (fold (\<lambda>(f, b) p. p[f := b]) (zip places pkt_sub) pkt) }"

fun decode_groups :: "rs_lib \<Rightarrow> RSWrapper \<Rightarrow> byte list list \<Rightarrow> nat list \<Rightarrow> nat list list \<Rightarrow> nat \<Rightarrow> nat list \<Rightarrow> byte list list \<Rightarrow> byte list list option" where
  "decode_groups lib w pkt_copy index offsets sz [] pkt = Some pkt"
| "decode_groups lib w pkt_copy index offsets sz (i # is) pkt = do {
     pkt \<leftarrow> decode_group lib w pkt_copy index offsets sz i pkt;
     decode_groups lib w pkt_copy index offsets sz is pkt }"

definition rs_wrapper_decode :: "rs_lib \<Rightarrow> RSWrapper \<Rightarrow> byte list list \<Rightarrow> nat list \<Rightarrow> nat \<Rightarrow> nat \<Rightarrow> byte list list option" where
  "rs_wrapper_decode lib w pkt index num_pkt sz = do {
     fatal_assert (num_groups w > 0);
     if num_groups w = 1 then
       let k = g_num_real_buffers (group_infos w ! 0);
           n = k + g_num_fec_buffers (group_infos w ! 0)
       in rs_decode_or_dedup lib k n pkt index sz
     else do {
       plan \<leftarrow> plan_loop w (take num_pkt pkt) index [0..<num_pkt]
                \<lparr>subgroup_offsets = replicate (num_groups w) [], unused_cnt = 0, plan_pkt = pkt\<rparr>;
       decode_groups lib w (take num_pkt pkt) index (subgroup_offsets plan) sz [0..<num_groups w]
         (plan_pkt plan) } }"

definition rs_wrapper_decode_helper_register_index :: "RSWrapper \<Rightarrow> nat \<Rightarrow> RSWrapper option" where
  "rs_wrapper_decode_helper_register_index w index = do {
     info \<leftarrow> index_full_to_sub w index;
     let g = group_id info;
     let gi = group_infos w ! g;
     let gi = gi\<lparr>g_num_buffers_registered := g_num_buffers_registered gi + 1\<rparr>;
     let w = w\<lparr>group_infos := (group_infos w)[g := gi]\<rparr>;
     if g_num_buffers_registered gi = g_num_real_buffers gi then do {
       let w = w\<lparr>num_pending_groups := num_pending_groups w - 1\<rparr>;
       fatal_assert (num_pending_groups w \<ge> 0);
       Some w }
     else Some w }"

definition rs_wrapper_decode_helper_can_decode :: "RSWrapper \<Rightarrow> bool option" where
  "rs_wrapper_decode_helper_can_decode w = do {
     fatal_assert (num_pending_groups w \<ge> 0);
     Some (num_pending_groups w = 0) }"

section \<open>The partition into groups\<close>

text \<open>\<open>plan_ok\<close> is the well-formedness of a wrapper: its groups are the even partition.\<close>

definition plan_ok :: "RSWrapper \<Rightarrow> bool" where
  "plan_ok w \<longleftrightarrow> 0 < num_groups w \<and> num_groups w \<le> rs_num_real_buffers w \<and>
     length (group_infos w) = num_groups w \<and>
     (\<forall>g < num_groups w.
        g_num_real_buffers (group_infos w ! g) = int_partition_helper (rs_num_real_buffers w) g (num_groups w) \<and>
        g_num_fec_buffers (group_infos w ! g) = int_partition_helper (rs_num_fec_buffers w) g (num_groups w))"

abbreviation group_real :: "RSWrapper \<Rightarrow> nat \<Rightarrow> nat" where
  "group_real w g \<equiv> g_num_real_buffers (group_infos w ! g)"

abbreviation group_fec :: "RSWrapper \<Rightarrow> nat \<Rightarrow> nat" where
  "group_fec w g \<equiv> g_num_fec_buffers (group_infos w ! g)"

text \<open>The share of group \<open>g\<close> is the number of indices congruent to \<open>g\<close>.\<close>

lemma partition_share:
  assumes "0 < G" "g < G"
  shows "s < int_partition_helper tot g G \<longleftrightarrow> g + s * G < tot"
proof (cases "g < tot")
  case False
  then show ?thesis by (simp add: int_partition_helper_def)
next
  case True
  let ?q = "int_div_roundup (int tot - int g) (int G)"
  have G: "0 < int G" using assms(1) by simp
  note b = int_div_roundup_bounds [OF G, of "int tot - int g"]
  have "int s < ?q \<longleftrightarrow> int g + int s * int G < int tot"
  proof
    assume "int s < ?q"
    then have "int G * (int s + 1) \<le> int G * ?q" using G by (intro mult_left_mono) auto
    with b(2) show "int g + int s * int G < int tot" by (simp add: algebra_simps)
  next
    assume less: "int g + int s * int G < int tot"
    show "int s < ?q"
    proof (rule ccontr)
      assume "\<not> int s < ?q"
      then have "int G * ?q \<le> int G * int s" using G by (intro mult_left_mono) auto
      with b(1) less show False by (simp add: algebra_simps)
    qed
  qed
  moreover have "0 \<le> ?q" using True G by (simp add: int_div_roundup_def pos_imp_zdiv_nonneg_iff)
  ultimately have "s < nat ?q \<longleftrightarrow> int g + int s * int G < int tot" by linarith
  also have "\<dots> \<longleftrightarrow> g + s * G < tot" by (metis of_nat_add of_nat_less_iff of_nat_mult)
  finally show ?thesis using True unfolding int_partition_helper_def by simp
qed

lemma plan_okD:
  assumes "plan_ok w" "g < num_groups w"
  shows "s < group_real w g \<longleftrightarrow> g + s * num_groups w < rs_num_real_buffers w"
    and "s < group_fec w g \<longleftrightarrow> g + s * num_groups w < rs_num_fec_buffers w"
  using assms partition_share [of "num_groups w" g] by (auto simp: plan_ok_def)

lemma group_real_pos: "plan_ok w \<Longrightarrow> g < num_groups w \<Longrightarrow> 0 < group_real w g"
  using plan_okD(1) [of w g 0] by (auto simp: plan_ok_def)

text \<open>The place of packet \<open>s\<close> of group \<open>g\<close> in the whole frame.\<close>

definition full_index :: "RSWrapper \<Rightarrow> nat \<Rightarrow> nat \<Rightarrow> nat" where
  "full_index w g s = (if s < group_real w g then g + s * num_groups w
     else rs_num_real_buffers w + g + (s - group_real w g) * num_groups w)"

lemma index_sub_to_full_eq: "g < num_groups w \<Longrightarrow> index_sub_to_full w g s = Some (full_index w g s)"
  by (simp add: index_sub_to_full_def full_index_def Let_def)

lemma full_index_bounds:
  assumes "plan_ok w" "g < num_groups w"
  shows "s < group_real w g \<Longrightarrow> full_index w g s < rs_num_real_buffers w"
    and "group_real w g \<le> s \<Longrightarrow> rs_num_real_buffers w \<le> full_index w g s"
    and "s < group_real w g + group_fec w g \<Longrightarrow>
      full_index w g s < rs_num_real_buffers w + rs_num_fec_buffers w"
proof -
  show real: "full_index w g s < rs_num_real_buffers w" if "s < group_real w g"
    using that plan_okD(1) [OF assms, of s] by (simp add: full_index_def)
  show "rs_num_real_buffers w \<le> full_index w g s" if "group_real w g \<le> s"
    using that by (simp add: full_index_def)
  show "full_index w g s < rs_num_real_buffers w + rs_num_fec_buffers w"
    if "s < group_real w g + group_fec w g"
  proof (cases "s < group_real w g")
    case True
    then show ?thesis using real by (simp add: trans_less_add1)
  next
    case False
    then have "s - group_real w g < group_fec w g" using that by simp
    with False show ?thesis using plan_okD(2) [OF assms] by (simp add: full_index_def add.assoc)
  qed
qed

lemma index_full_to_sub_full:
  assumes "plan_ok w" "g < num_groups w" "s < group_real w g + group_fec w g"
  shows "index_full_to_sub w (full_index w g s) = Some \<lparr>group_id = g, sub_index = s\<rparr>"
proof -
  note b = full_index_bounds [OF assms(1,2), of s]
  show ?thesis
  proof (cases "s < group_real w g")
    case True
    with b(1,3) assms(3) show ?thesis
      using assms(2) by (simp add: index_full_to_sub_def) (simp add: full_index_def)
  next
    case False
    then have "\<not> full_index w g s < rs_num_real_buffers w" using b(2) by simp
    with False b(3) assms(2,3) show ?thesis
      by (simp add: index_full_to_sub_def Let_def) (simp add: full_index_def)
  qed
qed

lemma full_index_surj:
  assumes "plan_ok w" "i < rs_num_real_buffers w + rs_num_fec_buffers w"
  shows "\<exists>g s. g < num_groups w \<and> s < group_real w g + group_fec w g \<and> i = full_index w g s \<and>
    (i < rs_num_real_buffers w \<longleftrightarrow> s < group_real w g)"
proof -
  let ?G = "num_groups w" and ?R = "rs_num_real_buffers w"
  have G: "0 < ?G" using assms(1) by (simp add: plan_ok_def)
  show ?thesis
  proof (cases "i < ?R")
    case True
    have "i mod ?G < ?G" using G by simp
    moreover have "i div ?G < group_real w (i mod ?G)"
      using plan_okD(1) [OF assms(1) calculation] True by simp
    ultimately show ?thesis using True
      by (intro exI [of _ "i mod ?G"] exI [of _ "i div ?G"]) (simp add: full_index_def)
  next
    case False
    let ?j = "i - ?R"
    have g: "?j mod ?G < ?G" using G by simp
    have "?j div ?G < group_fec w (?j mod ?G)"
      using plan_okD(2) [OF assms(1) g] False assms(2) by simp
    with g False show ?thesis
      by (intro exI [of _ "?j mod ?G"] exI [of _ "group_real w (?j mod ?G) + ?j div ?G"])
        (simp add: full_index_def)
  qed
qed

lemma full_index_inj:
  assumes "plan_ok w" "g < num_groups w" "s < group_real w g + group_fec w g"
    and "g' < num_groups w" "s' < group_real w g' + group_fec w g'"
    and "full_index w g s = full_index w g' s'"
  shows "g = g' \<and> s = s'"
proof -
  have "Some \<lparr>group_id = g, sub_index = s\<rparr> = Some \<lparr>group_id = g', sub_index = s'\<rparr>"
    unfolding index_full_to_sub_full [OF assms(1-3), symmetric] assms(6)
    by (rule index_full_to_sub_full [OF assms(1,4,5)])
  then show ?thesis by simp
qed

lemma plan_ok_create_inner:
  assumes "rs_wrapper_create_inner R N G = Some w" "0 < G"
  shows "plan_ok w" "num_groups w = G" "rs_num_real_buffers w = R" "rs_num_fec_buffers w = N - R"
    "num_pending_groups w = int G" "\<And>g. g < G \<Longrightarrow> g_num_buffers_registered (group_infos w ! g) = 0"
  using assms
  by (auto simp: rs_wrapper_create_inner_def rs_wrapper_decode_helper_reset_def fill_partition_plan_def
      plan_ok_def Let_def split: if_splits)


section \<open>Scattered writes\<close>

lemma length_fold_write [simp]: "length (fold (\<lambda>(f, b) p. p[f := b]) us xs) = length xs"
  by (induction us arbitrary: xs) auto

lemma fold_write_other:
  "i \<notin> fst ` set us \<Longrightarrow> fold (\<lambda>(f, b) p. p[f := b]) us xs ! i = xs ! i"
  by (induction us arbitrary: xs) auto

lemma fold_write_same:
  "(i, b) \<in> set us \<Longrightarrow> (\<And>b'. (i, b') \<in> set us \<Longrightarrow> b' = b) \<Longrightarrow> i < length xs \<Longrightarrow>
     fold (\<lambda>(f, b) p. p[f := b]) us xs ! i = b"
proof (induction us arbitrary: xs)
  case (Cons u us)
  obtain f c where u: "u = (f, c)" by (cases u)
  show ?case
  proof (cases "i \<in> fst ` set us")
    case True
    then obtain b' where m: "(i, b') \<in> set us" by auto
    then have mb: "(i, b) \<in> set us" using Cons.prems(2) [of b'] by simp
    have uniq: "b' = b" if "(i, b') \<in> set us" for b' using Cons.prems(2) [of b'] that by simp
    have "i < length (xs[f := c])" using Cons.prems(3) by simp
    from Cons.IH [OF mb uniq this] u show ?thesis by simp
  next
    case False
    then have "u = (i, b)" using Cons.prems(1) by force
    with False Cons.prems(3) show ?thesis by (simp add: fold_write_other)
  qed
qed simp

text \<open>Writing the blocks \<open>bs\<close> to the distinct places \<open>map f [0..<m]\<close>.\<close>

lemma fold_write_map:
  fixes f :: "nat \<Rightarrow> nat"
  assumes "inj_on f {..<m}" "m \<le> length bs" "\<And>j. j < m \<Longrightarrow> f j < length xs"
  defines "ys \<equiv> fold (\<lambda>(f, b) p. p[f := b]) (zip (map f [0..<m]) bs) xs"
  shows "j < m \<Longrightarrow> ys ! f j = bs ! j"
    and "(\<And>j. j < m \<Longrightarrow> i \<noteq> f j) \<Longrightarrow> ys ! i = xs ! i"
proof -
  have us: "set (zip (map f [0..<m]) bs) = {(f j, bs ! j) |j. j < m}"
    using assms(2) unfolding set_zip by auto (metis add_0 diff_zero length_upt nth_map nth_upt)
  show "ys ! f j = bs ! j" if j: "j < m"
    unfolding ys_def
  proof (rule fold_write_same)
    show "(f j, bs ! j) \<in> set (zip (map f [0..<m]) bs)" using us j by blast
    show "b' = bs ! j" if "(f j, b') \<in> set (zip (map f [0..<m]) bs)" for b'
      using that us j assms(1) by (auto simp: inj_on_def)
    show "f j < length xs" using assms(3) j .
  qed
  show "ys ! i = xs ! i" if "\<And>j. j < m \<Longrightarrow> i \<noteq> f j"
    unfolding ys_def by (rule fold_write_other) (use us that in force)
qed

lemma those_map_Some: "(\<And>x. x \<in> set xs \<Longrightarrow> f x = Some (g x)) \<Longrightarrow> those (map f xs) = Some (map g xs)"
  by (induction xs) auto

section \<open>Encoding\<close>

text \<open>The packet \<open>s\<close> of group \<open>g\<close> when \<open>src\<close> is encoded.\<close>

definition group_src :: "RSWrapper \<Rightarrow> byte list list \<Rightarrow> nat \<Rightarrow> byte list list" where
  "group_src w src g = map (\<lambda>j. src ! full_index w g j) [0..<group_real w g]"

definition code_packet :: "rs_lib \<Rightarrow> nat \<Rightarrow> nat \<Rightarrow> nat \<Rightarrow> byte list list \<Rightarrow> nat \<Rightarrow> byte list" where
  "code_packet lib k m sz blocks s = (if s < k then blocks ! s
     else if k = 1 then mem_read 0 sz (blocks ! 0) else cm256_encode_block lib k m sz blocks s)"

text \<open>What the documentation of \<^verbatim>\<open>cm256\<close> promises for \<open>k\<close> original and \<open>m\<close> recovery blocks: recovery
  blocks have the block size, and any \<open>k\<close> different blocks decode to the originals, each labelled
  with its index.\<close>

definition cm256_recovers :: "rs_lib \<Rightarrow> nat \<Rightarrow> nat \<Rightarrow> nat \<Rightarrow> bool" where
  "cm256_recovers lib k m sz \<longleftrightarrow> (\<forall>blocks. length blocks = k \<longrightarrow> (\<forall>b \<in> set blocks. length b = sz) \<longrightarrow>
     (\<forall>i < m. length (cm256_encode_block lib k m sz blocks (k + i)) = sz) \<and>
     (\<forall>idx. length idx = k \<longrightarrow> distinct idx \<longrightarrow> set idx \<subseteq> {..<k + m} \<longrightarrow>
        (\<exists>bs. cm256_decode lib k m sz (map (\<lambda>i. (i, code_packet lib k m sz blocks i)) idx) = Some bs \<and>
           fst ` set bs = {..<k} \<and> (\<forall>jb \<in> set bs. snd jb = blocks ! fst jb))))"

text \<open>The group sizes that the underlying library accepts; groups of one block are duplicated.\<close>

definition group_fits :: "RSWrapper \<Rightarrow> nat \<Rightarrow> bool" where
  "group_fits w g \<longleftrightarrow> group_real w g = 1 \<or>
     group_real w g < RS_FIELD_SIZE \<and> group_real w g + group_fec w g \<le> RS_FIELD_SIZE"

lemma rs_encode_or_dup_ok:
  assumes "0 < k" "k = 1 \<or> k < RS_FIELD_SIZE \<and> k + m \<le> RS_FIELD_SIZE" "length src = k"
  shows "rs_encode_or_dup lib k (k + m) src sz = Some (map (\<lambda>j. code_packet lib k m sz src (k + j)) [0..<m])"
  using assms
  by (auto simp: rs_encode_or_dup_def code_packet_def rs_implementation_to_use_def RS_FIELD_SIZE_def
      map_replicate_const)

lemma inj_full_index:
  assumes "plan_ok w" "g < num_groups w"
  shows "inj_on (full_index w g) {..<group_real w g + group_fec w g}"
  using full_index_inj [OF assms(1,2) _ assms(2)] by (auto simp: inj_on_def)

lemma encode_group_ok:
  assumes "plan_ok w" "g < num_groups w" "group_fits w g" "length dst = rs_num_fec_buffers w"
  shows "\<exists>dst'. encode_group lib w src sz g dst = Some dst' \<and> length dst' = length dst \<and>
    (\<forall>s. group_real w g \<le> s \<longrightarrow> s < group_real w g + group_fec w g \<longrightarrow>
       dst' ! (full_index w g s - rs_num_real_buffers w) =
         code_packet lib (group_real w g) (group_fec w g) sz (group_src w src g) s) \<and>
    (\<forall>i. (\<forall>s. group_real w g \<le> s \<longrightarrow> s < group_real w g + group_fec w g \<longrightarrow>
        i \<noteq> full_index w g s - rs_num_real_buffers w) \<longrightarrow> dst' ! i = dst ! i)"
proof -
  let ?k = "group_real w g" and ?m = "group_fec w g" and ?R = "rs_num_real_buffers w"
  define f where "f j = full_index w g (?k + j) - ?R" for j
  define bs where "bs = map (\<lambda>j. code_packet lib ?k ?m sz (group_src w src g) (?k + j)) [0..<?m]"
  note b = full_index_bounds [OF assms(1,2)]
  have k: "0 < ?k" using group_real_pos [OF assms(1,2)] .
  have src: "those (map (\<lambda>j. map_option (\<lambda>f. src ! f) (index_sub_to_full w g j)) [0..<?k]) =
      Some (group_src w src g)"
    unfolding group_src_def by (rule those_map_Some) (simp add: index_sub_to_full_eq assms(2))
  have places: "those (map (\<lambda>j. index_sub_to_full w g (?k + j)) [0..<?m]) =
      Some (map (\<lambda>j. full_index w g (?k + j)) [0..<?m])"
    by (rule those_map_Some) (simp add: index_sub_to_full_eq assms(2))
  have enc: "rs_encode_or_dup lib ?k (?k + ?m) (group_src w src g) sz = Some bs"
    unfolding bs_def using rs_encode_or_dup_ok [OF k, of ?m "group_src w src g" lib sz] assms(3)
    by (simp add: group_fits_def group_src_def)
  have "fold (\<lambda>(f, b) d. d[f - ?R := b]) (zip (map (\<lambda>j. full_index w g (?k + j)) [0..<?m]) bs) dst =
      fold (\<lambda>(f, b) d. d[f := b]) (zip (map f [0..<?m]) bs) dst"
    unfolding f_def by (simp add: zip_map1 fold_map comp_def split_def)
  then have run: "encode_group lib w src sz g dst =
      Some (fold (\<lambda>(f, b) d. d[f := b]) (zip (map f [0..<?m]) bs) dst)"
    by (simp add: encode_group_def src places enc Let_def)
  have fb: "f j < length dst" if "j < ?m" for j
    using b(2) [of "?k + j"] b(3) [of "?k + j"] that assms(4) unfolding f_def by auto
  have inj: "inj_on f {..<?m}"
  proof (rule inj_onI)
    fix x y assume xy: "x \<in> {..<?m}" "y \<in> {..<?m}" "f x = f y"
    then have "full_index w g (?k + x) = full_index w g (?k + y)"
      using b(2) [of "?k + x"] b(2) [of "?k + y"] by (simp add: f_def)
    with xy(1,2) full_index_inj [OF assms(1,2) _ assms(2), of "?k + x" "?k + y"] show "x = y" by auto
  qed
  note wr = fold_write_map [OF inj _ fb, of bs]
  have len: "?m \<le> length bs" by (simp add: bs_def)
  show ?thesis unfolding run
  proof (intro exI conjI allI impI)
    fix s assume s: "?k \<le> s" "s < ?k + ?m"
    then have "full_index w g s - ?R = f (s - ?k)" "s - ?k < ?m" by (auto simp: f_def)
    with wr(1) [OF len, of "s - ?k"] s
    show "fold (\<lambda>(f, b) d. d[f := b]) (zip (map f [0..<?m]) bs) dst ! (full_index w g s - ?R) =
        code_packet lib ?k ?m sz (group_src w src g) s"
      by (simp add: bs_def)
  next
    fix i assume "\<forall>s. ?k \<le> s \<longrightarrow> s < ?k + ?m \<longrightarrow> i \<noteq> full_index w g s - ?R"
    then have "i \<noteq> f j" if "j < ?m" for j using that by (simp add: f_def)
    with wr(2) [OF len] show "fold (\<lambda>(f, b) d. d[f := b]) (zip (map f [0..<?m]) bs) dst ! i = dst ! i"
      by blast
  qed auto
qed

text \<open>\<open>coded\<close>: the recovery packets of group \<open>g\<close> are in their places.\<close>

definition coded :: "rs_lib \<Rightarrow> RSWrapper \<Rightarrow> nat \<Rightarrow> byte list list \<Rightarrow> byte list list \<Rightarrow> nat \<Rightarrow> bool" where
  "coded lib w sz src dst g \<longleftrightarrow>
     (\<forall>s. group_real w g \<le> s \<longrightarrow> s < group_real w g + group_fec w g \<longrightarrow>
        dst ! (full_index w g s - rs_num_real_buffers w) =
          code_packet lib (group_real w g) (group_fec w g) sz (group_src w src g) s)"

lemma fec_places_disjoint:
  assumes "plan_ok w" "g < num_groups w" "h < num_groups w" "g \<noteq> h"
    and "group_real w g \<le> s" "s < group_real w g + group_fec w g"
    and "group_real w h \<le> t" "t < group_real w h + group_fec w h"
  shows "full_index w h t - rs_num_real_buffers w \<noteq> full_index w g s - rs_num_real_buffers w"
proof
  assume "full_index w h t - rs_num_real_buffers w = full_index w g s - rs_num_real_buffers w"
  then have "full_index w h t = full_index w g s"
    using full_index_bounds(2) [OF assms(1,2,5)] full_index_bounds(2) [OF assms(1,3,7)] by simp
  with full_index_inj [OF assms(1,3,8,2,6)] assms(4) show False by simp
qed

lemma encode_groups_ok:
  assumes "plan_ok w" "distinct gs" "\<forall>g \<in> set gs. g < num_groups w \<and> group_fits w g"
    and "length dst = rs_num_fec_buffers w"
  shows "\<exists>dst'. encode_groups lib w src sz gs dst = Some dst' \<and> length dst' = length dst \<and>
    (\<forall>g \<in> set gs. coded lib w sz src dst' g) \<and>
    (\<forall>h < num_groups w. h \<notin> set gs \<longrightarrow> coded lib w sz src dst h \<longrightarrow> coded lib w sz src dst' h)"
  using assms(2-4)
proof (induction gs arbitrary: dst)
  case (Cons g gs)
  have g: "g < num_groups w" "group_fits w g" "g \<notin> set gs" using Cons.prems by auto
  obtain d where d: "encode_group lib w src sz g dst = Some d" "length d = length dst"
    "coded lib w sz src d g"
    and other: "\<And>i. (\<forall>s. group_real w g \<le> s \<longrightarrow> s < group_real w g + group_fec w g \<longrightarrow>
        i \<noteq> full_index w g s - rs_num_real_buffers w) \<Longrightarrow> d ! i = dst ! i"
    using encode_group_ok [OF assms(1) g(1,2) Cons.prems(3), of lib src sz]
    unfolding coded_def by blast
  have keep: "coded lib w sz src d h" if "h < num_groups w" "h \<noteq> g" "coded lib w sz src dst h" for h
    unfolding coded_def
  proof (intro allI impI)
    fix t assume t: "group_real w h \<le> t" "t < group_real w h + group_fec w h"
    have "d ! (full_index w h t - rs_num_real_buffers w) = dst ! (full_index w h t - rs_num_real_buffers w)"
      using fec_places_disjoint [OF assms(1) g(1) that(1) _ _ _ t] that(2) by (intro other) blast
    with that(3) t show "d ! (full_index w h t - rs_num_real_buffers w) =
        code_packet lib (group_real w h) (group_fec w h) sz (group_src w src h) t"
      by (simp add: coded_def)
  qed
  have p: "distinct gs" "\<forall>g \<in> set gs. g < num_groups w \<and> group_fits w g" "length d = rs_num_fec_buffers w"
    using Cons.prems d(2) by auto
  obtain e where e: "encode_groups lib w src sz gs d = Some e" "length e = length d"
    "\<forall>g \<in> set gs. coded lib w sz src e g"
    "\<forall>h < num_groups w. h \<notin> set gs \<longrightarrow> coded lib w sz src d h \<longrightarrow> coded lib w sz src e h"
    using Cons.IH [OF p] by blast
  have "coded lib w sz src e g" using e(4) g(1,3) d(3) by blast
  with e d(1,2) keep show ?case by (intro exI [of _ e]) auto
qed auto

lemma full_index_one:
  assumes "plan_ok w" "num_groups w = 1"
  shows "group_real w 0 = rs_num_real_buffers w" "group_fec w 0 = rs_num_fec_buffers w"
    "full_index w 0 s = s"
proof -
  have "s < group_real w 0 \<longleftrightarrow> s < rs_num_real_buffers w"
    "s < group_fec w 0 \<longleftrightarrow> s < rs_num_fec_buffers w" for s
    using plan_okD [OF assms(1), of 0 s] assms(2) by auto
  then show r: "group_real w 0 = rs_num_real_buffers w" and "group_fec w 0 = rs_num_fec_buffers w"
    by (metis linorder_neqE_nat less_irrefl)+
  then show "full_index w 0 s = s" using assms(2) by (simp add: full_index_def)
qed

lemma rs_wrapper_encode_ok:
  assumes "plan_ok w" "\<forall>g < num_groups w. group_fits w g"
    and "length src = rs_num_real_buffers w" "length dst = rs_num_fec_buffers w"
  shows "\<exists>dst'. rs_wrapper_encode lib w src dst sz = Some dst' \<and> length dst' = rs_num_fec_buffers w \<and>
    (\<forall>g < num_groups w. coded lib w sz src dst' g)"
proof (cases "num_groups w = 1")
  case True
  note one = full_index_one [OF assms(1) True]
  let ?k = "rs_num_real_buffers w" and ?m = "rs_num_fec_buffers w"
  have src: "group_src w src 0 = src"
    unfolding group_src_def one by (rule nth_equalityI) (use assms(3) in auto)
  have "0 < ?k" using assms(1) True by (simp add: plan_ok_def)
  moreover have "?k = 1 \<or> ?k < RS_FIELD_SIZE \<and> ?k + ?m \<le> RS_FIELD_SIZE"
    using assms(2) True one by (auto simp: group_fits_def)
  ultimately have "rs_wrapper_encode lib w src dst sz =
      Some (map (\<lambda>j. code_packet lib ?k ?m sz src (?k + j)) [0..<?m])"
    using rs_encode_or_dup_ok [of ?k ?m src lib sz] assms(3) True one
    by (simp add: rs_wrapper_encode_def Let_def)
  then show ?thesis using True one src by (auto simp: coded_def)
next
  case False
  have "0 < num_groups w" using assms(1) by (simp add: plan_ok_def)
  with False encode_groups_ok [OF assms(1), of "[0..<num_groups w]" dst lib src sz] assms(2,4)
  show ?thesis by (auto simp: rs_wrapper_encode_def)
qed

section \<open>Decoding\<close>

definition grp :: "RSWrapper \<Rightarrow> nat \<Rightarrow> nat" where
  "grp w i = group_id (the (index_full_to_sub w i))"

definition sub_of :: "RSWrapper \<Rightarrow> nat \<Rightarrow> nat" where
  "sub_of w i = sub_index (the (index_full_to_sub w i))"

lemma grp_sub:
  assumes "plan_ok w" "i < rs_num_real_buffers w + rs_num_fec_buffers w"
  shows "index_full_to_sub w i = Some \<lparr>group_id = grp w i, sub_index = sub_of w i\<rparr>"
    "grp w i < num_groups w" "sub_of w i < group_real w (grp w i) + group_fec w (grp w i)"
    "full_index w (grp w i) (sub_of w i) = i" "sub_of w i < group_real w (grp w i) \<longleftrightarrow> i < rs_num_real_buffers w"
proof -
  obtain g s where gs: "g < num_groups w" "s < group_real w g + group_fec w g" "i = full_index w g s"
    "i < rs_num_real_buffers w \<longleftrightarrow> s < group_real w g"
    using full_index_surj [OF assms] by blast
  then have e: "index_full_to_sub w i = Some \<lparr>group_id = g, sub_index = s\<rparr>"
    using index_full_to_sub_full [OF assms(1) gs(1,2)] by simp
  then have "grp w i = g" "sub_of w i = s" by (simp_all add: grp_def sub_of_def)
  with e gs show "index_full_to_sub w i = Some \<lparr>group_id = grp w i, sub_index = sub_of w i\<rparr>"
    "grp w i < num_groups w" "sub_of w i < group_real w (grp w i) + group_fec w (grp w i)"
    "full_index w (grp w i) (sub_of w i) = i" "sub_of w i < group_real w (grp w i) \<longleftrightarrow> i < rs_num_real_buffers w"
    by simp_all
qed

text \<open>How many of the packets \<open>idxs\<close> belong to group \<open>g\<close>, and the positions of those.\<close>

definition count_in :: "RSWrapper \<Rightarrow> nat list \<Rightarrow> nat \<Rightarrow> nat" where
  "count_in w idxs g = length (filter (\<lambda>i. grp w i = g) idxs)"

definition members :: "RSWrapper \<Rightarrow> nat list \<Rightarrow> nat \<Rightarrow> nat \<Rightarrow> nat list" where
  "members w index n g = filter (\<lambda>i. grp w (index ! i) = g) [0..<n]"

lemma length_members:
  "n \<le> length idxs \<Longrightarrow> length (members w idxs n g) = count_in w (take n idxs) g"
proof (induction n)
  case (Suc n)
  then have "take (Suc n) idxs = take n idxs @ [idxs ! n]" by (simp add: take_Suc_conv_app_nth)
  with Suc show ?case by (simp add: members_def count_in_def)
qed (simp add: members_def count_in_def)

lemma sum_count_in:
  assumes "plan_ok w" "set idxs \<subseteq> {..<rs_num_real_buffers w + rs_num_fec_buffers w}"
  shows "(\<Sum>g < num_groups w. count_in w idxs g) = length idxs"
  using assms(2)
proof (induction idxs)
  case (Cons i idxs)
  then have "grp w i < num_groups w" using grp_sub(2) [OF assms(1)] by simp
  then have "(\<Sum>g < num_groups w. if grp w i = g then 1 else 0 :: nat) = 1" by simp
  moreover have "count_in w (i # idxs) g = count_in w idxs g + (if grp w i = g then 1 else 0)" for g
    by (simp add: count_in_def)
  ultimately show ?case using Cons by (simp add: sum.distrib)
qed (simp add: count_in_def)

lemma count_in_card: "distinct xs \<Longrightarrow> count_in w xs g = card {i \<in> set xs. grp w i = g}"
  by (metis count_in_def distinct_card distinct_filter set_filter)

lemma count_in_real:
  assumes "plan_ok w" "g < num_groups w"
  shows "count_in w [0..<rs_num_real_buffers w] g = group_real w g"
proof -
  let ?R = "rs_num_real_buffers w"
  have "{i. i < ?R \<and> grp w i = g} = full_index w g ` {..<group_real w g}"
  proof (intro set_eqI iffI)
    fix i assume "i \<in> {i. i < ?R \<and> grp w i = g}"
    then have i: "i < ?R" "grp w i = g" by auto
    note gs = grp_sub [OF assms(1) trans_less_add1 [OF i(1)]]
    have "sub_of w i \<in> {..<group_real w g}" using gs(5) i by simp
    moreover have "i = full_index w g (sub_of w i)" using gs(4) i(2) by simp
    ultimately show "i \<in> full_index w g ` {..<group_real w g}" by (rule rev_image_eqI)
  next
    fix i assume "i \<in> full_index w g ` {..<group_real w g}"
    then obtain s where s: "s < group_real w g" "i = full_index w g s" by auto
    then show "i \<in> {i. i < ?R \<and> grp w i = g}"
      using full_index_bounds(1) [OF assms s(1)] index_full_to_sub_full [OF assms, of s] by (simp add: grp_def)
  qed
  moreover have "inj_on (full_index w g) {..<group_real w g}"
    using inj_full_index [OF assms] by (rule inj_on_subset) auto
  ultimately have "card {i. i < ?R \<and> grp w i = g} = group_real w g" by (simp add: card_image)
  moreover have "count_in w [0..<?R] g = card {i. i < ?R \<and> grp w i = g}"
    by (simp add: count_in_card)
  ultimately show ?thesis by simp
qed

lemma count_in_mono:
  assumes "distinct xs" "set xs \<subseteq> set ys"
  shows "count_in w xs g \<le> count_in w ys g"
proof -
  have "count_in w xs g = card {i \<in> set xs. grp w i = g}"
    using assms(1) by (rule count_in_card)
  also have "\<dots> \<le> card {i \<in> set ys. grp w i = g}" using assms(2) by (intro card_mono) auto
  also have "\<dots> \<le> count_in w ys g" unfolding count_in_def by (metis card_length set_filter)
  finally show ?thesis .
qed

lemma group_indices:
  assumes "plan_ok w" "g < num_groups w"
  shows "{i. i < rs_num_real_buffers w + rs_num_fec_buffers w \<and> grp w i = g} =
    full_index w g ` {..<group_real w g + group_fec w g}"
proof (intro set_eqI iffI)
  fix i assume "i \<in> {i. i < rs_num_real_buffers w + rs_num_fec_buffers w \<and> grp w i = g}"
  then have i: "i < rs_num_real_buffers w + rs_num_fec_buffers w" "grp w i = g" by auto
  note gs = grp_sub [OF assms(1) i(1)]
  have "sub_of w i \<in> {..<group_real w g + group_fec w g}" "i = full_index w g (sub_of w i)"
    using gs(3,4) i(2) by auto
  then show "i \<in> full_index w g ` {..<group_real w g + group_fec w g}" by (rule rev_image_eqI)
next
  fix i assume "i \<in> full_index w g ` {..<group_real w g + group_fec w g}"
  then obtain s where s: "s < group_real w g + group_fec w g" "i = full_index w g s" by auto
  then show "i \<in> {i. i < rs_num_real_buffers w + rs_num_fec_buffers w \<and> grp w i = g}"
    using full_index_bounds(3) [OF assms s(1)] index_full_to_sub_full [OF assms s(1)]
    by (simp add: grp_def)
qed

lemma count_in_all:
  assumes "plan_ok w" "g < num_groups w"
  shows "count_in w [0..<rs_num_real_buffers w + rs_num_fec_buffers w] g = group_real w g + group_fec w g"
proof -
  let ?N = "rs_num_real_buffers w + rs_num_fec_buffers w"
  have "count_in w [0..<?N] g = card {i. i < ?N \<and> grp w i = g}"
    by (simp add: count_in_card)
  also have "\<dots> = group_real w g + group_fec w g"
    unfolding group_indices [OF assms] by (simp add: card_image [OF inj_full_index [OF assms]])
  finally show ?thesis .
qed

lemma sum_group_sizes:
  assumes "plan_ok w"
  shows "(\<Sum>g < num_groups w. group_real w g) = rs_num_real_buffers w"
    "(\<Sum>g < num_groups w. group_fec w g) = rs_num_fec_buffers w"
proof -
  let ?N = "rs_num_real_buffers w + rs_num_fec_buffers w"
  have "set [0..<rs_num_real_buffers w] \<subseteq> {..<?N}" by auto
  from sum_count_in [OF assms this]
  show r: "(\<Sum>g < num_groups w. group_real w g) = rs_num_real_buffers w"
    using count_in_real [OF assms] by simp
  have "set [0..<?N] \<subseteq> {..<?N}" by auto
  from sum_count_in [OF assms this]
  have "(\<Sum>g < num_groups w. group_real w g + group_fec w g) = ?N" using count_in_all [OF assms] by simp
  with r show "(\<Sum>g < num_groups w. group_fec w g) = rs_num_fec_buffers w" by (simp add: sum.distrib)
qed

text \<open>Packets beyond what their groups need are fewer than the recovery packets, as long as one
  more packet of a full group is to come.\<close>

lemma surplus_bound:
  assumes "plan_ok w" "distinct (xs @ [i])" "set (xs @ [i]) \<subseteq> {..<rs_num_real_buffers w + rs_num_fec_buffers w}"
    and "group_real w (grp w i) \<le> count_in w xs (grp w i)"
  shows "(\<Sum>g < num_groups w. count_in w xs g - group_real w g) < rs_num_fec_buffers w"
proof -
  let ?N = "rs_num_real_buffers w + rs_num_fec_buffers w" and ?g = "grp w i"
  have "i < ?N" using assms(3) by simp
  note gs = grp_sub [OF assms(1) this]
  have le: "count_in w (xs @ [i]) g \<le> group_real w g + group_fec w g" if "g < num_groups w" for g
    using count_in_mono [OF assms(2), of "[0..<?N]" w g] assms(3) count_in_all [OF assms(1) that]
    by (auto simp: subset_iff)
  have cnt: "count_in w (xs @ [i]) g = count_in w xs g + (if ?g = g then 1 else 0)" for g
    by (simp add: count_in_def)
  have "(\<Sum>g < num_groups w. count_in w xs g - group_real w g) < (\<Sum>g < num_groups w. group_fec w g)"
  proof (rule sum_strict_mono_ex1)
    show "\<forall>g \<in> {..<num_groups w}. count_in w xs g - group_real w g \<le> group_fec w g"
    proof
      fix g assume "g \<in> {..<num_groups w}"
      then have "count_in w (xs @ [i]) g \<le> group_real w g + group_fec w g" using le by simp
      then show "count_in w xs g - group_real w g \<le> group_fec w g" unfolding cnt by simp
    qed
    show "\<exists>g \<in> {..<num_groups w}. count_in w xs g - group_real w g < group_fec w g"
      using le [OF gs(2)] cnt [of ?g] gs(2) assms(4) by (intro bexI [of _ ?g]) auto
  qed simp
  then show ?thesis using sum_group_sizes(2) [OF assms(1)] by simp
qed

lemma cm256_recoversD:
  assumes "cm256_recovers lib k m sz" "length blocks = k" "\<forall>b \<in> set blocks. length b = sz"
    and "length idx = k" "distinct idx" "set idx \<subseteq> {..<k + m}"
  shows "\<exists>bs. cm256_decode lib k m sz (map (\<lambda>i. (i, code_packet lib k m sz blocks i)) idx) = Some bs \<and>
    fst ` set bs = {..<k} \<and> (\<forall>jb \<in> set bs. snd jb = blocks ! fst jb)"
  using assms unfolding cm256_recovers_def by simp

text \<open>One group: any \<open>k\<close> of its packets give back its originals.\<close>

lemma rs_decode_or_dedup_ok:
  assumes k: "0 < k" "k = 1 \<or> k < RS_FIELD_SIZE \<and> k + m \<le> RS_FIELD_SIZE"
    and rec: "k \<noteq> 1 \<Longrightarrow> cm256_recovers lib k m sz"
    and bl: "length blocks = k" "\<forall>b \<in> set blocks. length b = sz"
    and idx: "k \<le> length idx" "distinct (take k idx)" "set (take k idx) \<subseteq> {..<k + m}"
    and pkt: "k \<le> length pkt" "\<And>i. i < k \<Longrightarrow> pkt ! i = code_packet lib k m sz blocks (idx ! i)"
  shows "\<exists>r. rs_decode_or_dedup lib k (k + m) pkt idx sz = Some r \<and> length r = length pkt \<and>
    take k r = blocks"
proof (cases "k = 1")
  case True
  then obtain b where b: "blocks = [b]" "length b = sz"
    using bl by (auto simp: length_Suc_conv)
  then have "pkt ! 0 = b"
    using pkt(2) [of 0] True by (auto simp: code_packet_def mem_read_def split: if_splits)
  then have "take k pkt = blocks" using True b(1) pkt(1) by (cases pkt) auto
  then show ?thesis
    using True by (simp add: rs_decode_or_dedup_def RS_FIELD_SIZE_def)
next
  case False
  have in_blocks: "map (\<lambda>i. (idx ! i, pkt ! i)) [0..<k] =
      map (\<lambda>i. (i, code_packet lib k m sz blocks i)) (take k idx)"
    using idx(1) pkt(2) by (intro nth_equalityI) auto
  have lt: "length (take k idx) = k" using idx(1) by simp
  obtain bs where bs: "cm256_decode lib k m sz (map (\<lambda>i. (idx ! i, pkt ! i)) [0..<k]) = Some bs"
    "fst ` set bs = {..<k}" "\<And>jb. jb \<in> set bs \<Longrightarrow> snd jb = blocks ! fst jb"
    using cm256_recoversD [OF rec [OF False] bl lt idx(2,3)] unfolding in_blocks by auto
  let ?r = "fold (\<lambda>(i, b) p. p[i := b]) bs pkt"
  have "?r ! j = blocks ! j" if "j < k" for j
  proof (rule fold_write_same)
    have "j \<in> fst ` set bs" using bs(2) that by simp
    then obtain b where "(j, b) \<in> set bs" by auto
    with bs(3) [of "(j, b)"] show "(j, blocks ! j) \<in> set bs" by simp
    show "b' = blocks ! j" if "(j, b') \<in> set bs" for b' using bs(3) [OF that] by simp
    show "j < length pkt" using that pkt(1) by simp
  qed
  then have "take k ?r = blocks" using bl(1) pkt(1) by (intro nth_equalityI) auto
  moreover have "rs_decode_or_dedup lib k (k + m) pkt idx sz = Some ?r"
    using k False bs(1) by (simp add: rs_decode_or_dedup_def rs_implementation_to_use_def)
  ultimately show ?thesis by simp
qed

lemma members_Suc [simp]:
  "members w index (Suc n) g = members w index n g @ (if grp w (index ! n) = g then [n] else [])"
  by (simp add: members_def)

lemma plan_loop_append:
  "plan_loop w c index (xs @ ys) p = Option.bind (plan_loop w c index xs p) (plan_loop w c index ys)"
  by (induction xs arbitrary: p) (auto split: bind_split)

lemma plan_loop_ok:
  assumes "plan_ok w" "distinct index" "set index \<subseteq> {..<rs_num_real_buffers w + rs_num_fec_buffers w}"
    and "length pkt = rs_num_real_buffers w + rs_num_fec_buffers w" "n \<le> length index"
  shows "\<exists>p. plan_loop w c index [0..<n]
      \<lparr>subgroup_offsets = replicate (num_groups w) [], unused_cnt = 0, plan_pkt = pkt\<rparr> = Some p \<and>
    length (plan_pkt p) = length pkt \<and> length (subgroup_offsets p) = num_groups w \<and>
    (\<forall>g < num_groups w. subgroup_offsets p ! g = take (group_real w g) (members w index n g)) \<and>
    unused_cnt p = (\<Sum>g < num_groups w. count_in w (take n index) g - group_real w g)"
  using assms(5)
proof (induction n)
  case 0
  show ?case by (simp add: members_def count_in_def)
next
  case (Suc n)
  then obtain p where p: "plan_loop w c index [0..<n]
      \<lparr>subgroup_offsets = replicate (num_groups w) [], unused_cnt = 0, plan_pkt = pkt\<rparr> = Some p"
    "length (plan_pkt p) = length pkt" "length (subgroup_offsets p) = num_groups w"
    "\<forall>g < num_groups w. subgroup_offsets p ! g = take (group_real w g) (members w index n g)"
    "unused_cnt p = (\<Sum>g < num_groups w. count_in w (take n index) g - group_real w g)" by auto
  have nl: "n < length index" using Suc.prems by simp
  have tk: "take (Suc n) index = take n index @ [index ! n]" using nl by (simp add: take_Suc_conv_app_nth)
  have dist: "distinct (take n index @ [index ! n])" using assms(2) tk distinct_take [of index "Suc n"] by simp
  have sub: "set (take n index @ [index ! n]) \<subseteq> {..<rs_num_real_buffers w + rs_num_fec_buffers w}"
    using assms(3) set_take_subset [of "Suc n" index] unfolding tk by blast
  then have "index ! n < rs_num_real_buffers w + rs_num_fec_buffers w" by simp
  note gs = grp_sub [OF assms(1) this]
  let ?g = "grp w (index ! n)"
  have lm: "length (members w index n g) = count_in w (take n index) g" for g
    using nl by (simp add: length_members)
  have cnt: "count_in w (take (Suc n) index) g = count_in w (take n index) g + (if g = ?g then 1 else 0)" for g
    unfolding tk by (simp add: count_in_def)
  obtain q where q: "plan_step w c index n p = Some q" "length (plan_pkt q) = length pkt"
    "length (subgroup_offsets q) = num_groups w"
    "\<forall>g < num_groups w. subgroup_offsets q ! g = take (group_real w g) (members w index (Suc n) g)"
    "unused_cnt q = (\<Sum>g < num_groups w. count_in w (take (Suc n) index) g - group_real w g)"
  proof (cases "length (subgroup_offsets p ! ?g) = group_real w ?g")
    case True
    then have full: "group_real w ?g \<le> count_in w (take n index) ?g" using p(4) gs(2) lm by simp
    have fits: "rs_num_real_buffers w + unused_cnt p < length (plan_pkt p)"
      using surplus_bound [OF assms(1) dist sub full] p(2,5) assms(4) by simp
    have "(\<Sum>g < num_groups w. count_in w (take (Suc n) index) g - group_real w g) =
        (\<Sum>g < num_groups w. (count_in w (take n index) g - group_real w g) + (if g = ?g then 1 else 0))"
      using full by (intro sum.cong) (auto simp: cnt)
    also have "\<dots> = Suc (unused_cnt p)" using p(5) gs(2) by (simp add: sum.distrib)
    finally show ?thesis
      using that [of "p\<lparr>plan_pkt := (plan_pkt p)[rs_num_real_buffers w + unused_cnt p := c ! n],
            unused_cnt := unused_cnt p + 1\<rparr>"] True full fits p(2-4) gs lm
      by (auto simp: plan_step_def Let_def)
  next
    case False
    then have room: "count_in w (take n index) ?g < group_real w ?g"
      using p(4) gs(2) lm by (auto simp: min_def split: if_splits)
    have "(\<Sum>g < num_groups w. count_in w (take (Suc n) index) g - group_real w g) = unused_cnt p"
      unfolding p(5) using room by (intro sum.cong) (auto simp: cnt)
    then show ?thesis
      using that [of "p\<lparr>subgroup_offsets := (subgroup_offsets p)[?g := subgroup_offsets p ! ?g @ [n]]\<rparr>"]
        False room p(2-4) gs lm
      by (auto simp: plan_step_def Let_def nth_list_update)
  qed
  then show ?case using p(1) by (simp add: plan_loop_append)
qed

text \<open>What the receiver has: distinct packets of the encoded frame, at least \<open>k\<close> of every group.\<close>

definition received :: "rs_lib \<Rightarrow> RSWrapper \<Rightarrow> nat \<Rightarrow> byte list list \<Rightarrow> byte list list \<Rightarrow> byte list list \<Rightarrow> nat list \<Rightarrow> bool" where
  "received lib w sz src dst pkt index \<longleftrightarrow> distinct index \<and>
     set index \<subseteq> {..<rs_num_real_buffers w + rs_num_fec_buffers w} \<and>
     length index \<le> length pkt \<and> length pkt = rs_num_real_buffers w + rs_num_fec_buffers w \<and>
     (\<forall>i < length index. pkt ! i = (src @ dst) ! (index ! i)) \<and>
     (\<forall>g < num_groups w. group_real w g \<le> length (members w index (length index) g))"

text \<open>The code behaves as documented for the groups of this frame, and the groups are within limits.\<close>

definition codec_ok :: "rs_lib \<Rightarrow> RSWrapper \<Rightarrow> nat \<Rightarrow> bool" where
  "codec_ok lib w sz \<longleftrightarrow> (\<forall>g < num_groups w. group_fits w g \<and>
     (group_real w g \<noteq> 1 \<longrightarrow> cm256_recovers lib (group_real w g) (group_fec w g) sz))"

lemma frame_packet:
  assumes "plan_ok w" "length src = rs_num_real_buffers w" "\<forall>g < num_groups w. coded lib w sz src dst g"
    and "i < rs_num_real_buffers w + rs_num_fec_buffers w" "g = grp w i"
  shows "(src @ dst) ! i = code_packet lib (group_real w g) (group_fec w g) sz (group_src w src g) (sub_of w i)"
proof -
  note gs = grp_sub [OF assms(1,4)]
  show ?thesis
  proof (cases "i < rs_num_real_buffers w")
    case True
    then show ?thesis using gs assms(2,5) by (simp add: nth_append code_packet_def group_src_def)
  next
    case False
    then have "dst ! (i - rs_num_real_buffers w) =
        code_packet lib (group_real w g) (group_fec w g) sz (group_src w src g) (sub_of w i)"
      using assms(3,5) gs unfolding coded_def by (metis not_less)
    with False show ?thesis using assms(2) by (simp add: nth_append)
  qed
qed

lemma group_src_lengths:
  assumes "plan_ok w" "g < num_groups w" "length src = rs_num_real_buffers w" "\<forall>b \<in> set src. length b = sz"
  shows "length (group_src w src g) = group_real w g" "\<forall>b \<in> set (group_src w src g). length b = sz"
  using full_index_bounds(1) [OF assms(1,2)] assms(3,4) by (auto simp: group_src_def)

lemma decode_group_ok:
  assumes w: "plan_ok w" and lib: "codec_ok lib w sz"
    and src: "length src = rs_num_real_buffers w" "\<forall>b \<in> set src. length b = sz"
    and dst: "\<forall>g < num_groups w. coded lib w sz src dst g"
    and rcv: "received lib w sz src dst pkt index" and g: "g < num_groups w"
    and off: "offs ! g = take (group_real w g) (members w index (length index) g)"
    and cur: "length cur = length pkt"
  shows "\<exists>r. decode_group lib w (take (length index) pkt) index offs sz g cur = Some r \<and>
    length r = length cur \<and> (\<forall>j < group_real w g. r ! full_index w g j = src ! full_index w g j) \<and>
    (\<forall>i. (\<forall>j < group_real w g. i \<noteq> full_index w g j) \<longrightarrow> r ! i = cur ! i)"
proof -
  let ?k = "group_real w g" and ?m = "group_fec w g" and ?n = "length index"
  let ?o = "take ?k (members w index ?n g)"
  have rc: "distinct index" "set index \<subseteq> {..<rs_num_real_buffers w + rs_num_fec_buffers w}"
    "rs_num_real_buffers w \<le> length pkt" "\<And>i. i < ?n \<Longrightarrow> pkt ! i = (src @ dst) ! (index ! i)"
    "?k \<le> length (members w index ?n g)" "?n \<le> length pkt"
    using rcv g by (auto simp: received_def)
  have mem: "i < ?n" "grp w (index ! i) = g" if "i \<in> set ?o" for i
    using in_set_takeD [OF that] by (auto simp: members_def)
  have dom: "index ! i < rs_num_real_buffers w + rs_num_fec_buffers w" if "i < ?n" for i
    using rc(2) nth_mem [OF that] by blast
  let ?sub = "map (\<lambda>i. sub_of w (index ! i)) ?o" and ?ps = "map (\<lambda>i. take ?n pkt ! i) ?o"
  have len: "length ?o = ?k" using rc(5) by simp
  have dist: "distinct ?sub"
  proof -
    have "inj_on (\<lambda>i. sub_of w (index ! i)) (set ?o)"
    proof (rule inj_onI)
      fix x y assume xy: "x \<in> set ?o" "y \<in> set ?o" "sub_of w (index ! x) = sub_of w (index ! y)"
      then have "index ! x = index ! y"
        using grp_sub(4) [OF w dom [OF mem(1)]] mem(2) by metis
      then show "x = y" using rc(1) mem(1) xy by (simp add: nth_eq_iff_index_eq)
    qed
    then show ?thesis by (simp add: distinct_map members_def)
  qed
  have fit: "?k = 1 \<or> ?k < RS_FIELD_SIZE \<and> ?k + ?m \<le> RS_FIELD_SIZE"
    and rec: "?k \<noteq> 1 \<Longrightarrow> cm256_recovers lib ?k ?m sz"
    using lib g by (auto simp: codec_ok_def group_fits_def)
  have sub: "set ?sub \<subseteq> {..<?k + ?m}"
    using grp_sub(3) [OF w dom [OF mem(1)]] mem(2) by fastforce
  have pk: "?ps ! i = code_packet lib ?k ?m sz (group_src w src g) (?sub ! i)" if "i < ?k" for i
  proof -
    have "?o ! i \<in> set ?o" using that len by (metis nth_mem)
    note mi = mem [OF this]
    have "?ps ! i = (src @ dst) ! (index ! (?o ! i))" using that len rc(4) mi(1) by simp
    with frame_packet [OF w src(1) dst dom [OF mi(1)]] mi(2) that len show ?thesis by simp
  qed
  note gl = group_src_lengths [OF w g src]
  have "\<exists>r. rs_decode_or_dedup lib ?k (?k + ?m) ?ps ?sub sz = Some r \<and> length r = length ?ps \<and>
      take ?k r = group_src w src g"
    by (rule rs_decode_or_dedup_ok [OF group_real_pos [OF w g] fit rec gl])
      (use len dist sub pk in \<open>auto simp: min_absorb1\<close>)
  then obtain bs where bs: "rs_decode_or_dedup lib ?k (?k + ?m) ?ps ?sub sz = Some bs"
    "take ?k bs = group_src w src g" "length bs = ?k" using len by auto
  have infos: "those (map (\<lambda>i. index_full_to_sub w (index ! i)) ?o) =
      Some (map (\<lambda>i. \<lparr>group_id = grp w (index ! i), sub_index = sub_of w (index ! i)\<rparr>) ?o)"
    by (rule those_map_Some) (use grp_sub(1) [OF w dom [OF mem(1)]] in auto)
  have places: "those (map (\<lambda>j. index_sub_to_full w g j) [0..<?k]) = Some (map (full_index w g) [0..<?k])"
    by (rule those_map_Some) (simp add: index_sub_to_full_eq g)
  have run: "decode_group lib w (take ?n pkt) index offs sz g cur =
      Some (fold (\<lambda>(f, b) p. p[f := b]) (zip (map (full_index w g) [0..<?k]) bs) cur)"
    using mem(2) bs(1) len
    by (auto simp: decode_group_def off infos places Let_def comp_def)
  have inj: "inj_on (full_index w g) {..<?k}"
    using inj_full_index [OF w g] by (rule inj_on_subset) auto
  have bound: "full_index w g j < length cur" if "j < ?k" for j
    using full_index_bounds(1) [OF w g that] rc(3) cur by simp
  note wr = fold_write_map [OF inj _ bound, of bs]
  have "bs = group_src w src g" using bs(2,3) by simp
  then show ?thesis unfolding run using wr bs(3) by (auto simp: group_src_def)
qed

lemma decode_groups_ok:
  assumes w: "plan_ok w" and lib: "codec_ok lib w sz"
    and src: "length src = rs_num_real_buffers w" "\<forall>b \<in> set src. length b = sz"
    and dst: "\<forall>g < num_groups w. coded lib w sz src dst g"
    and rcv: "received lib w sz src dst pkt index"
    and off: "\<forall>g < num_groups w. offs ! g = take (group_real w g) (members w index (length index) g)"
    and cur: "length cur = length pkt" and gs: "distinct gs" "\<forall>g \<in> set gs. g < num_groups w"
  shows "\<exists>r. decode_groups lib w (take (length index) pkt) index offs sz gs cur = Some r \<and>
    length r = length cur \<and>
    (\<forall>g \<in> set gs. \<forall>j < group_real w g. r ! full_index w g j = src ! full_index w g j) \<and>
    (\<forall>i. (\<forall>g \<in> set gs. \<forall>j < group_real w g. i \<noteq> full_index w g j) \<longrightarrow> r ! i = cur ! i)"
  using cur gs
proof (induction gs arbitrary: cur)
  case (Cons g gs)
  have g: "g < num_groups w" "g \<notin> set gs" and offg: "offs ! g = take (group_real w g) (members w index (length index) g)"
    using Cons.prems off by auto
  obtain d where d: "decode_group lib w (take (length index) pkt) index offs sz g cur = Some d"
    "length d = length cur" "\<forall>j < group_real w g. d ! full_index w g j = src ! full_index w g j"
    "\<forall>i. (\<forall>j < group_real w g. i \<noteq> full_index w g j) \<longrightarrow> d ! i = cur ! i"
    using decode_group_ok [OF w lib src dst rcv g(1) offg Cons.prems(1)] by blast
  have "length d = length pkt" "distinct gs" "\<forall>g \<in> set gs. g < num_groups w" using Cons.prems d(2) by auto
  from Cons.IH [OF this] obtain r where
    r: "decode_groups lib w (take (length index) pkt) index offs sz gs d = Some r" "length r = length d"
    "\<forall>g \<in> set gs. \<forall>j < group_real w g. r ! full_index w g j = src ! full_index w g j"
    "\<forall>i. (\<forall>g \<in> set gs. \<forall>j < group_real w g. i \<noteq> full_index w g j) \<longrightarrow> r ! i = d ! i" by blast
  have "r ! full_index w g j = src ! full_index w g j" if "j < group_real w g" for j
  proof -
    have "full_index w g j \<noteq> full_index w h t" if "h \<in> set gs" "t < group_real w h" for h t
      using full_index_inj [OF w g(1) _ , of j h t] that Cons.prems(3) g(2) \<open>j < group_real w g\<close> by auto
    with r(4) d(3) that show ?thesis by simp
  qed
  with r d show ?case by (intro exI [of _ r]) auto
qed auto

lemma rs_wrapper_decode_ok:
  assumes w: "plan_ok w" and lib: "codec_ok lib w sz"
    and src: "length src = rs_num_real_buffers w" "\<forall>b \<in> set src. length b = sz"
    and dst: "\<forall>g < num_groups w. coded lib w sz src dst g"
    and rcv: "received lib w sz src dst pkt index"
  shows "\<exists>r. rs_wrapper_decode lib w pkt index (length index) sz = Some r \<and>
    length r = length pkt \<and> take (rs_num_real_buffers w) r = src"
proof (cases "num_groups w = 1")
  case True
  note one = full_index_one [OF w True]
  let ?k = "rs_num_real_buffers w" and ?m = "rs_num_fec_buffers w"
  have gsrc: "group_src w src 0 = src"
    unfolding group_src_def one by (rule nth_equalityI) (use src(1) in auto)
  have rc: "distinct index" "set index \<subseteq> {..<?k + ?m}" "?k \<le> length pkt"
    "\<And>i. i < length index \<Longrightarrow> pkt ! i = (src @ dst) ! (index ! i)"
    and enough: "?k \<le> length (members w index (length index) 0)"
    using rcv True one by (auto simp: received_def)
  have k: "?k \<le> length index"
    using enough unfolding members_def by (metis diff_zero le_trans length_filter_le length_upt)
  have gs: "grp w i = 0" "sub_of w i = i" if "i < ?k + ?m" for i
    using grp_sub(2,4) [OF w that] True one(3) by simp_all
  have pk: "pkt ! i = code_packet lib ?k ?m sz src (index ! i)" if "i < ?k" for i
  proof -
    have "i < length index" using that k by simp
    then have "index ! i \<in> set index" and p: "pkt ! i = (src @ dst) ! (index ! i)"
      using rc(4) by simp_all
    then have i: "index ! i < ?k + ?m" using rc(2) by blast
    from frame_packet [OF w src(1) dst i gs(1) [OF i, symmetric]] show ?thesis
      unfolding p one gsrc gs(2) [OF i] .
  qed
  have pos: "0 < ?k" using w by (auto simp: plan_ok_def)
  have fit: "?k = 1 \<or> ?k < RS_FIELD_SIZE \<and> ?k + ?m \<le> RS_FIELD_SIZE"
    and rec: "?k \<noteq> 1 \<Longrightarrow> cm256_recovers lib ?k ?m sz"
    using lib True one by (auto simp: codec_ok_def group_fits_def)
  have "set (take ?k index) \<subseteq> {..<?k + ?m}" using rc(2) by (meson order_trans set_take_subset)
  from rs_decode_or_dedup_ok [OF pos fit rec src k distinct_take [OF rc(1)] this rc(3) pk]
  show ?thesis using True one by (simp add: rs_wrapper_decode_def Let_def)
next
  case False
  let ?R = "rs_num_real_buffers w"
  have pos: "0 < num_groups w" using w by (simp add: plan_ok_def)
  have "distinct index" "set index \<subseteq> {..<?R + rs_num_fec_buffers w}"
    "length pkt = ?R + rs_num_fec_buffers w" using rcv by (auto simp: received_def)
  from plan_loop_ok [OF w this order_refl, of "take (length index) pkt"] obtain p where
    p: "plan_loop w (take (length index) pkt) index [0..<length index]
      \<lparr>subgroup_offsets = replicate (num_groups w) [], unused_cnt = 0, plan_pkt = pkt\<rparr> = Some p"
    "length (plan_pkt p) = length pkt"
    "\<forall>g < num_groups w. subgroup_offsets p ! g = take (group_real w g) (members w index (length index) g)"
    by blast
  obtain r where r: "decode_groups lib w (take (length index) pkt) index (subgroup_offsets p) sz
      [0..<num_groups w] (plan_pkt p) = Some r" "length r = length pkt"
    "\<And>g j. g < num_groups w \<Longrightarrow> j < group_real w g \<Longrightarrow> r ! full_index w g j = src ! full_index w g j"
    using decode_groups_ok [OF w lib src dst rcv p(3,2), of "[0..<num_groups w]"] p(2) by auto
  have R: "?R \<le> length pkt" using rcv by (simp add: received_def)
  have "r ! i = src ! i" if i: "i < ?R" for i
  proof -
    obtain g s where "g < num_groups w" "i = full_index w g s" "s < group_real w g"
      using full_index_surj [OF w trans_less_add1 [OF i]] i by blast
    with r(3) show ?thesis by simp
  qed
  then have "take ?R r = src" using src(1) r(2) R by (intro nth_equalityI) auto
  moreover have "rs_wrapper_decode lib w pkt index (length index) sz = Some r"
    using False pos p(1) r(1) by (simp add: rs_wrapper_decode_def)
  ultimately show ?thesis using r(2) by simp
qed

section \<open>Counting what has arrived\<close>

text \<open>The counters after the packets \<open>idxs\<close> were registered.\<close>

definition registered :: "RSWrapper \<Rightarrow> nat list \<Rightarrow> bool" where
  "registered w idxs \<longleftrightarrow> plan_ok w \<and>
     (\<forall>g < num_groups w. g_num_buffers_registered (group_infos w ! g) = count_in w idxs g) \<and>
     num_pending_groups w = int (card {g. g < num_groups w \<and> count_in w idxs g < group_real w g})"

text \<open>Registering changes counters only.\<close>

definition same_plan :: "RSWrapper \<Rightarrow> RSWrapper \<Rightarrow> bool" where
  "same_plan w w' \<longleftrightarrow> num_groups w' = num_groups w \<and> rs_num_real_buffers w' = rs_num_real_buffers w \<and>
     rs_num_fec_buffers w' = rs_num_fec_buffers w \<and> length (group_infos w') = length (group_infos w) \<and>
     (\<forall>g < num_groups w. group_real w' g = group_real w g \<and> group_fec w' g = group_fec w g)"

lemma same_plan_transfer:
  assumes "same_plan w w'" "plan_ok w"
  shows "plan_ok w'" "index_full_to_sub w' = index_full_to_sub w" "grp w' = grp w"
proof -
  show "plan_ok w'" using assms by (simp add: same_plan_def plan_ok_def)
  show eq: "index_full_to_sub w' = index_full_to_sub w"
    using assms by (auto simp: same_plan_def plan_ok_def index_full_to_sub_def Let_def fun_eq_iff)
  then show "grp w' = grp w" by (simp add: grp_def fun_eq_iff)
qed

lemma register_ok:
  assumes "registered w idxs" "i < rs_num_real_buffers w + rs_num_fec_buffers w"
  shows "\<exists>w'. rs_wrapper_decode_helper_register_index w i = Some w' \<and> registered w' (i # idxs) \<and>
    same_plan w w'"
proof -
  have ok: "plan_ok w" using assms(1) by (simp add: registered_def)
  note gs = grp_sub [OF ok assms(2)]
  let ?g = "grp w i" and ?P = "\<lambda>xs. {g. g < num_groups w \<and> count_in w xs g < group_real w g}"
  have len: "length (group_infos w) = num_groups w" using ok by (simp add: plan_ok_def)
  define gi where "gi = (group_infos w ! ?g)\<lparr>g_num_buffers_registered := count_in w (i # idxs) ?g\<rparr>"
  define v where "v = w\<lparr>group_infos := (group_infos w)[?g := gi]\<rparr>"
  have cnt: "count_in w (i # idxs) g = (if g = ?g then Suc (count_in w idxs g) else count_in w idxs g)" for g
    by (simp add: count_in_def)
  have reg: "g_num_buffers_registered (group_infos w ! ?g) = count_in w idxs ?g"
    using assms(1) gs(2) by (simp add: registered_def)
  have run: "rs_wrapper_decode_helper_register_index w i =
      (if count_in w (i # idxs) ?g = group_real w ?g then
         if num_pending_groups w \<ge> 1 then Some (v\<lparr>num_pending_groups := num_pending_groups w - 1\<rparr>) else None
       else Some v)"
    using gs(1) reg
    by (simp add: rs_wrapper_decode_helper_register_index_def Let_def v_def gi_def cnt)
  have plan: "same_plan w v" "same_plan w (v\<lparr>num_pending_groups := x\<rparr>)" for x
    using gs(2) len by (auto simp: same_plan_def v_def gi_def nth_list_update)
  have counts: "g_num_buffers_registered (group_infos v ! h) = count_in w (i # idxs) h"
    if "h < num_groups w" for h
    using assms(1) that gs(2) len by (auto simp: registered_def v_def gi_def nth_list_update cnt)
  have fin: "finite (?P xs)" for xs by (rule finite_subset [of _ "{..<num_groups w}"]) auto
  show ?thesis
  proof (cases "count_in w (i # idxs) ?g = group_real w ?g")
    case True
    then have "?P idxs = insert ?g (?P (i # idxs))" "?g \<notin> ?P (i # idxs)" using gs(2) cnt by auto
    then have card: "card (?P idxs) = Suc (card (?P (i # idxs)))" using fin by simp
    then have pend: "num_pending_groups w = int (card (?P (i # idxs))) + 1"
      using assms(1) by (simp add: registered_def)
    let ?u = "v\<lparr>num_pending_groups := num_pending_groups w - 1\<rparr>"
    note sp = same_plan_transfer [OF plan(2) [of "num_pending_groups w - 1"] ok]
    have "count_in ?u = count_in w" using sp(3) by (simp add: count_in_def fun_eq_iff)
    then have "registered ?u (i # idxs)"
      using sp(1) plan(2) counts pend by (auto simp: registered_def same_plan_def intro!: arg_cong [of _ _ card])
    with True pend run plan(2) show ?thesis by simp
  next
    case False
    then have same: "?P (i # idxs) = ?P idxs" using cnt by auto
    note sp = same_plan_transfer [OF plan(1) ok]
    have "count_in v = count_in w" using sp(3) by (simp add: count_in_def fun_eq_iff)
    moreover have "num_pending_groups v = num_pending_groups w" by (simp add: v_def)
    ultimately have "registered v (i # idxs)"
      using sp(1) plan(1) counts same assms(1)
      by (auto simp: registered_def same_plan_def intro!: arg_cong [of _ _ card])
    with False run plan(1) show ?thesis by simp
  qed
qed

lemma can_decode_ok:
  assumes "registered w idxs"
  shows "rs_wrapper_decode_helper_can_decode w =
    Some (\<forall>g < num_groups w. group_real w g \<le> count_in w idxs g)"
proof -
  let ?P = "{g. g < num_groups w \<and> count_in w idxs g < group_real w g}"
  have "finite ?P" by (rule finite_subset [of _ "{..<num_groups w}"]) auto
  then have "card ?P = 0 \<longleftrightarrow> (\<forall>g < num_groups w. group_real w g \<le> count_in w idxs g)"
    by (simp add: not_less) (meson not_less)
  with assms show ?thesis
    by (simp add: rs_wrapper_decode_helper_can_decode_def registered_def)
qed

lemma registered_create:
  assumes "rs_wrapper_create_inner R N G = Some w" "0 < G"
  shows "registered w []"
proof -
  note c = plan_ok_create_inner [OF assms]
  have "{g. g < num_groups w \<and> count_in w [] g < group_real w g} = {..<G}"
    using group_real_pos [OF c(1)] c(2) by (auto simp: count_in_def)
  with c show ?thesis by (simp add: registered_def count_in_def)
qed

section \<open>The choice of the number of groups\<close>

lemma int_div_roundup_mono: "0 < b \<Longrightarrow> a \<le> a' \<Longrightarrow> int_div_roundup a b \<le> int_div_roundup a' b"
  unfolding int_div_roundup_def by (rule zdiv_mono1) auto

lemma int_div_roundup_nonneg: "0 < b \<Longrightarrow> 0 \<le> a \<Longrightarrow> 0 \<le> int_div_roundup a b"
  unfolding int_div_roundup_def by (simp add: pos_imp_zdiv_nonneg_iff)

lemma partition_le:
  assumes "0 < G"
  shows "int (int_partition_helper n g G) \<le> int_div_roundup (int n) (int G)"
  using assms int_div_roundup_mono [of "int G" "int n - int g" "int n"]
    int_div_roundup_nonneg [of "int G" "int n"] int_div_roundup_nonneg [of "int G" "int n - int g"]
  by (simp add: int_partition_helper_def)

lemma rs_wrapper_createD:
  assumes "rs_wrapper_create st R N = Some w"
  shows "\<exists>G. 0 < G \<and> rs_wrapper_create_inner R N G = Some w \<and>
    (G = R \<or> group_count_ok st R (N - R) G)"
proof -
  let ?f = "find (group_count_ok st R (N - R)) [1..<R]"
  have R: "0 < R" and inner: "rs_wrapper_create_inner R N (case ?f of Some i \<Rightarrow> i | None \<Rightarrow> R) = Some w"
    using assms by (auto simp: rs_wrapper_create_def Let_def split: if_splits)
  show ?thesis
  proof (cases ?f)
    case None
    with R inner show ?thesis by auto
  next
    case (Some i)
    then have "group_count_ok st R (N - R) i" "i \<in> set [1..<R]"
      unfolding find_Some_iff using nth_mem by blast+
    then have "0 < i" "group_count_ok st R (N - R) i" by auto
    moreover have "rs_wrapper_create_inner R N i = Some w" using Some inner by simp
    ultimately show ?thesis by blast
  qed
qed

lemma groups_fit:
  assumes "rs_wrapper_create st R N = Some w" "R < N" "rs_wrapper_max_group_size st \<le> int RS_FIELD_SIZE"
    and g: "g < num_groups w"
  shows "group_fits w g"
    "group_real w g = 1 \<or> int (group_real w g + group_fec w g) \<le> rs_wrapper_max_group_size st"
proof -
  obtain G where G: "0 < G" "rs_wrapper_create_inner R N G = Some w" "G = R \<or> group_count_ok st R (N - R) G"
    using rs_wrapper_createD [OF assms(1)] by blast
  note c = plan_ok_create_inner [OF G(2,1)]
  have sizes: "group_real w g = int_partition_helper R g G" "group_fec w g = int_partition_helper (N - R) g G"
    using c g by (simp_all add: plan_ok_def)
  have both: "group_fits w g \<and>
    (group_real w g = 1 \<or> int (group_real w g + group_fec w g) \<le> rs_wrapper_max_group_size st)"
  proof (cases "G = R")
    case True
    have "\<not> 1 < group_real w g" using plan_okD(1) [OF c(1) g, of 1] c(2,3) True by simp
    with group_real_pos [OF c(1) g] have "group_real w g = 1" by simp
    then show ?thesis by (simp add: group_fits_def)
  next
    case False
    with G(3) have lim: "int_div_roundup (int R) (int G) + int_div_roundup (int (N - R)) (int G)
        \<le> rs_wrapper_max_group_size st" by (simp add: group_count_ok_def Let_def)
    have "1 \<le> int_div_roundup (int (N - R)) (int G)"
      using int_div_roundup_bounds(1) [of "int G" "int (N - R)"] G(1) assms(2)
      by (smt (verit) mult_nonneg_nonpos of_nat_0_less_iff zero_less_diff)
    with lim partition_le [OF G(1), of R g] partition_le [OF G(1), of "N - R" g] assms(3) sizes
    show ?thesis by (simp add: group_fits_def)
  qed
  then show "group_fits w g"
    "group_real w g = 1 \<or> int (group_real w g + group_fec w g) \<le> rs_wrapper_max_group_size st"
    by auto
qed

section \<open>How many packets are needed\<close>

lemma enough_packets:
  assumes "plan_ok w" "set idxs \<subseteq> {..<rs_num_real_buffers w + rs_num_fec_buffers w}"
    and "\<forall>g < num_groups w. group_real w g \<le> count_in w idxs g"
  shows "rs_num_real_buffers w \<le> length idxs"
proof -
  have "(\<Sum>g < num_groups w. group_real w g) \<le> (\<Sum>g < num_groups w. count_in w idxs g)"
    using assms(3) by (intro sum_mono) auto
  then show ?thesis using sum_count_in [OF assms(1,2)] sum_group_sizes(1) [OF assms(1)] by simp
qed

text \<open>Facts about a plan depend only on the plan.\<close>

lemma same_plan_coded:
  assumes "same_plan w w'" "g < num_groups w"
  shows "full_index w' g = full_index w g" "group_src w' src g = group_src w src g"
    "coded lib w' sz src dst g = coded lib w sz src dst g"
proof -
  have r: "group_real w' g = group_real w g" "group_fec w' g = group_fec w g"
    "num_groups w' = num_groups w" "rs_num_real_buffers w' = rs_num_real_buffers w"
    using assms by (simp_all add: same_plan_def)
  show f: "full_index w' g = full_index w g" by (simp add: full_index_def r fun_eq_iff)
  then show g: "group_src w' src g = group_src w src g" by (simp add: group_src_def r)
  show "coded lib w' sz src dst g = coded lib w sz src dst g" by (simp add: coded_def r f g)
qed

lemma same_plan_codec_ok:
  assumes "same_plan w w'"
  shows "codec_ok lib w' sz = codec_ok lib w sz"
  using assms by (auto simp: same_plan_def codec_ok_def group_fits_def)

lemma same_plan_trans: "same_plan u v \<Longrightarrow> same_plan v w \<Longrightarrow> same_plan u w"
  by (auto simp: same_plan_def)

lemma same_plan_sym: "same_plan u v \<Longrightarrow> same_plan v u"
  by (auto simp: same_plan_def)

section \<open>The contract of an erasure code\<close>

text \<open>What \<^verbatim>\<open>fec.c\<close> relies on. \<open>st w R N idxs\<close>: \<open>w\<close> was created for \<open>R\<close> original and \<open>N\<close> total packets
  and has seen the packets \<open>idxs\<close>; \<open>sound R N sz\<close>: the code works for that shape.\<close>

fun register_all :: "('w \<Rightarrow> nat \<Rightarrow> 'w option) \<Rightarrow> nat list \<Rightarrow> 'w \<Rightarrow> 'w option" where
  "register_all reg [] w = Some w"
| "register_all reg (i # is) w = do { w \<leftarrow> reg w i; register_all reg is w }"

locale erasure_code =
  fixes mk :: "nat \<Rightarrow> nat \<Rightarrow> 'w option"
    and enc :: "'w \<Rightarrow> byte list list \<Rightarrow> byte list list \<Rightarrow> nat \<Rightarrow> byte list list option"
    and reg :: "'w \<Rightarrow> nat \<Rightarrow> 'w option"
    and can :: "'w \<Rightarrow> bool option"
    and dec :: "'w \<Rightarrow> byte list list \<Rightarrow> nat list \<Rightarrow> nat \<Rightarrow> nat \<Rightarrow> byte list list option"
    and sound :: "nat \<Rightarrow> nat \<Rightarrow> nat \<Rightarrow> bool"
    and st :: "'w \<Rightarrow> nat \<Rightarrow> nat \<Rightarrow> nat list \<Rightarrow> bool"
  assumes created: "0 < R \<Longrightarrow> R \<le> N \<Longrightarrow> \<exists>w. mk R N = Some w \<and> st w R N []"
    and register: "st w R N idxs \<Longrightarrow> i < N \<Longrightarrow> i \<notin> set idxs \<Longrightarrow>
      \<exists>w'. reg w i = Some w' \<and> st w' R N (i # idxs)"
    and can_total: "st w R N idxs \<Longrightarrow> \<exists>b. can w = Some b"
    and can_enough: "st w R N idxs \<Longrightarrow> can w = Some True \<Longrightarrow> R \<le> length idxs"
    and can_all: "st w R N idxs \<Longrightarrow> {..<R} \<subseteq> set idxs \<Longrightarrow> can w = Some True"
    and encoded: "sound R N sz \<Longrightarrow> st w R N [] \<Longrightarrow> length src = R \<Longrightarrow> \<forall>b \<in> set src. length b = sz \<Longrightarrow>
      length dst = N - R \<Longrightarrow> \<exists>dst'. enc w src dst sz = Some dst' \<and> length dst' = N - R \<and>
        (\<forall>b \<in> set dst'. length b = sz)"
    and decoded: "sound R N sz \<Longrightarrow> st w R N [] \<Longrightarrow> length src = R \<Longrightarrow> \<forall>b \<in> set src. length b = sz \<Longrightarrow>
      length dst = N - R \<Longrightarrow> enc w src dst sz = Some dst' \<Longrightarrow> st w' R N idxs \<Longrightarrow> can w' = Some True \<Longrightarrow>
      set idx = set idxs \<Longrightarrow> distinct idx \<Longrightarrow> length pkt = N \<Longrightarrow>
      \<forall>i < length idx. pkt ! i = (src @ dst') ! (idx ! i) \<Longrightarrow>
      \<exists>r. dec w' pkt idx (length idx) sz = Some r \<and> length r = N \<and> take R r = src"
begin

lemma registers:
  assumes "st w R N idxs" "distinct is" "set is \<subseteq> {..<N}" "set is \<inter> set idxs = {}"
  shows "\<exists>w'. register_all reg is w = Some w' \<and> st w' R N (rev is @ idxs)"
  using assms
proof (induction "is" arbitrary: w idxs)
  case (Cons i "is")
  then obtain v where v: "reg w i = Some v" "st v R N (i # idxs)"
    using register [of w R N idxs i] by auto
  with Cons.IH [OF v(2)] Cons.prems show ?case by auto
qed auto

text \<open>Whatever subset arrives: once the code says it can decode, decoding gives back the originals.\<close>

lemma recovers:
  assumes "0 < R" "R \<le> N" "sound R N sz" "length src = R" "\<forall>b \<in> set src. length b = sz"
    and "length dst = N - R" "distinct idx" "set idx \<subseteq> {..<N}"
  shows "\<exists>w dst' w' b. mk R N = Some w \<and> enc w src dst sz = Some dst' \<and> length dst' = N - R \<and>
    register_all reg idx w = Some w' \<and> can w' = Some b \<and> ({..<R} \<subseteq> set idx \<longrightarrow> b) \<and>
    (b \<longrightarrow> R \<le> length idx \<and> (\<forall>pad. length idx + length pad = N \<longrightarrow>
       (\<exists>r. dec w' (map (\<lambda>i. (src @ dst') ! i) idx @ pad) idx (length idx) sz = Some r \<and>
          take R r = src)))"
proof -
  obtain w where w: "mk R N = Some w" "st w R N []" using created [OF assms(1,2)] by blast
  obtain dst' where d: "enc w src dst sz = Some dst'" "length dst' = N - R"
    using encoded [OF assms(3) w(2) assms(4-6)] by blast
  obtain w' where w': "register_all reg idx w = Some w'" "st w' R N (rev idx)"
    using registers [OF w(2) assms(7,8)] by auto
  obtain b where b: "can w' = Some b" using can_total [OF w'(2)] by blast
  have "\<exists>r. dec w' (map (\<lambda>i. (src @ dst') ! i) idx @ pad) idx (length idx) sz = Some r \<and> take R r = src"
    if "b" "length idx + length pad = N" for pad
    using decoded [OF assms(3) w(2) assms(4-6) d(1) w'(2), of idx "map (\<lambda>i. (src @ dst') ! i) idx @ pad"]
      assms(7) b that by (auto simp: nth_append)
  moreover have "R \<le> length idx" if "b" using can_enough [OF w'(2)] b that by simp
  moreover have "{..<R} \<subseteq> set idx \<longrightarrow> b" using can_all [OF w'(2)] b by simp
  ultimately show ?thesis using w(1) d w'(1) b by blast
qed

end

text \<open>The wrapper is such a code.\<close>

definition wrapper_state :: "rs_settings \<Rightarrow> RSWrapper \<Rightarrow> nat \<Rightarrow> nat \<Rightarrow> nat list \<Rightarrow> bool" where
  "wrapper_state stg w R N idxs \<longleftrightarrow> R \<le> N \<and> distinct idxs \<and> set idxs \<subseteq> {..<N} \<and> registered w idxs \<and>
     (\<exists>w0. rs_wrapper_create stg R N = Some w0 \<and> same_plan w0 w)"

text \<open>The shape is sound: the limit is at most the field size, there is at least one recovery packet,
  and \<^verbatim>\<open>cm256\<close> does what it documents for each group that the shape leads to.\<close>

definition shape_sound :: "rs_lib \<Rightarrow> rs_settings \<Rightarrow> nat \<Rightarrow> nat \<Rightarrow> nat \<Rightarrow> bool" where
  "shape_sound lib stg R N sz \<longleftrightarrow> R < N \<and> rs_wrapper_max_group_size stg \<le> int RS_FIELD_SIZE \<and>
     (\<forall>w. rs_wrapper_create stg R N = Some w \<longrightarrow> (\<forall>g < num_groups w. group_real w g \<noteq> 1 \<longrightarrow>
        cm256_recovers lib (group_real w g) (group_fec w g) sz))"

lemma wrapper_stateD:
  assumes "wrapper_state stg w R N idxs"
  shows "plan_ok w" "rs_num_real_buffers w = R" "rs_num_real_buffers w + rs_num_fec_buffers w = N"
    "rs_num_fec_buffers w = N - R"
proof -
  obtain w0 where w0: "rs_wrapper_create stg R N = Some w0" "same_plan w0 w" and N: "R \<le> N"
    using assms by (auto simp: wrapper_state_def)
  show "plan_ok w" using assms by (simp add: wrapper_state_def registered_def)
  obtain G where "0 < G" "rs_wrapper_create_inner R N G = Some w0"
    using rs_wrapper_createD [OF w0(1)] by blast
  from plan_ok_create_inner [OF this(2,1)] w0(2) N
  show "rs_num_real_buffers w = R" "rs_num_real_buffers w + rs_num_fec_buffers w = N"
    "rs_num_fec_buffers w = N - R"
    by (simp_all add: same_plan_def)
qed

lemma wrapper_state_codec_ok:
  assumes "wrapper_state stg w R N idxs" "shape_sound lib stg R N sz"
  shows "codec_ok lib w sz"
proof -
  obtain w0 where w0: "rs_wrapper_create stg R N = Some w0" "same_plan w0 w"
    using assms by (auto simp: wrapper_state_def)
  have "codec_ok lib w0 sz"
    using groups_fit(1) [OF w0(1)] w0(1) assms(2) by (auto simp: codec_ok_def shape_sound_def)
  then show ?thesis using same_plan_codec_ok [OF w0(2)] by simp
qed

lemma code_packet_length:
  assumes "k \<noteq> 1 \<longrightarrow> cm256_recovers lib k m sz" "0 < k" "length blocks = k" "\<forall>b \<in> set blocks. length b = sz"
    and "s < k + m"
  shows "length (code_packet lib k m sz blocks s) = sz"
proof (cases "s < k")
  case True
  then show ?thesis using assms(3,4) by (simp add: code_packet_def)
next
  case False
  then obtain i where i: "s = k + i" "i < m" using assms(5) by (metis add_less_cancel_left le_add_diff_inverse not_less)
  show ?thesis
  proof (cases "k = 1")
    case True
    then have "length (blocks ! 0) = sz" using assms(3,4) by (simp add: all_set_conv_all_nth)
    then show ?thesis using True False by (simp add: code_packet_def)
  next
    case k: False
    then have "cm256_recovers lib k m sz" using assms(1) by simp
    then have "length (cm256_encode_block lib k m sz blocks (k + i)) = sz"
      using i(2) assms(3,4) unfolding cm256_recovers_def by simp
    with False k i(1) show ?thesis by (simp add: code_packet_def)
  qed
qed

lemma create_inner_total: "0 < R \<Longrightarrow> G \<le> R \<Longrightarrow> \<exists>w. rs_wrapper_create_inner R N G = Some w"
  by (simp add: rs_wrapper_create_inner_def Let_def)

lemma wrapper_created:
  assumes "0 < R" "R \<le> N"
  shows "\<exists>w. rs_wrapper_create stg R N = Some w \<and> wrapper_state stg w R N []"
proof -
  let ?f = "find (group_count_ok stg R (N - R)) [1..<R]"
  let ?G = "case ?f of Some i \<Rightarrow> i | None \<Rightarrow> R"
  have G: "0 < ?G \<and> ?G \<le> R"
  proof (cases ?f)
    case (Some i)
    then have "i \<in> set [1..<R]" unfolding find_Some_iff using nth_mem by blast
    with Some show ?thesis by auto
  qed (use assms in auto)
  then obtain w where w: "rs_wrapper_create_inner R N ?G = Some w"
    using create_inner_total [OF assms(1)] by blast
  then have c: "rs_wrapper_create stg R N = Some w"
    using assms by (simp add: rs_wrapper_create_def Let_def)
  moreover have "registered w []" using registered_create [OF w] G by simp
  moreover have "same_plan w w" by (simp add: same_plan_def)
  ultimately show ?thesis using assms(2) unfolding wrapper_state_def by auto
qed

lemma wrapper_encoded:
  assumes "shape_sound lib stg R N sz" "wrapper_state stg w R N idxs" "length src = R"
    and "\<forall>b \<in> set src. length b = sz" "length dst = N - R"
  shows "\<exists>dst'. rs_wrapper_encode lib w src dst sz = Some dst' \<and> length dst' = N - R \<and>
    (\<forall>g < num_groups w. coded lib w sz src dst' g) \<and> (\<forall>b \<in> set dst'. length b = sz)"
proof -
  note d = wrapper_stateD [OF assms(2)]
  have ok: "codec_ok lib w sz" by (rule wrapper_state_codec_ok [OF assms(2,1)])
  obtain dst' where e: "rs_wrapper_encode lib w src dst sz = Some dst'" "length dst' = N - R"
    "\<forall>g < num_groups w. coded lib w sz src dst' g"
    using rs_wrapper_encode_ok [OF d(1), of src dst lib sz] ok assms(3,5) d by (auto simp: codec_ok_def)
  have src: "length src = rs_num_real_buffers w" using assms(3) d by simp
  have "length (dst' ! j) = sz" if "j < N - R" for j
  proof -
    have i: "R + j < rs_num_real_buffers w + rs_num_fec_buffers w" using that d by simp
    note gs = grp_sub [OF d(1) i]
    note gl = group_src_lengths [OF d(1) gs(2) src assms(4)]
    have "(src @ dst') ! (R + j) = dst' ! j" using assms(3) by (simp add: nth_append)
    moreover have "length ((src @ dst') ! (R + j)) = sz"
      unfolding frame_packet [OF d(1) src e(3) i refl]
      by (rule code_packet_length [OF _ group_real_pos [OF d(1) gs(2)] gl gs(3)])
        (use ok gs(2) in \<open>simp add: codec_ok_def\<close>)
    ultimately show ?thesis by simp
  qed
  then have "\<forall>b \<in> set dst'. length b = sz" using e(2) by (auto simp: in_set_conv_nth)
  with e show ?thesis by blast
qed

interpretation rs: erasure_code "rs_wrapper_create stg" "rs_wrapper_encode lib"
  rs_wrapper_decode_helper_register_index rs_wrapper_decode_helper_can_decode
  "rs_wrapper_decode lib" "shape_sound lib stg" "wrapper_state stg" for lib stg
proof unfold_locales
  fix R N :: nat assume "0 < R" "R \<le> N"
  then show "\<exists>w. rs_wrapper_create stg R N = Some w \<and> wrapper_state stg w R N []" by (rule wrapper_created)
next
  fix w R N idxs i assume a: "wrapper_state stg w R N idxs" "i < N" "i \<notin> set idxs"
  then have r: "registered w idxs" "i < rs_num_real_buffers w + rs_num_fec_buffers w"
    using wrapper_stateD(3) [OF a(1)] by (simp_all add: wrapper_state_def)
  from register_ok [OF this] a
  show "\<exists>w'. rs_wrapper_decode_helper_register_index w i = Some w' \<and> wrapper_state stg w' R N (i # idxs)"
    unfolding wrapper_state_def by (auto dest: same_plan_trans)
next
  fix w R N idxs assume a: "wrapper_state stg w R N idxs"
  then have r: "registered w idxs" by (simp add: wrapper_state_def)
  note d = wrapper_stateD [OF a]
  show "\<exists>b. rs_wrapper_decode_helper_can_decode w = Some b" using can_decode_ok [OF r] by blast
  show "R \<le> length idxs" if "rs_wrapper_decode_helper_can_decode w = Some True"
    using enough_packets [OF d(1), of idxs] can_decode_ok [OF r] that a d
    by (simp add: wrapper_state_def)
  show "rs_wrapper_decode_helper_can_decode w = Some True" if "{..<R} \<subseteq> set idxs"
  proof -
    have "group_real w g \<le> count_in w idxs g" if "g < num_groups w" for g
      using count_in_mono [of "[0..<R]" idxs w g] count_in_real [OF d(1) that] d(2) \<open>{..<R} \<subseteq> set idxs\<close>
      by (simp add: atLeast0LessThan)
    then show ?thesis using can_decode_ok [OF r] by simp
  qed
next
  fix R N sz w and src dst :: "byte list list"
  assume a: "shape_sound lib stg R N sz" "wrapper_state stg w R N []" "length src = R"
    "\<forall>b \<in> set src. length b = sz" "length dst = N - R"
  from wrapper_encoded [OF this] show "\<exists>dst'. rs_wrapper_encode lib w src dst sz = Some dst' \<and>
      length dst' = N - R \<and> (\<forall>b \<in> set dst'. length b = sz)" by blast
  fix dst' w' idxs idx and pkt :: "byte list list"
  assume b: "rs_wrapper_encode lib w src dst sz = Some dst'" "wrapper_state stg w' R N idxs"
    "rs_wrapper_decode_helper_can_decode w' = Some True" "set idx = set idxs" "distinct idx"
    "length pkt = N" "\<forall>i < length idx. pkt ! i = (src @ dst') ! (idx ! i)"
  note d = wrapper_stateD [OF a(2)] and d' = wrapper_stateD [OF b(2)]
  obtain w0 where w0: "rs_wrapper_create stg R N = Some w0" "same_plan w0 w" "same_plan w0 w'"
    using a(2) b(2) by (auto simp: wrapper_state_def)
  then have sp: "same_plan w w'" using same_plan_trans same_plan_sym by blast
  have r: "registered w' idxs" "distinct idxs" "set idxs \<subseteq> {..<N}" using b(2) by (auto simp: wrapper_state_def)
  have "\<forall>g < num_groups w. coded lib w sz src dst' g" using wrapper_encoded [OF a] b(1) by auto
  then have cd: "\<forall>g < num_groups w'. coded lib w' sz src dst' g"
    using same_plan_coded(3) [OF sp] sp by (simp add: same_plan_def)
  have "count_in w' idxs g = count_in w' idx g" for g
    using r(2) b(4,5) by (simp add: count_in_card)
  then have cnt: "\<forall>g < num_groups w'. group_real w' g \<le> length (members w' idx (length idx) g)"
    using can_decode_ok [OF r(1)] b(3) by (simp add: length_members)
  have "length idx \<le> N"
    using b(4,5) r(3) by (metis card_lessThan card_mono distinct_card finite_lessThan)
  then have "received lib w' sz src dst' pkt idx"
    unfolding received_def using b(4-7) r(3) d' cnt by auto
  from rs_wrapper_decode_ok [OF d'(1) wrapper_state_codec_ok [OF b(2) a(1)] _ a(4) cd this]
  show "\<exists>r. rs_wrapper_decode lib w' pkt idx (length idx) sz = Some r \<and> length r = N \<and> take R r = src"
    using a(3) d' b(6) by simp
qed

section \<open>Properties\<close>

text \<open>
  C22: For every wrapper that \<^verbatim>\<open>rs_wrapper_create\<close> returns, the index mapping is a bijection between
  the packets of the frame and the pairs of a group and a position inside it: both round trips are
  the identity, every position is within its group, and original packets come first.
\<close>

theorem rs_wrapper_index_bijection:
  assumes "rs_wrapper_create st R N = Some w"
  shows "(\<forall>i < R + (N - R). \<exists>info. index_full_to_sub w i = Some info \<and>
      group_id info < num_groups w \<and>
      sub_index info < group_real w (group_id info) + group_fec w (group_id info) \<and>
      (i < R \<longleftrightarrow> sub_index info < group_real w (group_id info)) \<and>
      index_sub_to_full w (group_id info) (sub_index info) = Some i) \<and>
    (\<forall>g < num_groups w. \<forall>s < group_real w g + group_fec w g.
      \<exists>i < R + (N - R). index_sub_to_full w g s = Some i \<and>
        index_full_to_sub w i = Some \<lparr>group_id = g, sub_index = s\<rparr>)"
proof -
  obtain G where G: "0 < G" "rs_wrapper_create_inner R N G = Some w"
    using rs_wrapper_createD [OF assms] by blast
  note c = plan_ok_create_inner [OF G(2,1)]
  have "\<exists>info. index_full_to_sub w i = Some info \<and> group_id info < num_groups w \<and>
      sub_index info < group_real w (group_id info) + group_fec w (group_id info) \<and>
      (i < R \<longleftrightarrow> sub_index info < group_real w (group_id info)) \<and>
      index_sub_to_full w (group_id info) (sub_index info) = Some i" if "i < R + (N - R)" for i
    using grp_sub [OF c(1), of i] that c(3,4) by (simp add: index_sub_to_full_eq)
  moreover have "\<exists>i < R + (N - R). index_sub_to_full w g s = Some i \<and>
      index_full_to_sub w i = Some \<lparr>group_id = g, sub_index = s\<rparr>"
    if "g < num_groups w" "s < group_real w g + group_fec w g" for g s
    using that full_index_bounds(3) [OF c(1) that] index_full_to_sub_full [OF c(1) that] c(3,4)
    by (simp add: index_sub_to_full_eq)
  ultimately show ?thesis by blast
qed

text \<open>
  C23: With the default or any smaller group size limit, every group that \<^verbatim>\<open>rs_wrapper_create\<close> forms for
  a frame with at least one recovery packet is accepted by the assertions of \<^verbatim>\<open>rs_encode_or_dup\<close>:
  it is a single packet that is duplicated, or it is within the limit and so within the field size.
\<close>

theorem rs_wrapper_groups_within_limit:
  assumes "rs_wrapper_create st R N = Some w" "R < N"
    and "rs_wrapper_max_group_size st \<le> int RS_FIELD_SIZE" "g < num_groups w" "length src = group_real w g"
  shows "(group_real w g = 1 \<or> int (group_real w g + group_fec w g) \<le> rs_wrapper_max_group_size st) \<and>
    rs_encode_or_dup lib (group_real w g) (group_real w g + group_fec w g) src sz \<noteq> None"
proof -
  obtain G where G: "0 < G" "rs_wrapper_create_inner R N G = Some w"
    using rs_wrapper_createD [OF assms(1)] by blast
  note f = groups_fit [OF assms(1-4)]
  have "0 < group_real w g" using group_real_pos [OF plan_ok_create_inner(1) [OF G(2,1)] assms(4)] .
  from rs_encode_or_dup_ok [OF this _ assms(5), of "group_fec w g" lib sz] f show ?thesis
    by (auto simp: group_fits_def)
qed


text \<open>A concrete code for the examples: two blocks and their sum.\<close>

definition sum_lib :: rs_lib where
  "sum_lib = \<lparr>cm256_encode_block = (\<lambda>k m sz bs i. map2 (+) (bs ! 0) (bs ! 1)),
     cm256_decode = (\<lambda>k m sz bs.
       let (i, a) = bs ! 0; (j, b) = bs ! 1
       in Some (if i = 2 then [(1 - j, map2 (-) a b), (j, b)]
                else if j = 2 then [(i, a), (1 - i, map2 (-) b a)] else [(i, a), (j, b)])),
     lugi_encode = (\<lambda>k n sz bs i. []), lugi_decode = (\<lambda>k n sz bs idx. None)\<rparr>"

lemma map2_sum_diff:
  fixes xs ys :: "byte list"
  assumes "length xs = length ys"
  shows "map2 (-) (map2 (+) xs ys) xs = ys" "map2 (-) (map2 (+) xs ys) ys = xs"
  using assms by (induction xs ys rule: list_induct2) auto

lemma sum_lib_recovers: "cm256_recovers sum_lib 2 1 sz"
  unfolding cm256_recovers_def
proof (intro allI impI conjI)
  fix bs :: "byte list list" assume b: "length bs = 2" "\<forall>b \<in> set bs. length b = sz"
  then obtain x y where xy: "bs = [x, y]" by (auto simp: length_Suc_conv numeral_2_eq_2)
  then have len: "length x = sz" "length y = sz" using b by auto
  show "length (cm256_encode_block sum_lib 2 1 sz bs (2 + i)) = sz" if "i < 1" for i
    using xy len by (simp add: sum_lib_def)
  fix idx :: "nat list" assume i: "length idx = 2" "distinct idx" "set idx \<subseteq> {..<2 + 1}"
  then obtain p q where pq: "idx = [p, q]" by (auto simp: length_Suc_conv numeral_2_eq_2)
  then have "p \<in> {0, 1, 2}" "q \<in> {0, 1, 2}" "p \<noteq> q" using i by auto
  then show "\<exists>r. cm256_decode sum_lib 2 1 sz (map (\<lambda>i. (i, code_packet sum_lib 2 1 sz bs i)) idx) = Some r \<and>
      fst ` set r = {..<2} \<and> (\<forall>jb \<in> set r. snd jb = bs ! fst jb)"
    using map2_sum_diff [of x y] len
    by (auto simp: pq xy sum_lib_def code_packet_def lessThan_nat_numeral numeral_2_eq_2 lessThan_Suc)
qed

definition small_groups :: rs_settings where
  "small_groups = rs_initial_settings\<lparr>rs_wrapper_max_group_size := 3\<rparr>"

lemma small_groups_create:
  assumes "rs_wrapper_create small_groups 4 6 = Some w"
  shows "num_groups w = 2" "g < 2 \<Longrightarrow> group_real w g = 2 \<and> group_fec w g = 1"
proof -
  have "find (group_count_ok small_groups 4 2) [Suc 0..<4] = Some 2"
    by (simp add: upt_rec group_count_ok_def small_groups_def rs_initial_settings_def int_div_roundup_def
        overhead_of_group_def rs_implementation_to_use_def MAX_PACKET_SEGMENT_SIZE_def Let_def)
  then have c: "rs_wrapper_create_inner 4 6 2 = Some w"
    using assms by (simp add: rs_wrapper_create_def Let_def)
  note p = plan_ok_create_inner [OF c]
  show "num_groups w = 2" using p(2) by simp
  show "group_real w g = 2 \<and> group_fec w g = 1" if "g < 2"
    using p that unfolding plan_ok_def
    by (auto simp: int_partition_helper_def int_div_roundup_def less_2_cases_iff)
qed

lemma small_groups_sound: "shape_sound sum_lib small_groups 4 6 sz"
  using small_groups_create sum_lib_recovers
  by (auto simp: shape_sound_def RS_FIELD_SIZE_def small_groups_def)


definition small_wrapper :: RSWrapper where
  "small_wrapper = the (rs_wrapper_create small_groups 4 6)"

lemma small_wrapper_created: "rs_wrapper_create small_groups 4 6 = Some small_wrapper"
  using wrapper_created [of 4 6 small_groups] by (auto simp: small_wrapper_def)

theorem rs_wrapper_index_bijection_witness:
  "(\<exists>info. index_full_to_sub small_wrapper 5 = Some info \<and>
      group_id info < num_groups small_wrapper \<and>
      sub_index info < group_real small_wrapper (group_id info) + group_fec small_wrapper (group_id info) \<and>
      \<not> sub_index info < group_real small_wrapper (group_id info) \<and>
      index_sub_to_full small_wrapper (group_id info) (sub_index info) = Some 5) \<and>
    (\<exists>i < 6. index_sub_to_full small_wrapper 1 2 = Some i \<and>
        index_full_to_sub small_wrapper i = Some \<lparr>group_id = 1, sub_index = 2\<rparr>)"
proof -
  have g: "1 < num_groups small_wrapper" "2 < group_real small_wrapper 1 + group_fec small_wrapper 1"
    using small_groups_create [OF small_wrapper_created] by simp_all
  show ?thesis
    using rs_wrapper_index_bijection [OF small_wrapper_created, THEN conjunct1, rule_format, of 5]
      rs_wrapper_index_bijection [OF small_wrapper_created, THEN conjunct2, rule_format, OF g] by auto
qed

theorem rs_wrapper_groups_within_limit_witness:
  "(group_real small_wrapper 1 = 1 \<or>
      int (group_real small_wrapper 1 + group_fec small_wrapper 1) \<le> rs_wrapper_max_group_size small_groups) \<and>
    rs_encode_or_dup sum_lib (group_real small_wrapper 1) (group_real small_wrapper 1 + group_fec small_wrapper 1)
      [[7], [9]] 1 \<noteq> None"
proof (rule rs_wrapper_groups_within_limit [OF small_wrapper_created])
  show "1 < num_groups small_wrapper" "length [[7], [9 :: byte]] = group_real small_wrapper 1"
    using small_groups_create [OF small_wrapper_created] by simp_all
qed (simp_all add: small_groups_def RS_FIELD_SIZE_def)

end
