(* ===== verification/Fec.thy ===== *)
theory Fec
  imports Rs_Wrapper
begin

text \<open>
  Forward error correction of a frame, \<^verbatim>\<open>protocol/whist/fec/fec.c\<close>: the encoder splits a buffer into
  segments of even size, puts a 16-bit length in front of each, pads them and adds recovery
  packets; the decoder accepts packets in any order and rebuilds the buffer as soon as the
  Reed-Solomon wrapper says it can.

  Buffers are byte lists. Reading past a buffer, which the code does not check, is undefined in C
  and is the value \<open>None\<close> here, like a failed assertion or a loop that does not end.
\<close>

section \<open>The code\<close>

definition FEC_HEADER_SIZE :: nat where
  "FEC_HEADER_SIZE = 2"

definition MAX_BUFFER_SIZE :: nat where
  "MAX_BUFFER_SIZE = 2 ^ (8 * FEC_HEADER_SIZE) - 1"

record FECEncoder =
  fe_num_accepted_buffers :: nat
  fe_num_buffers :: nat
  fe_num_real_buffers :: nat
  fe_max_buffer_size :: nat
  fe_buffer_sizes :: "nat list"
  fe_buffers :: "byte list list"
  fe_max_packet_size :: int
  fe_rs_code :: RSWrapper
  encode_performed :: bool

record FECDecoder =
  fd_num_accepted_buffers :: nat
  fd_num_accepted_real_buffers :: nat
  fd_num_buffers :: nat
  fd_num_real_buffers :: nat
  fd_max_buffer_size :: nat
  fd_buffer_sizes :: "int list"
  fd_buffers :: "byte list list"
  fd_max_packet_size :: int
  fd_rs_code :: RSWrapper
  recovery_performed :: bool

text \<open>The supported platforms are little endian.\<close>

definition write_u16 :: "nat \<Rightarrow> byte list" where
  "write_u16 n = [of_nat (n mod 256), of_nat (n div 256 mod 256)]"

definition read_u16 :: "byte list \<Rightarrow> nat" where
  "read_u16 p = unat (p ! 0) + 256 * unat (p ! 1)"

definition fec_ratio_to_fec_factor :: "real \<Rightarrow> real" where
  "fec_ratio_to_fec_factor fec_ratio = 1 / (1 - fec_ratio)"

definition fec_factor_to_fec_ratio :: "real \<Rightarrow> real" where
  "fec_factor_to_fec_ratio fec_times = (fec_times - 1) / fec_times"

definition get_num_fec_packets :: "int \<Rightarrow> real \<Rightarrow> int" where
  "get_num_fec_packets num_real_packets fec_packet_ratio =
     (let ratio = fec_packet_ratio / (1 - fec_packet_ratio) in \<lceil>real_of_int num_real_packets * ratio\<rceil>)"

definition create_fec_encoder :: "rs_settings \<Rightarrow> nat \<Rightarrow> nat \<Rightarrow> nat \<Rightarrow> FECEncoder option" where
  "create_fec_encoder stg num_real num_fec max_size = do {
     fatal_assert (max_size \<le> MAX_BUFFER_SIZE);
     fatal_assert (max_size \<ge> FEC_HEADER_SIZE);
     let tot = num_real + num_fec;
     rs \<leftarrow> rs_wrapper_create stg num_real tot;
     Some \<lparr>fe_num_accepted_buffers = 0, fe_num_buffers = tot, fe_num_real_buffers = num_real,
           fe_max_buffer_size = max_size, fe_buffer_sizes = replicate tot 0,
           fe_buffers = replicate tot [], fe_max_packet_size = -1, fe_rs_code = rs,
           encode_performed = False\<rparr> }"

definition fec_encoder_get_num_real_buffers :: "int \<Rightarrow> int \<Rightarrow> int" where
  "fec_encoder_get_num_real_buffers buffer_size real_buffer_size =
     (if buffer_size = 0 then 1
      else int_div_roundup buffer_size (real_buffer_size - int FEC_HEADER_SIZE))"

text \<open>The loop that counts the segments needed; it does not end when a segment has no room.\<close>

partial_function (option) count_segments :: "nat \<Rightarrow> nat \<Rightarrow> nat \<Rightarrow> nat option" where
  "count_segments remaining room n =
     (if remaining > 0 then count_segments (remaining - min remaining room) room (n + 1) else Some n)"

text \<open>The loop that hands the segments over; \<open>rest\<close> is what is left of the buffer.\<close>

partial_function (option) split_loop :: "nat \<Rightarrow> byte list \<Rightarrow> FECEncoder \<Rightarrow> FECEncoder option" where
  "split_loop expected rest e =
     (if length rest > 0 then do {
        let cur = min (length rest) expected;
        let acc = fe_num_accepted_buffers e;
        fatal_assert (acc + 1 \<le> fe_num_real_buffers e);
        split_loop expected (drop cur rest)
          (e\<lparr>fe_buffers := (fe_buffers e)[acc := take cur rest],
             fe_buffer_sizes := (fe_buffer_sizes e)[acc := cur],
             fe_max_packet_size := max (fe_max_packet_size e) (int cur),
             fe_num_accepted_buffers := acc + 1\<rparr>) }
      else Some e)"

definition fec_encoder_register_buffer :: "FECEncoder \<Rightarrow> byte list \<Rightarrow> FECEncoder option" where
  "fec_encoder_register_buffer e buffer =
     (if length buffer = 0 then
        Some (e\<lparr>fe_buffers := (fe_buffers e)[0 := buffer],
                fe_buffer_sizes := (fe_buffer_sizes e)[0 := 0],
                fe_max_packet_size := 0, fe_num_accepted_buffers := 1\<rparr>)
      else do {
        n \<leftarrow> count_segments (length buffer) (fe_max_buffer_size e - FEC_HEADER_SIZE) 0;
        fatal_assert (n = fe_num_real_buffers e);
        let expected = nat (int_div_roundup (int (length buffer)) (int n));
        e \<leftarrow> split_loop expected buffer e;
        fatal_assert (fe_num_accepted_buffers e = fe_num_real_buffers e);
        Some e })"

text \<open>A segment with its header, padded to the payload size.\<close>

definition pad_segment :: "nat \<Rightarrow> byte list \<Rightarrow> byte list" where
  "pad_segment payload seg = write_u16 (length seg) @ seg @ replicate (payload - (2 + length seg)) 0"

text \<open>\<open>junk\<close> is what freshly allocated memory holds.\<close>

definition fec_get_encoded_buffers :: "rs_lib \<Rightarrow> (nat \<Rightarrow> byte) \<Rightarrow> FECEncoder \<Rightarrow>
    (FECEncoder \<times> byte list list \<times> nat list) option" where
  "fec_get_encoded_buffers lib junk e = do {
     fatal_assert (fe_num_accepted_buffers e = fe_num_real_buffers e);
     e \<leftarrow> (if encode_performed e then Some e
          else do {
            let payload = nat (2 + fe_max_packet_size e);
            let k = fe_num_real_buffers e;
            let m = fe_num_buffers e - k;
            let padded = map (\<lambda>i. pad_segment payload (take (fe_buffer_sizes e ! i) (fe_buffers e ! i))) [0..<k];
            let sizes = map (\<lambda>i. 2 + fe_buffer_sizes e ! i) [0..<k];
            dst \<leftarrow> rs_wrapper_encode lib (fe_rs_code e) padded
                     (replicate m (map junk [0..<payload])) payload;
            Some (e\<lparr>fe_buffers := padded @ dst, fe_buffer_sizes := sizes @ replicate m payload,
                    encode_performed := True\<rparr>) });
     Some (e, fe_buffers e, fe_buffer_sizes e) }"

definition create_fec_decoder :: "rs_settings \<Rightarrow> nat \<Rightarrow> nat \<Rightarrow> nat \<Rightarrow> FECDecoder option" where
  "create_fec_decoder stg num_real num_fec max_size = do {
     fatal_assert (max_size \<le> MAX_BUFFER_SIZE);
     let tot = num_real + num_fec;
     rs \<leftarrow> rs_wrapper_create stg num_real tot;
     Some \<lparr>fd_num_accepted_buffers = 0, fd_num_accepted_real_buffers = 0, fd_num_buffers = tot,
           fd_num_real_buffers = num_real, fd_max_buffer_size = max_size,
           fd_buffer_sizes = replicate tot (-1), fd_buffers = replicate tot [],
           fd_max_packet_size = -1, fd_rs_code = rs, recovery_performed = False\<rparr> }"

definition fec_decoder_register_buffer :: "FECDecoder \<Rightarrow> nat \<Rightarrow> byte list \<Rightarrow> FECDecoder option" where
  "fec_decoder_register_buffer d index buffer = do {
     fatal_assert (index < fd_num_buffers d);
     fatal_assert (length buffer \<le> fd_max_buffer_size d);
     fatal_assert (fd_buffer_sizes d ! index = -1);
     if recovery_performed d then Some d
     else do {
       rs \<leftarrow> rs_wrapper_decode_helper_register_index (fd_rs_code d) index;
       Some (d\<lparr>fd_buffers := (fd_buffers d)[index := buffer],
               fd_buffer_sizes := (fd_buffer_sizes d)[index := int (length buffer)],
               fd_num_accepted_buffers := fd_num_accepted_buffers d + 1,
               fd_num_accepted_real_buffers :=
                 fd_num_accepted_real_buffers d + (if index < fd_num_real_buffers d then 1 else 0),
               fd_max_packet_size := max (fd_max_packet_size d) (int (length buffer)),
               fd_rs_code := rs\<rparr>) } }"

text \<open>The recovery step: the accepted packets move to the front, padded to the largest one.\<close>

definition perform_recovery :: "rs_lib \<Rightarrow> FECDecoder \<Rightarrow> FECDecoder option" where
  "perform_recovery lib d = do {
     let index = filter (\<lambda>i. fd_buffer_sizes d ! i \<noteq> -1) [0..<fd_num_buffers d];
     let sz = nat (fd_max_packet_size d);
     fatal_assert (\<forall>i \<in> set index. fd_max_packet_size d \<ge> fd_buffer_sizes d ! i);
     let packed = map (\<lambda>i. take (nat (fd_buffer_sizes d ! i)) (fd_buffers d ! i) @
                           replicate (sz - nat (fd_buffer_sizes d ! i)) 0) index;
     let cnt = length index;
     fatal_assert (cnt \<ge> fd_num_real_buffers d);
     fatal_assert (cnt = fd_num_accepted_buffers d);
     let pkts = packed @ replicate (fd_num_buffers d - cnt) [];
     bs \<leftarrow> rs_wrapper_decode lib (fd_rs_code d) pkts index (fd_num_accepted_buffers d) sz;
     Some (d\<lparr>fd_buffers := bs, recovery_performed := True\<rparr>) }"

text \<open>The final copy: the payload of each original packet, one after the other.\<close>

fun copy_out :: "byte list list \<Rightarrow> byte list option" where
  "copy_out [] = Some []"
| "copy_out (b # bs) = do {
     fatal_assert (2 \<le> length b);
     let current_size = read_u16 b;
     fatal_assert (2 + current_size \<le> length b);
     rest \<leftarrow> copy_out bs;
     Some (mem_read 2 current_size b @ rest) }"

text \<open>The result is the decoder with either \<open>None\<close> (the code returns -1) or the bytes written to the
  caller's buffer, whose number the code returns.\<close>

definition fec_get_decoded_buffer :: "rs_lib \<Rightarrow> FECDecoder \<Rightarrow> (FECDecoder \<times> byte list option) option" where
  "fec_get_decoded_buffer lib d = do {
     can \<leftarrow> rs_wrapper_decode_helper_can_decode (fd_rs_code d);
     if \<not> can then Some (d, None)
     else do {
       let need_recovery = (fd_num_accepted_real_buffers d \<noteq> fd_num_real_buffers d);
       d \<leftarrow> (if need_recovery \<and> \<not> recovery_performed d then perform_recovery lib d else Some d);
       bytes \<leftarrow> copy_out (take (fd_num_real_buffers d) (fd_buffers d));
       Some (d, Some bytes) } }"

section \<open>Lengths\<close>

lemma read_write_u16:
  assumes "n < 65536"
  shows "read_u16 (write_u16 n @ xs) = n"
proof -
  have "n div 256 < 256" using assms by simp
  then have "unat (word_of_nat (n mod 256) :: byte) = n mod 256"
    "unat (word_of_nat (n div 256 mod 256) :: byte) = n div 256"
    by (simp_all add: unat_of_nat)
  then show ?thesis by (simp add: read_u16_def write_u16_def)
qed

lemma length_write_u16 [simp]: "length (write_u16 n) = 2"
  by (simp add: write_u16_def)

lemma length_pad_segment: "2 + length seg \<le> payload \<Longrightarrow> length (pad_segment payload seg) = payload"
  by (simp add: pad_segment_def)

text \<open>Copying out segments, each with its header and some padding, gives back the segments.\<close>

definition padded_as :: "byte list \<Rightarrow> byte list \<Rightarrow> bool" where
  "padded_as b seg \<longleftrightarrow> length seg < 65536 \<and> (\<exists>p \<ge> 2 + length seg. b = pad_segment p seg)"

lemma copy_out_padded:
  assumes "list_all2 padded_as bs segs"
  shows "copy_out bs = Some (concat segs)"
  using assms
proof (induction rule: list_all2_induct)
  case (Cons b bs seg segs)
  then obtain p where p: "length seg < 65536" "2 + length seg \<le> p" "b = pad_segment p seg"
    by (auto simp: padded_as_def)
  then have "read_u16 b = length seg" "mem_read 2 (length seg) b = seg" "length b = p"
    by (simp_all add: read_write_u16 length_pad_segment) (simp_all add: pad_segment_def mem_read_def read_write_u16)
  with p Cons show ?case by simp
qed simp

section \<open>Splitting into segments\<close>

function chunks :: "nat \<Rightarrow> 'a list \<Rightarrow> 'a list list" where
  "chunks e xs = (if xs = [] \<or> e = 0 then [] else take e xs # chunks e (drop e xs))"
  by auto
termination by (relation "measure (length \<circ> snd)") auto

declare chunks.simps [simp del]

lemma concat_chunks: "0 < e \<Longrightarrow> concat (chunks e xs) = xs"
  by (induction e xs rule: chunks.induct) (subst chunks.simps, auto)

lemma chunks_lengths: "c \<in> set (chunks e xs) \<Longrightarrow> length c \<le> e"
  by (induction e xs rule: chunks.induct) (subst (asm) (2) chunks.simps, auto split: if_splits)

lemma chunks_nonempty: "c \<in> set (chunks e xs) \<Longrightarrow> c \<noteq> []"
  by (induction e xs rule: chunks.induct) (subst (asm) (2) chunks.simps, auto split: if_splits)

text \<open>Rounding up, as a Galois connection on naturals.\<close>

definition cdiv :: "nat \<Rightarrow> nat \<Rightarrow> nat" where
  "cdiv a b = nat (int_div_roundup (int a) (int b))"

lemma cdiv_le_iff:
  assumes "0 < b"
  shows "cdiv a b \<le> n \<longleftrightarrow> a \<le> n * b"
proof
  have b: "0 < int b" using assms by simp
  show "a \<le> n * b" if "cdiv a b \<le> n"
  proof -
    have "int_div_roundup (int a) (int b) \<le> int n" using that by (simp add: cdiv_def)
    then have "int b * int_div_roundup (int a) (int b) \<le> int b * int n" by (intro mult_left_mono) auto
    with int_div_roundup_bounds(1) [OF b, of "int a"] have "int a \<le> int (n * b)" by (simp add: mult.commute)
    then show ?thesis by linarith
  qed
  show "cdiv a b \<le> n" if "a \<le> n * b"
  proof -
    have "int a \<le> int b * int n" using that by (metis mult.commute of_nat_le_iff of_nat_mult)
    from int_div_roundup_least [OF b this] show ?thesis by (simp add: cdiv_def)
  qed
qed

lemma cdiv_upper: "0 < b \<Longrightarrow> a \<le> cdiv a b * b"
  using cdiv_le_iff [of b a "cdiv a b"] by simp

lemma cdiv_pos: "0 < b \<Longrightarrow> 0 < a \<Longrightarrow> 0 < cdiv a b"
  using cdiv_le_iff [of b a 0] by auto

lemma cdiv_step:
  assumes "0 < b" "0 < a"
  shows "cdiv a b = Suc (cdiv (a - b) b)"
proof (rule antisym)
  show "cdiv a b \<le> Suc (cdiv (a - b) b)"
    unfolding cdiv_le_iff [OF assms(1)] using cdiv_upper [OF assms(1), of "a - b"] by simp
  obtain m where m: "cdiv a b = Suc m"
    using cdiv_pos [OF assms] by (cases "cdiv a b") auto
  then have "a - b \<le> m * b" using cdiv_upper [OF assms(1), of a] by simp
  then show "Suc (cdiv (a - b) b) \<le> cdiv a b"
    unfolding m by (simp add: cdiv_le_iff [OF assms(1)])
qed

lemma length_chunks: "0 < e \<Longrightarrow> length (chunks e xs) = cdiv (length xs) e"
proof (induction e xs rule: chunks.induct)
  case (1 e xs)
  show ?case
  proof (cases "xs = []")
    case True
    have "cdiv 0 e = 0" using cdiv_le_iff [OF 1(2), of 0 0] by simp
    with True show ?thesis by (subst chunks.simps) simp
  next
    case False
    then have "cdiv (length xs) e = Suc (cdiv (length xs - e) e)" using 1(2) by (intro cdiv_step) auto
    with 1 False show ?thesis by (subst chunks.simps) simp
  qed
qed

text \<open>Distributing evenly does not change the number of segments.\<close>

lemma cdiv_even:
  assumes "0 < L" "0 < k"
  defines "n \<equiv> cdiv L k"
  shows "cdiv L (cdiv L n) = n" "cdiv L n \<le> k" "0 < n" "0 < cdiv L n" "cdiv L n \<le> L"
proof -
  show n: "0 < n" unfolding n_def by (rule cdiv_pos [OF assms(2,1)])
  show e: "0 < cdiv L n" by (rule cdiv_pos [OF n assms(1)])
  show le: "cdiv L n \<le> k" unfolding cdiv_le_iff [OF n]
    using cdiv_upper [OF assms(2), of L] unfolding n_def by (simp add: mult.commute)
  show "cdiv L n \<le> L" unfolding cdiv_le_iff [OF n] using n by simp
  show "cdiv L (cdiv L n) = n"
  proof (rule antisym)
    show "cdiv L (cdiv L n) \<le> n" unfolding cdiv_le_iff [OF e]
      using cdiv_upper [OF n, of L] by (simp add: mult.commute)
    have "L \<le> cdiv L (cdiv L n) * cdiv L n" by (rule cdiv_upper [OF e])
    also have "\<dots> \<le> cdiv L (cdiv L n) * k" using le by simp
    finally show "n \<le> cdiv L (cdiv L n)" unfolding n_def cdiv_le_iff [OF assms(2)] .
  qed
qed

lemma count_segments_eq:
  assumes "0 < room"
  shows "count_segments r room n = Some (n + cdiv r room)"
proof (induction r arbitrary: n rule: less_induct)
  case (less r)
  show ?case
  proof (cases "r = 0")
    case True
    have "cdiv 0 room = 0" using cdiv_le_iff [OF assms, of 0 0] by simp
    with True show ?thesis by (subst count_segments.simps) simp
  next
    case False
    then have "cdiv r room = Suc (cdiv (r - room) room)" using assms by (intro cdiv_step) auto
    moreover have "r - min r room = r - room" by simp
    ultimately show ?thesis using less [of "r - room" "n + 1"] False assms
      by (subst count_segments.simps) simp
  qed
qed

lemma count_segments_diverges: "0 < r \<Longrightarrow> count_segments r 0 n = None"
proof -
  have "count_segments r room n = Some m \<Longrightarrow> room = 0 \<longrightarrow> r = 0" for r room n m
    by (erule count_segments.raw_induct [rotated]) (force split: if_splits)
  then show "0 < r \<Longrightarrow> count_segments r 0 n = None" by (cases "count_segments r 0 n") auto
qed

definition add_segments :: "byte list list \<Rightarrow> FECEncoder \<Rightarrow> FECEncoder" where
  "add_segments cs e =
     (let acc = fe_num_accepted_buffers e
      in e\<lparr>fe_buffers := take acc (fe_buffers e) @ cs @ drop (acc + length cs) (fe_buffers e),
           fe_buffer_sizes :=
             take acc (fe_buffer_sizes e) @ map length cs @ drop (acc + length cs) (fe_buffer_sizes e),
           fe_max_packet_size := fold (\<lambda>c m. max m (int (length c))) cs (fe_max_packet_size e),
           fe_num_accepted_buffers := acc + length cs\<rparr>)"

lemma take_update_Suc: "i < length xs \<Longrightarrow> take (Suc i) (xs[i := v]) = take i xs @ [v]"
  by (simp add: take_Suc_conv_app_nth)

lemma split_loop_eq:
  assumes "0 < n" "fe_num_real_buffers e \<le> length (fe_buffers e)"
    and "length (fe_buffer_sizes e) = length (fe_buffers e)"
    and "fe_num_accepted_buffers e + length (chunks n rest) \<le> fe_num_real_buffers e"
  shows "split_loop n rest e = Some (add_segments (chunks n rest) e)"
  using assms
proof (induction "length rest" arbitrary: rest e rule: less_induct)
  case less
  show ?case
  proof (cases "rest = []")
    case True
    then show ?thesis
      by (subst split_loop.simps) (simp add: chunks.simps add_segments_def Let_def)
  next
    case False
    let ?acc = "fe_num_accepted_buffers e" and ?c = "take n rest" and ?rest = "drop n rest"
    define f where "f = e\<lparr>fe_buffers := (fe_buffers e)[?acc := ?c],
      fe_buffer_sizes := (fe_buffer_sizes e)[?acc := length ?c],
      fe_max_packet_size := max (fe_max_packet_size e) (int (length ?c)),
      fe_num_accepted_buffers := ?acc + 1\<rparr>"
    have ch: "chunks n rest = ?c # chunks n ?rest"
      using False less.prems(1) by (subst chunks.simps) simp
    then have acc: "?acc < length (fe_buffers e)" "?acc + 1 \<le> fe_num_real_buffers e"
      using less.prems by simp_all
    have "split_loop n ?rest f = Some (add_segments (chunks n ?rest) f)"
      by (rule less.hyps) (use False less.prems ch in \<open>auto simp: f_def\<close>)
    moreover have "add_segments (chunks n ?rest) f = add_segments (chunks n rest) e"
      using acc less.prems(3) unfolding ch
      by (simp add: add_segments_def f_def Let_def take_update_Suc)
    moreover have "split_loop n rest e = split_loop n ?rest f"
      using False acc(2) by (subst split_loop.simps) (simp add: f_def Let_def min_def)
    ultimately show ?thesis by simp
  qed
qed

text \<open>The segments of a message: one empty segment, or chunks of even size.\<close>

definition segments :: "nat \<Rightarrow> byte list \<Rightarrow> byte list list" where
  "segments n msg = (if msg = [] then [[]] else chunks (cdiv (length msg) n) msg)"

definition segment_size :: "nat \<Rightarrow> byte list \<Rightarrow> nat" where
  "segment_size n msg = (if msg = [] then 0 else cdiv (length msg) n)"

text \<open>The number of segments that the code computes for packets of at most \<open>sz\<close> bytes.\<close>

definition num_segments :: "nat \<Rightarrow> byte list \<Rightarrow> nat" where
  "num_segments sz msg = nat (fec_encoder_get_num_real_buffers (int (length msg)) (int sz))"

lemma num_segments_eq:
  "2 < sz \<Longrightarrow> num_segments sz msg = (if msg = [] then 1 else cdiv (length msg) (sz - 2))"
  by (simp add: num_segments_def fec_encoder_get_num_real_buffers_def cdiv_def FEC_HEADER_SIZE_def)

lemma segments_props:
  assumes "2 < sz" "n = num_segments sz msg"
  shows "length (segments n msg) = n" "concat (segments n msg) = msg" "0 < n"
    "\<And>c. c \<in> set (segments n msg) \<Longrightarrow> length c \<le> segment_size n msg"
    "segment_size n msg + 2 \<le> sz"
proof -
  have *: "length (segments n msg) = n \<and> concat (segments n msg) = msg \<and> 0 < n \<and>
    (\<forall>c \<in> set (segments n msg). length c \<le> segment_size n msg) \<and> segment_size n msg + 2 \<le> sz"
  proof (cases "msg = []")
    case True
    then show ?thesis using assms num_segments_eq [OF assms(1), of msg]
      by (simp add: segments_def segment_size_def)
  next
    case False
    then have n: "n = cdiv (length msg) (sz - 2)" using assms num_segments_eq [OF assms(1), of msg] by simp
    note c = cdiv_even [of "length msg" "sz - 2", folded n]
    from False assms(1) c show ?thesis
      by (auto simp: segments_def segment_size_def length_chunks concat_chunks dest: chunks_lengths)
  qed
  then show "length (segments n msg) = n" "concat (segments n msg) = msg" "0 < n"
    "\<And>c. c \<in> set (segments n msg) \<Longrightarrow> length c \<le> segment_size n msg"
    "segment_size n msg + 2 \<le> sz" by auto
qed

lemma fold_max_le:
  "(\<forall>c \<in> set cs. int (length c) \<le> b) \<Longrightarrow> a \<le> b \<Longrightarrow> fold (\<lambda>c m. max m (int (length c))) cs a \<le> b"
  by (induction cs arbitrary: a) auto

lemma fold_max_ge: "a \<le> fold (\<lambda>c m. max m (int (length c))) cs a"
  by (induction cs arbitrary: a) (auto intro: order_trans [OF max.cobounded1])

lemma fold_max_chunks:
  assumes "0 < n" "n \<le> length msg"
  shows "fold (\<lambda>c m. max m (int (length c))) (chunks n msg) (-1) = int n"
proof (rule antisym)
  show "fold (\<lambda>c m. max m (int (length c))) (chunks n msg) (-1) \<le> int n"
    by (rule fold_max_le) (auto dest: chunks_lengths)
  have ch: "chunks n msg = take n msg # chunks n (drop n msg)"
    using assms by (subst chunks.simps) auto
  show "int n \<le> fold (\<lambda>c m. max m (int (length c))) (chunks n msg) (-1)"
    unfolding ch using fold_max_ge [of "int n"] assms(2) by (simp add: min_absorb2)
qed

text \<open>The encoder after a message was registered.\<close>

definition holds_message :: "rs_settings \<Rightarrow> FECEncoder \<Rightarrow> nat \<Rightarrow> nat \<Rightarrow> byte list \<Rightarrow> bool" where
  "holds_message stg e k m msg \<longleftrightarrow> fe_num_real_buffers e = k \<and> fe_num_buffers e = k + m \<and>
     fe_num_accepted_buffers e = k \<and> take k (fe_buffers e) = segments k msg \<and>
     take k (fe_buffer_sizes e) = map length (segments k msg) \<and>
     fe_max_packet_size e = int (segment_size k msg) \<and> \<not> encode_performed e \<and>
     wrapper_state stg (fe_rs_code e) k (k + m) []"

lemma register_message:
  assumes "2 < sz" "sz \<le> MAX_BUFFER_SIZE" "k = num_segments sz msg"
  shows "\<exists>e e'. create_fec_encoder stg k m sz = Some e \<and> fec_encoder_register_buffer e msg = Some e' \<and>
    holds_message stg e' k m msg"
proof -
  note sp = segments_props [OF assms(1,3)]
  obtain w where w: "rs_wrapper_create stg k (k + m) = Some w" "wrapper_state stg w k (k + m) []"
    using wrapper_created [OF sp(3), of "k + m"] by auto
  define e where "e = \<lparr>fe_num_accepted_buffers = 0, fe_num_buffers = k + m, fe_num_real_buffers = k,
    fe_max_buffer_size = sz, fe_buffer_sizes = replicate (k + m) 0, fe_buffers = replicate (k + m) [],
    fe_max_packet_size = -1, fe_rs_code = w, encode_performed = False\<rparr>"
  have c: "create_fec_encoder stg k m sz = Some e"
    using assms w(1) by (simp add: create_fec_encoder_def e_def FEC_HEADER_SIZE_def Let_def)
  show ?thesis
  proof (cases "msg = []")
    case True
    then have k: "k = 1" using assms num_segments_eq [OF assms(1), of msg] by simp
    with True c w(2) show ?thesis
      by (auto simp: fec_encoder_register_buffer_def e_def holds_message_def segments_def segment_size_def
          take_Suc)
  next
    case False
    then have k: "k = cdiv (length msg) (sz - 2)" using assms num_segments_eq [OF assms(1), of msg] by simp
    define n where "n = cdiv (length msg) k"
    have cd: "cdiv (length msg) n = k" "0 < n" "n \<le> length msg"
      using cdiv_even [of "length msg" "sz - 2", folded k] False assms(1) by (auto simp: n_def)
    have "split_loop n msg e = Some (add_segments (chunks n msg) e)"
      by (rule split_loop_eq) (use cd in \<open>auto simp: e_def length_chunks\<close>)
    moreover have "count_segments (length msg) (sz - 2) 0 = Some k"
      using count_segments_eq [of "sz - 2" "length msg" 0] assms(1) k by simp
    moreover have "nat (int_div_roundup (int (length msg)) (int k)) = n" by (simp add: n_def cdiv_def)
    moreover have "fe_max_buffer_size e = sz" "fe_num_real_buffers e = k"
      "fe_num_accepted_buffers (add_segments (chunks n msg) e) = k"
      "fe_num_real_buffers (add_segments (chunks n msg) e) = k"
      using cd by (simp_all add: e_def add_segments_def Let_def length_chunks)
    ultimately have r: "fec_encoder_register_buffer e msg = Some (add_segments (chunks n msg) e)"
      using False by (simp add: fec_encoder_register_buffer_def FEC_HEADER_SIZE_def Let_def)
    have "holds_message stg (add_segments (chunks n msg) e) k m msg"
      using False cd w(2) fold_max_chunks [OF cd(2,3)]
      by (simp add: holds_message_def add_segments_def e_def Let_def length_chunks segments_def
          segment_size_def n_def)
    with c r show ?thesis by blast
  qed
qed

section \<open>The packets of a message\<close>

text \<open>What the sender transmits for index \<open>i\<close>.\<close>

definition packet_of :: "byte list list \<Rightarrow> nat list \<Rightarrow> nat \<Rightarrow> byte list" where
  "packet_of bufs sizes i = take (sizes ! i) (bufs ! i)"

definition encodes :: "rs_lib \<Rightarrow> rs_settings \<Rightarrow> (nat \<Rightarrow> byte) \<Rightarrow> nat \<Rightarrow> nat \<Rightarrow> byte list \<Rightarrow> byte list list \<Rightarrow> nat list \<Rightarrow> bool" where
  "encodes lib stg junk k m msg bufs sizes \<longleftrightarrow>
     (let payload = 2 + segment_size k msg; padded = map (pad_segment payload) (segments k msg)
      in \<exists>w dst. wrapper_state stg w k (k + m) [] \<and>
           rs_wrapper_encode lib w padded (replicate m (map junk [0..<payload])) payload = Some dst \<and>
           length dst = m \<and> (\<forall>b \<in> set dst. length b = payload) \<and> bufs = padded @ dst \<and>
           sizes = map (\<lambda>seg. 2 + length seg) (segments k msg) @ replicate m payload)"

lemma encode_message:
  assumes "2 < sz" "k = num_segments sz msg" "holds_message stg e k m msg"
    and "shape_sound lib stg k (k + m) (2 + segment_size k msg)"
  shows "\<exists>e' bufs sizes. fec_get_encoded_buffers lib junk e = Some (e', bufs, sizes) \<and>
    encodes lib stg junk k m msg bufs sizes"
proof -
  note sp = segments_props [OF assms(1,2)]
  define p where "p = 2 + segment_size k msg"
  define padded where "padded = map (pad_segment p) (segments k msg)"
  define sizes where "sizes = map (\<lambda>seg. 2 + length seg) (segments k msg)"
  have h: "fe_num_real_buffers e = k" "fe_num_buffers e = k + m" "fe_num_accepted_buffers e = k"
    "take k (fe_buffers e) = segments k msg" "take k (fe_buffer_sizes e) = map length (segments k msg)"
    "fe_max_packet_size e = int (segment_size k msg)" "\<not> encode_performed e"
    "wrapper_state stg (fe_rs_code e) k (k + m) []"
    using assms(3) by (simp_all add: holds_message_def)
  have nth: "fe_buffers e ! i = segments k msg ! i" "fe_buffer_sizes e ! i = length (segments k msg ! i)"
    if "i < k" for i
    using h(4,5) that sp(1) by (metis nth_take, metis nth_map nth_take)
  have pad: "map (\<lambda>i. pad_segment p (take (fe_buffer_sizes e ! i) (fe_buffers e ! i))) [0..<k] = padded"
    unfolding padded_def by (rule nth_equalityI) (use sp(1) nth in auto)
  have siz: "map (\<lambda>i. 2 + fe_buffer_sizes e ! i) [0..<k] = sizes"
    unfolding sizes_def by (rule nth_equalityI) (use sp(1) nth in auto)
  have pl: "\<forall>b \<in> set padded. length b = p"
    using sp(4) by (auto simp: length_pad_segment padded_def p_def)
  obtain dst where d: "rs_wrapper_encode lib (fe_rs_code e) padded (replicate m (map junk [0..<p])) p = Some dst"
    "length dst = m" "\<forall>b \<in> set dst. length b = p"
    using rs.encoded [OF assms(4) [folded p_def] h(8) _ pl, of "replicate m (map junk [0..<p])"] sp(1)
    by (auto simp: padded_def)
  have np: "nat (2 + fe_max_packet_size e) = p" using h(6) by (simp add: p_def)
  from d h(8) have "encodes lib stg junk k m msg (padded @ dst) (sizes @ replicate m p)"
    unfolding encodes_def Let_def p_def padded_def sizes_def by blast
  moreover have "\<exists>e'. fec_get_encoded_buffers lib junk e = Some (e', padded @ dst, sizes @ replicate m p)"
    using h(1-3,7) d(1) by (simp add: fec_get_encoded_buffers_def np pad siz del: One_nat_def add_2_eq_Suc)
  ultimately show ?thesis by blast
qed

text \<open>Sent packets: an original is its header and segment, a recovery packet a full payload.\<close>

lemma packet_of_encoded:
  assumes "2 < sz" "k = num_segments sz msg" "encodes lib stg junk k m msg bufs sizes"
  shows "i < k \<Longrightarrow> packet_of bufs sizes i = write_u16 (length (segments k msg ! i)) @ segments k msg ! i"
    and "k \<le> i \<Longrightarrow> i < k + m \<Longrightarrow> packet_of bufs sizes i = bufs ! i"
    and "i < k + m \<Longrightarrow> length (bufs ! i) = 2 + segment_size k msg"
    and "i < k + m \<Longrightarrow> length (packet_of bufs sizes i) \<le> 2 + segment_size k msg"
    and "i < k + m \<Longrightarrow> packet_of bufs sizes i @
      replicate (2 + segment_size k msg - length (packet_of bufs sizes i)) 0 = bufs ! i"
proof -
  note sp = segments_props [OF assms(1,2)]
  let ?p = "2 + segment_size k msg"
  obtain dst where b: "length dst = m" "\<forall>b \<in> set dst. length b = ?p"
    "bufs = map (pad_segment ?p) (segments k msg) @ dst"
    "sizes = map (\<lambda>seg. 2 + length seg) (segments k msg) @ replicate m ?p"
    using assms(3) by (auto simp: encodes_def Let_def)
  have real: "packet_of bufs sizes i = write_u16 (length (segments k msg ! i)) @ segments k msg ! i"
    "bufs ! i = pad_segment ?p (segments k msg ! i)" "length (segments k msg ! i) \<le> segment_size k msg" if "i < k"
    using that sp(1) sp(4) by (simp_all add: packet_of_def b nth_append pad_segment_def)
  have fec: "packet_of bufs sizes i = bufs ! i" "length (bufs ! i) = ?p" if "k \<le> i" "i < k + m"
    using that sp(1) b(1,2) by (simp_all add: packet_of_def b(3,4) nth_append)
  show "i < k \<Longrightarrow> packet_of bufs sizes i = write_u16 (length (segments k msg ! i)) @ segments k msg ! i"
    and "k \<le> i \<Longrightarrow> i < k + m \<Longrightarrow> packet_of bufs sizes i = bufs ! i" using real fec by auto
  show len: "length (bufs ! i) = ?p" if "i < k + m"
    using real fec that by (cases "i < k") (auto simp: length_pad_segment)
  show "length (packet_of bufs sizes i) \<le> ?p" if "i < k + m"
    using real fec that by (cases "i < k") auto
  show "packet_of bufs sizes i @ replicate (?p - length (packet_of bufs sizes i)) 0 = bufs ! i" if "i < k + m"
    using real fec that by (cases "i < k") (auto simp: pad_segment_def)
qed

section \<open>Receiving\<close>

definition dec_state :: "rs_settings \<Rightarrow> FECDecoder \<Rightarrow> nat \<Rightarrow> nat \<Rightarrow> nat \<Rightarrow> (nat \<Rightarrow> byte list) \<Rightarrow> nat list \<Rightarrow> bool" where
  "dec_state stg d k m sz pk idxs \<longleftrightarrow>
     fd_num_real_buffers d = k \<and> fd_num_buffers d = k + m \<and> fd_max_buffer_size d = sz \<and>
     length (fd_buffers d) = k + m \<and> length (fd_buffer_sizes d) = k + m \<and>
     (\<forall>i < k + m. fd_buffer_sizes d ! i = (if i \<in> set idxs then int (length (pk i)) else -1)) \<and>
     (\<forall>i \<in> set idxs. fd_buffers d ! i = pk i) \<and>
     fd_num_accepted_buffers d = length idxs \<and>
     fd_num_accepted_real_buffers d = length (filter (\<lambda>i. i < k) idxs) \<and>
     (\<forall>i \<in> set idxs. int (length (pk i)) \<le> fd_max_packet_size d) \<and>
     (idxs \<noteq> [] \<longrightarrow> (\<exists>i \<in> set idxs. fd_max_packet_size d = int (length (pk i)))) \<and>
     (idxs = [] \<longrightarrow> fd_max_packet_size d = -1) \<and>
     \<not> recovery_performed d \<and> wrapper_state stg (fd_rs_code d) k (k + m) idxs"

lemma create_fec_decoder_ok:
  assumes "0 < k" "sz \<le> MAX_BUFFER_SIZE"
  shows "\<exists>d. create_fec_decoder stg k m sz = Some d \<and> dec_state stg d k m sz pk []"
proof -
  obtain w where "rs_wrapper_create stg k (k + m) = Some w" "wrapper_state stg w k (k + m) []"
    using wrapper_created [OF assms(1), of "k + m"] by auto
  then show ?thesis using assms(2) by (simp add: create_fec_decoder_def dec_state_def Let_def)
qed

lemma register_packet_ok:
  assumes "dec_state stg d k m sz pk idxs" "i < k + m" "i \<notin> set idxs" "length (pk i) \<le> sz"
  shows "\<exists>d'. fec_decoder_register_buffer d i (pk i) = Some d' \<and> dec_state stg d' k m sz pk (i # idxs)"
proof -
  have st: "wrapper_state stg (fd_rs_code d) k (k + m) idxs" using assms(1) by (simp add: dec_state_def)
  obtain w where w: "rs_wrapper_decode_helper_register_index (fd_rs_code d) i = Some w"
    "wrapper_state stg w k (k + m) (i # idxs)" using rs.register [OF st assms(2,3)] by blast
  let ?mx = "max (fd_max_packet_size d) (int (length (pk i)))"
  have "\<exists>j \<in> set (i # idxs). ?mx = int (length (pk j))"
  proof (cases "idxs = []")
    case False
    then obtain j where "j \<in> set idxs" "fd_max_packet_size d = int (length (pk j))"
      using assms(1) by (auto simp: dec_state_def)
    then show ?thesis by (cases "fd_max_packet_size d \<le> int (length (pk i))") auto
  qed (use assms(1) in \<open>auto simp: dec_state_def\<close>)
  moreover have "\<forall>j \<in> set (i # idxs). int (length (pk j)) \<le> ?mx"
    using assms(1) by (auto simp: dec_state_def)
  ultimately show ?thesis
    using assms w by (auto simp: fec_decoder_register_buffer_def dec_state_def nth_list_update)
qed

text \<open>Delivering the packets \<open>idx\<close> of a message in that order.\<close>

fun deliver :: "(nat \<Rightarrow> byte list) \<Rightarrow> nat list \<Rightarrow> FECDecoder \<Rightarrow> FECDecoder option" where
  "deliver pk [] d = Some d"
| "deliver pk (i # is) d = do { d \<leftarrow> fec_decoder_register_buffer d i (pk i); deliver pk is d }"

lemma deliver_ok:
  assumes "dec_state stg d k m sz pk idxs" "distinct is" "set is \<subseteq> {..<k + m}" "set is \<inter> set idxs = {}"
    and "\<forall>i < k + m. length (pk i) \<le> sz"
  shows "\<exists>d'. deliver pk is d = Some d' \<and> dec_state stg d' k m sz pk (rev is @ idxs)"
  using assms
proof (induction "is" arbitrary: d idxs)
  case (Cons i "is")
  then obtain e where e: "fec_decoder_register_buffer d i (pk i) = Some e" "dec_state stg e k m sz pk (i # idxs)"
    using register_packet_ok [OF Cons.prems(1), of i] by auto
  with Cons.IH [OF e(2)] Cons.prems show ?case by auto
qed auto

lemma filter_received:
  assumes "dec_state stg d k m sz pk idxs"
  defines "index \<equiv> filter (\<lambda>i. fd_buffer_sizes d ! i \<noteq> -1) [0..<fd_num_buffers d]"
  shows "set index = set idxs" "distinct index" "length index = length idxs"
proof -
  have st: "distinct idxs" "set idxs \<subseteq> {..<k + m}" using assms(1) by (auto simp: dec_state_def wrapper_state_def)
  have n: "fd_num_buffers d = k + m"
    and "\<And>i. i < k + m \<Longrightarrow> fd_buffer_sizes d ! i = (if i \<in> set idxs then int (length (pk i)) else -1)"
    using assms(1) by (simp_all add: dec_state_def)
  then show s: "set index = set idxs" using st(2) by (auto simp: index_def n split: if_splits)
  show d: "distinct index" by (simp add: index_def)
  show "length index = length idxs" using s d st(1) by (metis distinct_card)
qed

text \<open>Fewer originals than needed but enough packets: one of them is a recovery packet.\<close>

lemma some_recovery_packet:
  assumes "distinct idxs" "k \<le> length idxs" "length (filter (\<lambda>i. i < k) idxs) \<noteq> k"
  shows "\<exists>i \<in> set idxs. k \<le> i"
proof (rule ccontr)
  assume "\<not> (\<exists>i \<in> set idxs. k \<le> i)"
  then have all: "set idxs \<subseteq> {..<k}" by (auto simp: not_le)
  then have "filter (\<lambda>i. i < k) idxs = idxs" by (intro filter_True) auto
  moreover have "length idxs \<le> k" using all assms(1) by (metis card_lessThan card_mono distinct_card finite_lessThan)
  ultimately show False using assms(2,3) by simp
qed

lemma all_originals:
  assumes "distinct idxs" "length (filter (\<lambda>i. i < k) idxs) = k"
  shows "{..<k} \<subseteq> set idxs"
proof -
  have "set (filter (\<lambda>i. i < k) idxs) = {..<k}"
    by (rule card_subset_eq) (use assms distinct_card [of "filter (\<lambda>i. i < k) idxs"] in auto)
  then show ?thesis by auto
qed

lemma perform_recovery_ok:
  assumes sz: "2 < sz" "k = num_segments sz msg" and enc: "encodes lib stg junk k m msg bufs sizes"
    and ss: "shape_sound lib stg k (k + m) (2 + segment_size k msg)"
    and st: "dec_state stg d k m sz (packet_of bufs sizes) idxs"
    and can: "rs_wrapper_decode_helper_can_decode (fd_rs_code d) = Some True"
    and need: "fd_num_accepted_real_buffers d \<noteq> k"
  shows "\<exists>d'. perform_recovery lib d = Some d' \<and> fd_num_real_buffers d' = k \<and>
    take k (fd_buffers d') = map (pad_segment (2 + segment_size k msg)) (segments k msg)"
proof -
  define p where "p = 2 + segment_size k msg"
  define index where "index = filter (\<lambda>i. fd_buffer_sizes d ! i \<noteq> -1) [0..<fd_num_buffers d]"
  note pk = packet_of_encoded [OF sz enc, folded p_def]
  note fr = filter_received [OF st, folded index_def]
  have f: "fd_num_real_buffers d = k" "fd_num_buffers d = k + m" "fd_num_accepted_buffers d = length idxs"
    "fd_num_accepted_real_buffers d = length (filter (\<lambda>i. i < k) idxs)"
    "wrapper_state stg (fd_rs_code d) k (k + m) idxs"
    "\<And>i. i \<in> set idxs \<Longrightarrow> fd_buffers d ! i = packet_of bufs sizes i"
    "\<And>i. i \<in> set idxs \<Longrightarrow> int (length (packet_of bufs sizes i)) \<le> fd_max_packet_size d"
    using st by (simp_all add: dec_state_def)
  have dom: "distinct idxs" "\<And>i. i \<in> set idxs \<Longrightarrow> i < k + m"
    using f(5) by (auto simp: wrapper_state_def)
  have size: "fd_buffer_sizes d ! i = int (length (packet_of bufs sizes i))" if "i \<in> set idxs" for i
    using st dom(2) that by (simp add: dec_state_def)
  have len: "k \<le> length idxs" by (rule rs.can_enough [OF f(5) can])
  then have ne: "idxs \<noteq> []" using segments_props(3) [OF sz] by auto
  obtain i where i: "i \<in> set idxs" "k \<le> i" using some_recovery_packet [OF dom(1) len] need f(4) by auto
  then have "int p \<le> fd_max_packet_size d"
    using pk(2) [OF i(2) dom(2) [OF i(1)]] pk(3) [OF dom(2) [OF i(1)]] f(7) [OF i(1)] by simp
  moreover have "fd_max_packet_size d \<le> int p"
    using st ne pk(4) dom(2) by (auto simp: dec_state_def)
  ultimately have mx: "fd_max_packet_size d = int p" by simp
  define pkts where "pkts = map (\<lambda>i. bufs ! i) index @ replicate (k + m - length index) []"
  have packed: "map (\<lambda>i. take (nat (fd_buffer_sizes d ! i)) (fd_buffers d ! i) @
      replicate (p - nat (fd_buffer_sizes d ! i)) 0) index = map (\<lambda>i. bufs ! i) index"
    using fr(1) f(6) size pk(5) dom(2) by (intro map_cong) auto
  obtain w dst where w: "wrapper_state stg w k (k + m) []"
    "rs_wrapper_encode lib w (map (pad_segment p) (segments k msg)) (replicate m (map junk [0..<p])) p = Some dst"
    "bufs = map (pad_segment p) (segments k msg) @ dst"
    using enc by (auto simp: encodes_def Let_def p_def)
  note sp = segments_props [OF sz]
  have ml: "length index \<le> k + m"
    using fr(1,2) dom(2) by (metis card_lessThan card_mono distinct_card finite_lessThan lessThan_iff subsetI)
  have "\<exists>r. rs_wrapper_decode lib (fd_rs_code d) pkts index (length index) p = Some r \<and> length r = k + m \<and>
      take k r = map (pad_segment p) (segments k msg)"
  proof (rule rs.decoded [OF ss [folded p_def] w(1) _ _ _ w(2) f(5) can fr(1,2)])
    show "\<forall>b \<in> set (map (pad_segment p) (segments k msg)). length b = p"
      using sp(4) by (auto simp: length_pad_segment p_def)
    show "\<forall>i < length index. pkts ! i = (map (pad_segment p) (segments k msg) @ dst) ! (index ! i)"
      by (simp add: pkts_def nth_append w(3) [symmetric])
  qed (use sp(1) ml in \<open>auto simp: pkts_def\<close>)
  then obtain r where r: "rs_wrapper_decode lib (fd_rs_code d) pkts index (length index) p = Some r"
    "take k r = map (pad_segment p) (segments k msg)" by blast
  have "\<forall>i \<in> set index. fd_max_packet_size d \<ge> fd_buffer_sizes d ! i"
    using fr(1) size f(7) by simp
  moreover have "filter (\<lambda>i. fd_buffer_sizes d ! i \<noteq> -1) [0..<k + m] = index" by (simp add: index_def f(2))
  ultimately have "perform_recovery lib d = Some (d\<lparr>fd_buffers := r, recovery_performed := True\<rparr>)"
    using len fr(3) f(1-3) r(1) unfolding perform_recovery_def
    by (simp add: mx pkts_def packed Let_def del: map_eq_conv)
  then show ?thesis using f(1) r(2) by (simp add: p_def)
qed

lemma direct_copy_ok:
  assumes sz: "2 < sz" "sz \<le> MAX_BUFFER_SIZE" "k = num_segments sz msg"
    and enc: "encodes lib stg junk k m msg bufs sizes"
    and st: "dec_state stg d k m sz (packet_of bufs sizes) idxs" and all: "{..<k} \<subseteq> set idxs"
  shows "copy_out (take k (fd_buffers d)) = Some msg"
proof -
  note sp = segments_props [OF sz(1,3)] and pk = packet_of_encoded [OF sz(1,3) enc]
  have len: "length (fd_buffers d) = k + m" and b: "\<And>i. i < k \<Longrightarrow> fd_buffers d ! i = packet_of bufs sizes i"
    using st all by (auto simp: dec_state_def)
  have "list_all2 padded_as (take k (fd_buffers d)) (segments k msg)"
  proof (rule list_all2_all_nthI)
    fix i assume "i < length (take k (fd_buffers d))"
    then have i: "i < k" using len by simp
    then have "segments k msg ! i \<in> set (segments k msg)" using sp(1) by simp
    then have l: "2 + length (segments k msg ! i) \<le> sz" using sp(4,5) by fastforce
    have "take k (fd_buffers d) ! i = pad_segment (2 + length (segments k msg ! i)) (segments k msg ! i)"
      using b [OF i] pk(1) [OF i] i by (simp add: pad_segment_def)
    then show "padded_as (take k (fd_buffers d) ! i) (segments k msg ! i)"
      using l sz(2) unfolding padded_as_def by (auto simp: MAX_BUFFER_SIZE_def FEC_HEADER_SIZE_def)
  qed (use sp(1) len in simp)
  then show ?thesis using copy_out_padded sp(2) by metis
qed

lemma recovered_copy_ok:
  assumes "2 < sz" "sz \<le> MAX_BUFFER_SIZE" "k = num_segments sz msg"
  shows "copy_out (map (pad_segment (2 + segment_size k msg)) (segments k msg)) = Some msg"
proof -
  note sp = segments_props [OF assms(1,3)]
  have "list_all2 padded_as (map (pad_segment (2 + segment_size k msg)) (segments k msg)) (segments k msg)"
    unfolding list_all2_map1
  proof (rule list.rel_refl_strong)
    fix seg assume "seg \<in> set (segments k msg)"
    then have "length seg \<le> segment_size k msg" by (rule sp(4))
    then show "padded_as (pad_segment (2 + segment_size k msg) seg) seg"
      using sp(5) assms(2) unfolding padded_as_def
      by (intro conjI exI [of _ "2 + segment_size k msg"]) (auto simp: MAX_BUFFER_SIZE_def FEC_HEADER_SIZE_def)
  qed
  from copy_out_padded [OF this] sp(2) show ?thesis by simp
qed


lemma pair_and_sum:
  assumes "rs_wrapper_create rs_initial_settings 2 3 = Some w"
  shows "num_groups w = 1" "group_real w 0 = 2 \<and> group_fec w 0 = 1"
proof -
  have "find (group_count_ok rs_initial_settings 2 1) [Suc 0..<2] = Some 1"
    by (simp add: upt_rec group_count_ok_def rs_initial_settings_def int_div_roundup_def
        overhead_of_group_def rs_implementation_to_use_def MAX_PACKET_SEGMENT_SIZE_def Let_def)
  then have c: "rs_wrapper_create_inner 2 3 1 = Some w"
    using assms by (simp add: rs_wrapper_create_def Let_def)
  note p = plan_ok_create_inner [OF c]
  show "num_groups w = 1" using p(2) by simp
  then show "group_real w 0 = 2 \<and> group_fec w 0 = 1" using full_index_one [OF p(1)] p(3,4) by simp
qed

lemma pair_and_sum_sound: "shape_sound sum_lib rs_initial_settings 2 (2 + 1) sz"
  using pair_and_sum sum_lib_recovers
  by (auto simp: shape_sound_def RS_FIELD_SIZE_def rs_initial_settings_def)


text \<open>
  C25: The assertion of \<^verbatim>\<open>create_fec_encoder\<close> admits a segment size that has room for the header
  only; registering a non-empty buffer with such an encoder never returns.
\<close>

theorem fec_register_header_only_diverges:
  assumes "0 < k" "msg \<noteq> []"
  shows "\<exists>e. create_fec_encoder stg k m FEC_HEADER_SIZE = Some e \<and> fec_encoder_register_buffer e msg = None"
proof -
  obtain w where "rs_wrapper_create stg k (k + m) = Some w" using wrapper_created [OF assms(1), of "k + m"] by auto
  then show ?thesis using assms(2) count_segments_diverges [of "length msg"]
    by (simp add: create_fec_encoder_def fec_encoder_register_buffer_def Let_def MAX_BUFFER_SIZE_def FEC_HEADER_SIZE_def)
qed

theorem fec_register_header_only_diverges_witness:
  "\<exists>e. create_fec_encoder rs_initial_settings 1 1 FEC_HEADER_SIZE = Some e \<and>
     fec_encoder_register_buffer e [5] = None"
  by (rule fec_register_header_only_diverges) simp_all



end
