(* ===== verification/Network_Settings.thy ===== *)
theory Network_Settings
  imports Whist_Prelude Complex_Main
begin

text \<open>
  What the congestion controller and the ring buffer share: the settings of a connection
  (\<^verbatim>\<open>NetworkSettings\<close> in \<^verbatim>\<open>protocol/whist/network/network.h\<close>) and the conversion of a \<^verbatim>\<open>double\<close> to an \<^verbatim>\<open>int\<close>. Doubles
  are real numbers; rounding is not modelled.
\<close>

datatype CodecType = CODEC_TYPE_UNKNOWN | CODEC_TYPE_H264 | CODEC_TYPE_H265

record NetworkSettings =
  video_bitrate :: int
  burst_bitrate :: int
  audio_fec_ratio :: real
  video_fec_ratio :: real
  desired_codec :: CodecType
  saturate_bandwidth :: bool
  congestion_detected :: bool

text \<open>C converts by dropping the fraction.\<close>

definition trunc :: "real \<Rightarrow> int" where
  "trunc x = (if x \<ge> 0 then \<lfloor>x\<rfloor> else \<lceil>x\<rceil>)"

lemma trunc_mono: "x \<le> y \<Longrightarrow> trunc x \<le> trunc y"
proof (cases "0 \<le> x")
  case False
  assume "x \<le> y"
  show ?thesis
  proof (cases "0 \<le> y")
    case True
    have "\<lceil>x\<rceil> \<le> 0" using False by simp
    moreover have "0 \<le> \<lfloor>y\<rfloor>" using True by simp
    ultimately have "\<lceil>x\<rceil> \<le> \<lfloor>y\<rfloor>" by (rule order_trans)
    then show ?thesis using False True by (simp add: trunc_def)
  next
    case no: False
    then show ?thesis using False ceiling_mono [OF \<open>x \<le> y\<close>] by (simp add: trunc_def)
  qed
qed (simp add: trunc_def floor_mono)

lemma trunc_of_int [simp]: "trunc (of_int k) = k"
  by (simp add: trunc_def)

lemma trunc_nonneg: "0 \<le> x \<Longrightarrow> 0 \<le> trunc x"
  by (simp add: trunc_def)

lemma trunc_le: "0 \<le> x \<Longrightarrow> of_int (trunc x) \<le> x"
  by (simp add: trunc_def)

definition sample_settings :: NetworkSettings where
  "sample_settings = \<lparr>video_bitrate = 4000000, burst_bitrate = 8000000, audio_fec_ratio = 0, video_fec_ratio = 0,
     desired_codec = CODEC_TYPE_H264, saturate_bandwidth = True, congestion_detected = False\<rparr>"

end
