(* ===== verification/Ring_Buffer.thy ===== *)
theory Ring_Buffer
  imports Whist_Memory Fec Network_Settings
begin

text \<open>
  The ring buffer of \<^verbatim>\<open>protocol/whist/network/ringbuffer.c\<close>: it reassembles frames from UDP segments,
  decides which packets to ask for again, and hands complete frames to the renderer.

  The frame array is a list; \<^verbatim>\<open>FrameData*\<close> arguments are the locations \<open>Slot i\<close> and \<open>Rendering\<close> (the
  frame that the renderer owns). Buffers are blocks of the allocator of \<open>Whist_Memory\<close>, the FEC decoder
  is that of \<open>Fec\<close>. Timers are instants and \<open>now\<close> is the current time; \<open>double\<close> values are reals. The
  callbacks \<^verbatim>\<open>nack_packet\<close> and \<^verbatim>\<open>request_stream_reset\<close> are recorded in the fields \<open>sent_nacks\<close> and
  \<open>sent_resets\<close>. \<open>None\<close> is a failed assertion or an access outside an array or block. Logging has no
  effect, except that the log of an overflow calls \<^verbatim>\<open>is_ready_to_render\<close> on every frame.
\<close>

section \<open>Data\<close>

definition MAX_RING_BUFFER_SIZE :: nat where
  "MAX_RING_BUFFER_SIZE = 500"

definition MAX_PACKETS :: nat where
  "MAX_PACKETS = 1000"

definition MAX_PAYLOAD_SIZE :: nat where
  "MAX_PAYLOAD_SIZE = 1285"

definition MAX_PACKET_NACKS :: nat where
  "MAX_PACKET_NACKS = 2"

datatype WhistPacketType = PACKET_AUDIO | PACKET_VIDEO | PACKET_MESSAGE | PACKET_GPU

record FrameData =
  num_original_packets :: nat
  num_fec_packets :: nat
  prev_frame_num_duplicate_packets :: nat
  frame_id :: int
  original_packets_received :: nat
  fec_packets_received :: nat
  duplicate_packets_received :: nat
  nack_packets_received :: nat
  unnecessary_nack_packets_received :: nat
  received_indices :: "nat \<Rightarrow> bool"
  last_nacked_timer :: "nat \<Rightarrow> real"
  packet_buffer :: "addr option"
  frame_buffer :: "addr option"
  frame_buffer_size :: nat
  fec_frame_buffer :: "addr option"
  fec_decoder :: "FECDecoder option"
  successful_fec_recovery :: bool
  num_entire_frame_nacked :: nat
  entire_frame_nacked_id :: int
  last_frame_nack_timer :: real
  num_times_index_nacked :: "nat \<Rightarrow> nat"
  last_nonnack_packet_timer :: real
  frame_creation_timer :: real

text \<open>The frame after \<^verbatim>\<open>memset(frame_data, 0, sizeof(*frame_data))\<close>.\<close>

definition zero_frame :: FrameData where
  "zero_frame = \<lparr>num_original_packets = 0, num_fec_packets = 0, prev_frame_num_duplicate_packets = 0,
     frame_id = 0, original_packets_received = 0, fec_packets_received = 0,
     duplicate_packets_received = 0, nack_packets_received = 0,
     unnecessary_nack_packets_received = 0, received_indices = (\<lambda>_. False),
     last_nacked_timer = (\<lambda>_. 0), packet_buffer = None, frame_buffer = None,
     frame_buffer_size = 0, fec_frame_buffer = None, fec_decoder = None,
     successful_fec_recovery = False, num_entire_frame_nacked = 0, entire_frame_nacked_id = 0,
     last_frame_nack_timer = 0, num_times_index_nacked = (\<lambda>_. 0),
     last_nonnack_packet_timer = 0, frame_creation_timer = 0\<rparr>"

record RingBuffer =
  ring_buffer_size :: nat
  receiving_frames :: "FrameData list"
  rb_type :: WhistPacketType
  largest_frame_size :: nat
  sent_nacks :: "(int \<times> int) list"
  sent_resets :: "int list"
  packet_buffer_allocator :: BlockAllocator
  currently_rendering_id :: int
  currently_rendering_frame :: FrameData
  num_packets_nacked :: nat
  frames_received :: nat
  min_id :: int
  max_id :: int
  num_pending_ready_frames :: int
  last_rendered_id :: int
  last_stream_reset_request_timer :: real
  last_stream_reset_request_id :: int
  burst_timer :: real
  avg_timer :: real
  burst_counter :: int
  avg_counter :: int
  last_nack_possibility :: bool
  num_nacks_received :: nat
  num_original_packets_received :: nat
  num_unnecessary_original_packets_received :: nat
  num_unnecessary_nacks_received :: nat
  num_times_nacking_saturated :: nat
  last_nack_statistics_timer :: real

record WhistSegment =
  whist_type :: WhistPacketType
  seg_id :: int
  seg_index :: nat
  num_indices :: nat
  num_fec_indices :: nat
  segment_bytes :: nat
  prev_frame_num_duplicates :: nat
  is_a_nack :: bool
  is_a_duplicate :: bool
  segment_data :: "byte list"

section \<open>Frames and their locations\<close>

datatype frame_loc = Slot nat | Rendering

fun frame_at :: "RingBuffer \<Rightarrow> frame_loc \<Rightarrow> FrameData" where
  "frame_at rb (Slot i) = receiving_frames rb ! i"
| "frame_at rb Rendering = currently_rendering_frame rb"

fun put_frame :: "RingBuffer \<Rightarrow> frame_loc \<Rightarrow> FrameData \<Rightarrow> RingBuffer" where
  "put_frame rb (Slot i) f = rb\<lparr>receiving_frames := (receiving_frames rb)[i := f]\<rparr>"
| "put_frame rb Rendering f = rb\<lparr>currently_rendering_frame := f\<rparr>"

text \<open>The remainder of a negative id is negative in C, an access in front of the array.\<close>

definition get_frame_at_id :: "RingBuffer \<Rightarrow> int \<Rightarrow> nat option" where
  "get_frame_at_id rb fid = do {
     fatal_assert (0 \<le> fid \<and> 0 < ring_buffer_size rb);
     Some (nat fid mod ring_buffer_size rb) }"

definition get_framebuffer :: "FrameData \<Rightarrow> addr option" where
  "get_framebuffer f =
     (if num_fec_packets f > 0 then
        if successful_fec_recovery f then fec_frame_buffer f else None
      else if original_packets_received f = num_original_packets f then packet_buffer f else None)"

definition is_ready_to_render :: "RingBuffer \<Rightarrow> int \<Rightarrow> (RingBuffer \<times> bool) option" where
  "is_ready_to_render rb fid = do {
     i \<leftarrow> get_frame_at_id rb fid;
     let f = receiving_frames rb ! i;
     if frame_id f \<noteq> fid then Some (rb, False)
     else do {
       fatal_assert (fid \<le> currently_rendering_id rb \<longrightarrow> frame_buffer f = None \<and> get_framebuffer f = None);
       let rb = put_frame rb (Slot i) (f\<lparr>frame_buffer := get_framebuffer f\<rparr>);
       Some (rb, get_framebuffer f \<noteq> None) } }"

definition free_frame_block :: "RingBuffer \<Rightarrow> addr \<Rightarrow> RingBuffer option" where
  "free_frame_block rb a = do {
     b \<leftarrow> free_block (packet_buffer_allocator rb) a;
     Some (rb\<lparr>packet_buffer_allocator := b\<rparr>) }"

definition reset_frame :: "RingBuffer \<Rightarrow> frame_loc \<Rightarrow> RingBuffer option" where
  "reset_frame rb loc = do {
     let f = frame_at rb loc;
     pb \<leftarrow> packet_buffer f;
     rb \<leftarrow> (if frame_buffer f \<noteq> None then
             (case loc of
                Rendering \<Rightarrow> Some (put_frame rb loc (f\<lparr>frame_buffer := None\<rparr>))
              | Slot i \<Rightarrow> do {
                  j \<leftarrow> get_frame_at_id rb (frame_id f);
                  fatal_assert (i = j);
                  Some ((put_frame rb loc (f\<lparr>frame_buffer := None\<rparr>))
                        \<lparr>num_pending_ready_frames := num_pending_ready_frames rb - 1\<rparr>) })
           else Some rb);
     rb \<leftarrow> free_frame_block rb pb;
     let rb = put_frame rb loc ((frame_at rb loc)\<lparr>packet_buffer := None\<rparr>);
     let rb = (if fec_decoder f \<noteq> None
               then put_frame rb loc ((frame_at rb loc)\<lparr>fec_decoder := None\<rparr>) else rb);
     (case fec_frame_buffer f of
        None \<Rightarrow> Some rb
      | Some fb \<Rightarrow> do {
          rb \<leftarrow> free_frame_block rb fb;
          Some (put_frame rb loc ((frame_at rb loc)\<lparr>fec_frame_buffer := None\<rparr>)) }) }"

fun reset_slots :: "nat list \<Rightarrow> RingBuffer \<Rightarrow> RingBuffer option" where
  "reset_slots [] rb = Some rb"
| "reset_slots (i # is) rb = do {
     rb \<leftarrow> (if packet_buffer (receiving_frames rb ! i) \<noteq> None then reset_frame rb (Slot i) else Some rb);
     reset_slots is (put_frame rb (Slot i) zero_frame) }"

definition reset_ring_buffer :: "RingBuffer \<Rightarrow> RingBuffer option" where
  "reset_ring_buffer rb = do {
     rb \<leftarrow> reset_slots [0..<ring_buffer_size rb] rb;
     Some (rb\<lparr>max_id := -1, min_id := -1, frames_received := 0, last_rendered_id := -1,
              num_pending_ready_frames := 0\<rparr>) }"

text \<open>The header that a frame buffer has room for besides the payload of the frame.\<close>

definition PACKET_HEADER_SIZE :: nat where
  "PACKET_HEADER_SIZE = MAX_PACKET_SEGMENT_SIZE - MAX_PAYLOAD_SIZE"

definition init_ring_buffer :: "region_os \<Rightarrow> FrameData \<Rightarrow> WhistPacketType \<Rightarrow> nat \<Rightarrow> nat \<Rightarrow> real \<Rightarrow> RingBuffer option" where
  "init_ring_buffer s uninit type max_frame_size n_slots now = do {
     fatal_assert (n_slots \<le> MAX_RING_BUFFER_SIZE);
     let largest = PACKET_HEADER_SIZE + max_frame_size;
     reset_ring_buffer
       \<lparr>ring_buffer_size = n_slots,
        receiving_frames = replicate n_slots (uninit\<lparr>frame_id := -1, entire_frame_nacked_id := -1, packet_buffer := None\<rparr>),
        rb_type = type, largest_frame_size = largest, sent_nacks = [], sent_resets = [],
        packet_buffer_allocator = create_block_allocator s (of_nat largest),
        currently_rendering_id = -1, currently_rendering_frame = uninit, num_packets_nacked = 0,
        frames_received = 0, min_id = -1, max_id = -1, num_pending_ready_frames = 0,
        last_rendered_id = -1, last_stream_reset_request_timer = now,
        last_stream_reset_request_id = -1, burst_timer = now, avg_timer = now, burst_counter = 0,
        avg_counter = 0, last_nack_possibility = True, num_nacks_received = 0,
        num_original_packets_received = 0, num_unnecessary_original_packets_received = 0,
        num_unnecessary_nacks_received = 0, num_times_nacking_saturated = 0,
        last_nack_statistics_timer = now\<rparr> }"

definition destroy_ring_buffer :: "RingBuffer \<Rightarrow> region_os option" where
  "destroy_ring_buffer rb = do {
     rb \<leftarrow> reset_ring_buffer rb;
     rb \<leftarrow> (if currently_rendering_id rb \<noteq> -1 then reset_frame rb Rendering else Some rb);
     destroy_block_allocator (packet_buffer_allocator rb) }"

section \<open>Receiving a segment\<close>

text \<open>The frame \<open>f\<close> of a slot set up for the id \<open>fid\<close>; nacks for the entire frame count for each of its packets.\<close>

definition fresh_frame :: "real \<Rightarrow> FrameData \<Rightarrow> int \<Rightarrow> nat \<Rightarrow> nat \<Rightarrow> nat \<Rightarrow> addr \<Rightarrow> FrameData" where
  "fresh_frame now f fid num_original num_fec prev_dups pb =
     (let entire = (if entire_frame_nacked_id f = fid then num_entire_frame_nacked f else 0);
          nack_timer = (if entire_frame_nacked_id f = fid then last_frame_nack_timer f else 0);
          f = zero_frame\<lparr>frame_id := fid, packet_buffer := Some pb, num_original_packets := num_original,
                num_fec_packets := num_fec, prev_frame_num_duplicate_packets := prev_dups\<rparr>;
          f = (if entire \<noteq> 0 then
                 f\<lparr>num_entire_frame_nacked := entire,
                   num_times_index_nacked := (\<lambda>j. if j < num_original + num_fec then entire else 0),
                   last_nacked_timer := (\<lambda>j. if j < num_original + num_fec then nack_timer else 0)\<rparr>
               else f)
      in f\<lparr>frame_creation_timer := now\<rparr>)"

definition init_frame :: "rs_settings \<Rightarrow> real \<Rightarrow> RingBuffer \<Rightarrow> int \<Rightarrow> nat \<Rightarrow> nat \<Rightarrow> nat \<Rightarrow> RingBuffer option" where
  "init_frame stg now rb fid num_original num_fec prev_dups = do {
     i \<leftarrow> get_frame_at_id rb fid;
     let f = receiving_frames rb ! i;
     fatal_assert (packet_buffer f = None);
     (b, pb) \<leftarrow> allocate_block (packet_buffer_allocator rb);
     let f = fresh_frame now f fid num_original num_fec prev_dups pb;
     if num_fec > 0 then do {
       d \<leftarrow> create_fec_decoder stg num_original num_fec MAX_PACKET_SEGMENT_SIZE;
       (b, fb) \<leftarrow> allocate_block b;
       Some (put_frame (rb\<lparr>packet_buffer_allocator := b\<rparr>) (Slot i)
               (f\<lparr>fec_decoder := Some d, fec_frame_buffer := Some fb, successful_fec_recovery := False\<rparr>)) }
     else Some (put_frame (rb\<lparr>packet_buffer_allocator := b\<rparr>) (Slot i) f) }"

text \<open>The log of an overflow: for every frame, whether the stream could have recovered there.\<close>

fun log_dropped_frames :: "nat list \<Rightarrow> RingBuffer \<Rightarrow> RingBuffer option" where
  "log_dropped_frames [] rb = Some rb"
| "log_dropped_frames (i # is) rb =
     (let f = receiving_frames rb ! i
      in if frame_id f \<noteq> -1 then do {
           (rb, ready) \<leftarrow> is_ready_to_render rb (frame_id f);
           log_dropped_frames is rb }
         else log_dropped_frames is rb)"

text \<open>Making room: what happens when a newer segment finds an older frame in its slot. The result
  says whether the ring buffer overflowed.\<close>

definition evict_resident :: "RingBuffer \<Rightarrow> nat \<Rightarrow> (RingBuffer \<times> bool) option" where
  "evict_resident rb i =
     (let f = receiving_frames rb ! i
      in if packet_buffer f = None then Some (rb, False)
         else if frame_id f > currently_rendering_id rb then do {
           rb \<leftarrow> log_dropped_frames [0..<ring_buffer_size rb] rb;
           rb \<leftarrow> reset_ring_buffer rb;
           Some (rb, True) }
         else do {
           rb \<leftarrow> reset_frame rb (Slot i);
           Some (rb, False) })"

text \<open>The statistics of an accepted segment.\<close>

definition count_segment :: "real \<Rightarrow> RingBuffer \<Rightarrow> nat \<Rightarrow> WhistSegment \<Rightarrow> RingBuffer" where
  "count_segment now rb i seg =
     (let f = receiving_frames rb ! i
      in if is_a_nack seg then
           let f = f\<lparr>nack_packets_received := nack_packets_received f + 1\<rparr>;
               rb = rb\<lparr>num_nacks_received := num_nacks_received rb + 1\<rparr>
           in if whist_type seg = PACKET_VIDEO \<and> received_indices f (seg_index seg) then
                put_frame (rb\<lparr>num_unnecessary_nacks_received := num_unnecessary_nacks_received rb + 1\<rparr>) (Slot i)
                  (f\<lparr>unnecessary_nack_packets_received := unnecessary_nack_packets_received f + 1\<rparr>)
              else put_frame rb (Slot i) f
         else
           let rb = rb\<lparr>num_original_packets_received := num_original_packets_received rb + 1\<rparr>;
               f = f\<lparr>last_nonnack_packet_timer := now\<rparr>;
               rb = (if num_times_index_nacked f (seg_index seg) > 0
                     then rb\<lparr>num_unnecessary_original_packets_received :=
                               num_unnecessary_original_packets_received rb + 1\<rparr> else rb)
           in put_frame rb (Slot i) f)"

text \<open>A copy into a block; outside of the block it would be undefined.\<close>

definition write_block_at :: "BlockAllocator \<Rightarrow> addr \<Rightarrow> nat \<Rightarrow> byte list \<Rightarrow> BlockAllocator option" where
  "write_block_at b a off bs = do {
     fatal_assert (off + length bs \<le> length (block_bytes b a));
     Some (b\<lparr>os := (os b)\<lparr>region_bytes := (region_bytes (os b))(a := mem_write off bs (block_bytes b a))\<rparr>\<rparr>) }"

text \<open>An FEC frame that is not decoded yet: register the packet and try.\<close>

definition try_fec :: "rs_lib \<Rightarrow> RingBuffer \<Rightarrow> nat \<Rightarrow> WhistSegment \<Rightarrow> RingBuffer option" where
  "try_fec lib rb i seg = do {
     let f = receiving_frames rb ! i;
     if num_fec_packets f > 0 \<and> \<not> successful_fec_recovery f then do {
       d \<leftarrow> fec_decoder f;
       d \<leftarrow> fec_decoder_register_buffer d (seg_index seg) (take (segment_bytes seg) (segment_data seg));
       (d, res) \<leftarrow> fec_get_decoded_buffer lib d;
       let f = f\<lparr>fec_decoder := Some d\<rparr>;
       (case res of
          None \<Rightarrow> Some (put_frame rb (Slot i) f)
        | Some bytes \<Rightarrow> do {
            fb \<leftarrow> fec_frame_buffer f;
            b \<leftarrow> write_block_at (packet_buffer_allocator rb) fb 0 bytes;
            Some (put_frame (rb\<lparr>packet_buffer_allocator := b\<rparr>) (Slot i)
                    (f\<lparr>frame_buffer_size := length bytes, successful_fec_recovery := True\<rparr>)) }) }
     else Some rb }"

text \<open>The segment is new: mark it, and store it when the frame is still to be rendered.\<close>

definition mark_received :: "FrameData \<Rightarrow> nat \<Rightarrow> FrameData option" where
  "mark_received f index =
     (let f = f\<lparr>received_indices := (received_indices f)(index := True)\<rparr>
      in if index < num_original_packets f then do {
           let f = f\<lparr>original_packets_received := original_packets_received f + 1\<rparr>;
           fatal_assert (original_packets_received f \<le> num_original_packets f);
           Some f }
         else Some (f\<lparr>fec_packets_received := fec_packets_received f + 1\<rparr>))"

text \<open>Copy the payload, try to decode, and count the frame when this made it ready.\<close>

definition store_payload :: "rs_lib \<Rightarrow> RingBuffer \<Rightarrow> nat \<Rightarrow> WhistSegment \<Rightarrow> bool \<Rightarrow> RingBuffer option" where
  "store_payload lib rb i seg was_ready = do {
     let f = receiving_frames rb ! i;
     pb \<leftarrow> packet_buffer f;
     b \<leftarrow> write_block_at (packet_buffer_allocator rb) pb (seg_index seg * MAX_PACKET_SEGMENT_SIZE)
            (take (segment_bytes seg) (segment_data seg));
     let f = (if num_fec_packets f = 0
              then f\<lparr>frame_buffer_size := frame_buffer_size f + segment_bytes seg\<rparr> else f);
     rb \<leftarrow> try_fec lib (put_frame (rb\<lparr>packet_buffer_allocator := b\<rparr>) (Slot i) f) i seg;
     (rb, ready) \<leftarrow> is_ready_to_render rb (seg_id seg);
     Some (if ready \<and> \<not> was_ready
           then rb\<lparr>frames_received := frames_received rb + 1,
                   num_pending_ready_frames := num_pending_ready_frames rb + 1\<rparr>
           else rb) }"

definition store_segment :: "rs_lib \<Rightarrow> RingBuffer \<Rightarrow> nat \<Rightarrow> WhistSegment \<Rightarrow> RingBuffer option" where
  "store_segment lib rb i seg = do {
     (rb, was_ready) \<leftarrow> is_ready_to_render rb (seg_id seg);
     f \<leftarrow> mark_received (receiving_frames rb ! i) (seg_index seg);
     let rb = put_frame rb (Slot i) f;
     if seg_id seg \<le> currently_rendering_id rb then
       Some (rb\<lparr>num_unnecessary_original_packets_received :=
                  num_unnecessary_original_packets_received rb + 1\<rparr>)
     else if seg_index seg * MAX_PACKET_SEGMENT_SIZE + segment_bytes seg \<ge> largest_frame_size rb then Some rb
     else store_payload lib rb i seg was_ready }"

text \<open>The frame of the segment is in its slot: check, count, and store unless it is a duplicate.\<close>

definition accept_segment :: "rs_lib \<Rightarrow> real \<Rightarrow> RingBuffer \<Rightarrow> nat \<Rightarrow> WhistSegment \<Rightarrow> RingBuffer option" where
  "accept_segment lib now rb i seg = do {
     let f = receiving_frames rb ! i;
     fatal_assert (seg_id seg = frame_id f);
     fatal_assert (num_fec_packets f = num_fec_indices seg);
     fatal_assert (num_original_packets f + num_fec_packets f = num_indices seg);
     let rb = count_segment now rb i seg;
     let f = receiving_frames rb ! i;
     if received_indices f (seg_index seg) then
       Some (if \<not> is_a_nack seg
             then put_frame rb (Slot i) (f\<lparr>duplicate_packets_received := duplicate_packets_received f + 1\<rparr>)
             else rb)
     else store_segment lib rb i seg }"

definition ring_buffer_receive_segment ::
    "rs_lib \<Rightarrow> rs_settings \<Rightarrow> real \<Rightarrow> RingBuffer \<Rightarrow> WhistSegment \<Rightarrow> (RingBuffer \<times> bool) option" where
  "ring_buffer_receive_segment lib stg now rb seg = do {
     fatal_assert (seg_index seg < num_indices seg);
     fatal_assert (num_indices seg \<le> MAX_PACKETS);
     fatal_assert (num_fec_indices seg < num_indices seg);
     fatal_assert (segment_bytes seg \<le> MAX_PACKET_SEGMENT_SIZE);
     i \<leftarrow> get_frame_at_id rb (seg_id seg);
     let f = receiving_frames rb ! i;
     if seg_id seg < frame_id f then
       Some (rb\<lparr>num_unnecessary_original_packets_received :=
                  num_unnecessary_original_packets_received rb + 1\<rparr>, True)
     else if seg_id seg > frame_id f then do {
       (rb, overflowed) \<leftarrow> evict_resident rb i;
       if seg_id seg \<le> last_rendered_id rb then Some (rb, \<not> overflowed)
       else do {
         rb \<leftarrow> init_frame stg now rb (seg_id seg) (num_indices seg - num_fec_indices seg)
                 (num_fec_indices seg) (prev_frame_num_duplicates seg);
         let rb = rb\<lparr>max_id := max (max_id rb) (seg_id seg),
                     min_id := (if min_id rb = -1 then seg_id seg else min (min_id rb) (seg_id seg))\<rparr>;
         rb \<leftarrow> accept_segment lib now rb i seg;
         Some (rb, \<not> overflowed) } }
     else do {
       rb \<leftarrow> accept_segment lib now rb i seg;
       Some (rb, True) } }"

section \<open>Rendering and skipping\<close>

definition set_rendering :: "RingBuffer \<Rightarrow> int \<Rightarrow> RingBuffer option" where
  "set_rendering rb fid = do {
     fatal_assert (\<not> fid \<le> last_rendered_id rb);
     let rb = rb\<lparr>last_rendered_id := fid\<rparr>;
     rb \<leftarrow> (if currently_rendering_id rb \<noteq> -1 then reset_frame rb Rendering else Some rb);
     (rb, ready) \<leftarrow> is_ready_to_render rb fid;
     fatal_assert ready;
     i \<leftarrow> get_frame_at_id rb fid;
     let f = receiving_frames rb ! i;
     fatal_assert (frame_id f = fid);
     let rb = rb\<lparr>currently_rendering_id := fid, currently_rendering_frame := f\<rparr>;
     let rb = put_frame rb (Slot i)
        (f\<lparr>packet_buffer := None, fec_frame_buffer := None, fec_decoder := None, frame_buffer := None\<rparr>);
     let rb = rb\<lparr>num_pending_ready_frames := num_pending_ready_frames rb - 1\<rparr>;
     Some (rb\<lparr>currently_rendering_frame := f\<lparr>frame_buffer := get_framebuffer f\<rparr>\<rparr>) }"

fun drop_older_frames :: "int \<Rightarrow> nat list \<Rightarrow> RingBuffer \<Rightarrow> RingBuffer option" where
  "drop_older_frames fid [] rb = Some rb"
| "drop_older_frames fid (i # is) rb =
     (let f = receiving_frames rb ! i
      in do {
        rb \<leftarrow> (if packet_buffer f \<noteq> None \<and> frame_id f < fid then reset_frame rb (Slot i) else Some rb);
        drop_older_frames fid is rb })"

definition reset_stream :: "RingBuffer \<Rightarrow> int \<Rightarrow> RingBuffer option" where
  "reset_stream rb fid = do {
     fatal_assert (1 \<le> fid);
     if fid \<le> last_rendered_id rb then Some rb
     else do {
       rb \<leftarrow> drop_older_frames fid [0..<ring_buffer_size rb] rb;
       Some (rb\<lparr>last_rendered_id := fid - 1\<rparr>) } }"

fun count_ready :: "int list \<Rightarrow> RingBuffer \<Rightarrow> (RingBuffer \<times> nat) option" where
  "count_ready [] rb = Some (rb, 0)"
| "count_ready (fid # ids) rb = do {
     (rb, ready) \<leftarrow> is_ready_to_render rb fid;
     (rb, n) \<leftarrow> count_ready ids rb;
     Some (rb, n + (if ready then 1 else 0)) }"

text \<open>\<open>check\<close> is the outcome of \<^verbatim>\<open>rand() % SELF_CHECKING_PERIOD == 0\<close>.\<close>

definition get_num_pending_ready_frames :: "bool \<Rightarrow> RingBuffer \<Rightarrow> (RingBuffer \<times> int) option" where
  "get_num_pending_ready_frames check rb = do {
     rb \<leftarrow> (if min_id rb = -1 \<or> max_id rb = -1 then do {
             fatal_assert (num_pending_ready_frames rb = 0);
             Some rb }
           else do {
             let from = max (min_id rb) (last_rendered_id rb + 1);
             let upto = max_id rb;
             if upto - from \<le> 50 \<and> check then do {
               (rb, cnt) \<leftarrow> count_ready [from..upto] rb;
               fatal_assert (int cnt = num_pending_ready_frames rb);
               Some rb }
             else Some rb });
     fatal_assert (num_pending_ready_frames rb \<ge> 0);
     fatal_assert (num_pending_ready_frames rb \<le> int (ring_buffer_size rb));
     Some (rb, num_pending_ready_frames rb) }"

section \<open>Nacking\<close>

definition MAX_FPS :: int where
  "MAX_FPS = 60"

definition latency_plus_jitter :: "real \<Rightarrow> real" where
  "latency_plus_jitter latency = (1 + 3 / 10) * latency + 5 / 1000"

definition nack_single_packet :: "RingBuffer \<Rightarrow> int \<Rightarrow> int \<Rightarrow> RingBuffer" where
  "nack_single_packet rb fid index =
     rb\<lparr>num_packets_nacked := num_packets_nacked rb + 1, sent_nacks := sent_nacks rb @ [(fid, index)]\<rparr>"

text \<open>The loop over the indices of one frame; \<^verbatim>\<open>start_timer\<close> stamps the packet with the real time,
  for which the model takes \<open>now\<close>. The nack counters are 8-bit values.\<close>

fun nack_missing_loop :: "real \<Rightarrow> real \<Rightarrow> nat \<Rightarrow> nat list \<Rightarrow> int \<Rightarrow> int \<Rightarrow> RingBuffer \<Rightarrow> RingBuffer \<times> int" where
  "nack_missing_loop now latency slot [] max_nacks n rb = (rb, n)"
| "nack_missing_loop now latency slot (i # is) max_nacks n rb =
     (if \<not> n < max_nacks then (rb, n)
      else
        let f = receiving_frames rb ! slot
        in if \<not> received_indices f i \<and>
              (num_times_index_nacked f i = 0 \<or> now - last_nacked_timer f i > latency_plus_jitter latency)
           then
             let rb = nack_single_packet rb (frame_id f) (int i);
                 rb = put_frame rb (Slot slot)
                   (f\<lparr>num_times_index_nacked :=
                        (num_times_index_nacked f)(i := (num_times_index_nacked f i + 1) mod 256),
                      last_nacked_timer := (last_nacked_timer f)(i := now)\<rparr>)
             in nack_missing_loop now latency slot is max_nacks (n + 1) rb
           else nack_missing_loop now latency slot is max_nacks n rb)"

definition nack_missing_packets_up_to_index ::
    "real \<Rightarrow> real \<Rightarrow> RingBuffer \<Rightarrow> nat \<Rightarrow> int \<Rightarrow> int \<Rightarrow> RingBuffer \<times> int" where
  "nack_missing_packets_up_to_index now latency rb slot end_index max_nacks =
     nack_missing_loop now latency slot [0..<nat (end_index + 1)] max_nacks 0 rb"

text \<open>A frame of which nothing has arrived is asked for as a whole. The number of packets this is
  counted as is half the size of an average frame.\<close>

definition missing_frame_cost :: "NetworkSettings \<Rightarrow> int" where
  "missing_frame_cost ns =
     max (round (real_of_int (video_bitrate ns) / (60 * 8 * 2) / real MAX_PAYLOAD_SIZE)) 1"

definition nack_missing_frame :: "real \<Rightarrow> real \<Rightarrow> NetworkSettings \<Rightarrow> RingBuffer \<Rightarrow> nat \<Rightarrow> int \<Rightarrow> RingBuffer \<times> int" where
  "nack_missing_frame now latency ns rb slot fid =
     (let f = receiving_frames rb ! slot
      in if entire_frame_nacked_id f \<noteq> fid then
           (nack_single_packet (put_frame rb (Slot slot)
              (f\<lparr>entire_frame_nacked_id := fid, num_entire_frame_nacked := 1, last_frame_nack_timer := now\<rparr>))
              fid (-1), missing_frame_cost ns)
         else if now - last_frame_nack_timer f > latency_plus_jitter latency \<and>
                 num_entire_frame_nacked f < MAX_PACKET_NACKS then
           (nack_single_packet (put_frame rb (Slot slot)
              (f\<lparr>num_entire_frame_nacked := num_entire_frame_nacked f + 1, last_frame_nack_timer := now\<rparr>))
              fid (-1), missing_frame_cost ns)
         else (rb, 0))"

text \<open>The last index that can be expected to have arrived.\<close>

definition nack_upto_index :: "RingBuffer \<Rightarrow> FrameData \<Rightarrow> int \<Rightarrow> int" where
  "nack_upto_index rb f fid =
     (if fid < max_id rb then int (num_original_packets f) - 1
      else case find (received_indices f) (rev [0..<num_original_packets f]) of
             Some i \<Rightarrow> int i | None \<Rightarrow> 0)"

fun unordered_allowance :: "RingBuffer \<Rightarrow> int list \<Rightarrow> int \<Rightarrow> int option" where
  "unordered_allowance rb [] n = Some n"
| "unordered_allowance rb (fid # ids) n =
     (if n > 0 then do {
        j \<leftarrow> get_frame_at_id rb fid;
        let f = receiving_frames rb ! j;
        unordered_allowance rb ids
          (if frame_id f = fid then max (n - int (original_packets_received f)) 0 else n) }
      else Some n)"

fun nack_frames :: "real \<Rightarrow> real \<Rightarrow> int \<Rightarrow> NetworkSettings \<Rightarrow> int \<Rightarrow> int list \<Rightarrow> int \<Rightarrow> RingBuffer \<Rightarrow> (RingBuffer \<times> int) option" where
  "nack_frames now latency max_unordered ns max_nacks [] n rb = Some (rb, n)"
| "nack_frames now latency max_unordered ns max_nacks (fid # ids) n rb =
     (if \<not> n < max_nacks then Some (rb, n)
      else do {
        i \<leftarrow> get_frame_at_id rb fid;
        let f = receiving_frames rb ! i;
        if frame_id f \<noteq> fid then
          let (rb, c) = nack_missing_frame now latency ns rb i fid
          in nack_frames now latency max_unordered ns max_nacks ids (n + c) rb
        else do {
          (rb, ready) \<leftarrow> is_ready_to_render rb fid;
          if ready then nack_frames now latency max_unordered ns max_nacks ids n rb
          else do {
            unordered \<leftarrow> unordered_allowance rb [fid + 1..max_id rb - 1] max_unordered;
            let (rb, c) = nack_missing_packets_up_to_index now latency rb i
                            (nack_upto_index rb f fid - unordered) (max_nacks - n);
            nack_frames now latency max_unordered ns max_nacks ids (n + c) rb } } })"

text \<open>How many packets may be asked for now: the stricter of the burst and the average limit.\<close>

definition nack_budget :: "NetworkSettings \<Rightarrow> RingBuffer \<Rightarrow> int \<times> int" where
  "nack_budget ns rb =
     (let max_burst = trunc (real_of_int (burst_bitrate ns) / 2);
          max_avg = trunc (real_of_int (video_bitrate ns) / 2);
          burst_nacks = max (trunc (real_of_int max_burst * (5 / 1000) / (real MAX_PAYLOAD_SIZE * 8))) 1;
          avg_nacks = trunc (real_of_int max_avg * (100 / 1000) / (real MAX_PAYLOAD_SIZE * 8));
          avg_remaining = avg_nacks - avg_counter rb
      in (min (burst_nacks - burst_counter rb) avg_remaining, avg_remaining))"

definition refresh_nack_windows :: "real \<Rightarrow> RingBuffer \<Rightarrow> RingBuffer" where
  "refresh_nack_windows now rb =
     (let rb = (if now - burst_timer rb > 5 / 1000 then rb\<lparr>burst_counter := 0, burst_timer := now\<rparr> else rb)
      in if now - avg_timer rb > 100 / 1000 then rb\<lparr>avg_counter := 0, avg_timer := now\<rparr> else rb)"

definition try_nacking :: "real \<Rightarrow> real \<Rightarrow> int \<Rightarrow> NetworkSettings \<Rightarrow> RingBuffer \<Rightarrow> (RingBuffer \<times> bool) option" where
  "try_nacking now latency max_unordered ns rb = do {
     fatal_assert (min_id rb \<noteq> -1);
     let rb = refresh_nack_windows now rb;
     let (max_nacks, avg_remaining) = nack_budget ns rb;
     if max_nacks \<le> 0 then
       let saturated = (avg_remaining \<le> 0);
           rb = (if last_nack_possibility rb \<and> saturated
                 then rb\<lparr>last_nack_possibility := False,
                         num_times_nacking_saturated := num_times_nacking_saturated rb + 1\<rparr> else rb)
       in Some (rb, \<not> saturated)
     else do {
       let rb = rb\<lparr>last_nack_possibility := True\<rparr>;
       let from = (if last_rendered_id rb = -1 then max (max_id rb - 5) (min_id rb) else last_rendered_id rb + 1);
       (rb, n) \<leftarrow> nack_frames now latency max_unordered ns max_nacks [from..max_id rb] 0 rb;
       Some (rb\<lparr>burst_counter := burst_counter rb + n, avg_counter := avg_counter rb + n\<rparr>, True) } }"

section \<open>Stream resets and statistics\<close>

definition reset_nack_statistics :: "real \<Rightarrow> RingBuffer \<Rightarrow> RingBuffer" where
  "reset_nack_statistics now rb =
     (if now - last_nack_statistics_timer rb > 5
      then rb\<lparr>num_nacks_received := 0, num_packets_nacked := 0, num_original_packets_received := 0,
              num_unnecessary_original_packets_received := 0, num_unnecessary_nacks_received := 0,
              num_times_nacking_saturated := 0, last_nack_statistics_timer := now\<rparr>
      else rb)"

definition currently_pending_id :: "RingBuffer \<Rightarrow> int" where
  "currently_pending_id rb = (if last_rendered_id rb = -1 then min_id rb else last_rendered_id rb + 1)"

text \<open>The age in milliseconds at which a frame counts as failed.\<close>

definition acceptable_staleness_ms :: "real \<Rightarrow> NetworkSettings \<Rightarrow> FrameData \<Rightarrow> bool \<Rightarrow> real" where
  "acceptable_staleness_ms latency ns f pending_ready =
     (let time_to_transmit = real ((num_original_packets f + num_fec_packets f) * MAX_PAYLOAD_SIZE) * 8 /
                             real_of_int (burst_bitrate ns);
          ms = (time_to_transmit + latency_plus_jitter latency * real MAX_PACKET_NACKS) * 1000;
          ms = max ms 100;
          ms = (if pending_ready then ms * 2 else ms)
      in min ms 300)"

fun find_failed :: "real \<Rightarrow> real \<Rightarrow> NetworkSettings \<Rightarrow> int list \<Rightarrow> int \<Rightarrow> RingBuffer \<Rightarrow> (RingBuffer \<times> int) option" where
  "find_failed now latency ns [] greatest rb = Some (rb, greatest)"
| "find_failed now latency ns (fid # ids) greatest rb = do {
     i \<leftarrow> get_frame_at_id rb fid;
     let f = receiving_frames rb ! i;
     if frame_id f = fid then do {
       (rb, ready) \<leftarrow> is_ready_to_render rb (currently_pending_id rb);
       let failed = ((now - frame_creation_timer f) * 1000 > acceptable_staleness_ms latency ns f ready);
       find_failed now latency ns ids (if failed then max greatest fid else greatest) rb }
     else find_failed now latency ns ids greatest rb }"

definition try_recovering_missing_packets_or_frames ::
    "real \<Rightarrow> real \<Rightarrow> int \<Rightarrow> NetworkSettings \<Rightarrow> RingBuffer \<Rightarrow> RingBuffer option" where
  "try_recovering_missing_packets_or_frames now latency max_unordered ns rb = do {
     let rb = reset_nack_statistics now rb;
     if min_id rb = -1 then Some rb
     else do {
       (rb, possible) \<leftarrow> try_nacking now latency max_unordered ns rb;
       let from = max (currently_pending_id rb) (max_id rb - 60);
       (rb, failed) \<leftarrow> find_failed now latency ns [from..max_id rb] (-1) rb;
       Some (if failed \<noteq> -1 \<and> now - last_stream_reset_request_timer rb > latency / 2
             then rb\<lparr>sent_resets := sent_resets rb @ [failed],
                     last_stream_reset_request_id := max failed (last_stream_reset_request_id rb),
                     last_stream_reset_request_timer := now\<rparr>
             else rb) } }"

text \<open>The packets of one frame that count as sent and as received for the loss ratio.\<close>

definition nacks_sent_for :: "real \<Rightarrow> real \<Rightarrow> FrameData \<Rightarrow> int" where
  "nacks_sent_for now latency f =
     (\<Sum>i \<leftarrow> [0..<num_original_packets f + num_fec_packets f].
        if num_times_index_nacked f i \<noteq> 0
        then int (num_times_index_nacked f i) -
               (if now - last_nacked_timer f i < latency_plus_jitter latency then 1 else 0)
        else 0)"

definition loss_of_frame :: "real \<Rightarrow> real \<Rightarrow> RingBuffer \<Rightarrow> int \<Rightarrow> (int \<times> int) option" where
  "loss_of_frame now latency rb fid = do {
     i \<leftarrow> get_frame_at_id rb fid;
     let f = receiving_frames rb ! i;
     if frame_id f \<noteq> fid \<or> now - frame_creation_timer f > 1 then Some (0, 0)
     else do {
       j \<leftarrow> get_frame_at_id rb (fid + 1);
       let g = receiving_frames rb ! j;
       let follows = (frame_id g = fid + 1);
       let sent = int (num_original_packets f + num_fec_packets f) +
                  max (nacks_sent_for now latency f) (int (nack_packets_received f)) +
                  (if follows then int (prev_frame_num_duplicate_packets g) else 0);
       let recv = int (original_packets_received f + fec_packets_received f +
                       unnecessary_nack_packets_received f) +
                  (if follows then int (duplicate_packets_received f) else 0);
       Some (sent, recv) } }"

definition get_packet_loss_ratio :: "real \<Rightarrow> real \<Rightarrow> RingBuffer \<Rightarrow> real option" where
  "get_packet_loss_ratio now latency rb = do {
     let from = max (max (max_id rb - MAX_FPS) (min_id rb)) 0;
     xs \<leftarrow> those (map (loss_of_frame now latency rb) [from..max_id rb - 1]);
     let sent = sum_list (map fst xs);
     let recv = sum_list (map snd xs);
     Some (if sent > 0 \<and> recv > 0 then real_of_int (sent - recv) / real_of_int sent else 0) }"

section \<open>Ownership of the blocks\<close>

definition blocks :: "FrameData \<Rightarrow> addr list" where
  "blocks f = (case packet_buffer f of None \<Rightarrow> [] | Some a \<Rightarrow> [a]) @
     (case fec_frame_buffer f of None \<Rightarrow> [] | Some a \<Rightarrow> [a])"

definition rendered_blocks :: "RingBuffer \<Rightarrow> addr list" where
  "rendered_blocks rb = (if currently_rendering_id rb = -1 then [] else blocks (currently_rendering_frame rb))"

definition all_blocks :: "RingBuffer \<Rightarrow> addr list" where
  "all_blocks rb = concat (map blocks (receiving_frames rb)) @ rendered_blocks rb"

text \<open>Every block handed out by the allocator is in exactly one place.\<close>

definition owns :: "(size_t \<Rightarrow> bool) \<Rightarrow> RingBuffer \<Rightarrow> bool" where
  "owns ok rb \<longleftrightarrow> distinct (all_blocks rb) \<and> pool_inv ok (packet_buffer_allocator rb) (set (all_blocks rb)) \<and>
     unat (block_size (packet_buffer_allocator rb)) = largest_frame_size rb"

definition valid_loc :: "RingBuffer \<Rightarrow> frame_loc \<Rightarrow> bool" where
  "valid_loc rb loc = (case loc of Slot i \<Rightarrow> i < length (receiving_frames rb)
     | Rendering \<Rightarrow> currently_rendering_id rb \<noteq> -1)"

definition cleared :: "FrameData \<Rightarrow> FrameData" where
  "cleared f = f\<lparr>frame_buffer := None, packet_buffer := None, fec_decoder := None, fec_frame_buffer := None\<rparr>"

lemma blocks_cleared [simp]: "blocks (cleared f) = []" "blocks zero_frame = []"
  by (simp_all add: blocks_def cleared_def zero_frame_def)

lemma frame_put_same [simp]: "valid_loc rb loc \<Longrightarrow> frame_at (put_frame rb loc f) loc = f"
  by (cases loc) (auto simp: valid_loc_def)

lemma put_frame_put [simp]: "put_frame (put_frame rb loc f) loc g = put_frame rb loc g"
  by (cases loc) auto

lemma put_frame_simps [simp]:
  "packet_buffer_allocator (put_frame rb loc f) = packet_buffer_allocator rb"
  "num_pending_ready_frames (put_frame rb loc f) = num_pending_ready_frames rb"
  "currently_rendering_id (put_frame rb loc f) = currently_rendering_id rb"
  "ring_buffer_size (put_frame rb loc f) = ring_buffer_size rb"
  "largest_frame_size (put_frame rb loc f) = largest_frame_size rb"
  "last_rendered_id (put_frame rb loc f) = last_rendered_id rb"
  "length (receiving_frames (put_frame rb loc f)) = length (receiving_frames rb)"
  "max_id (put_frame rb loc f) = max_id rb"
  "min_id (put_frame rb loc f) = min_id rb"
  by (cases loc; simp)+

lemma valid_loc_put [simp]: "valid_loc (put_frame rb loc f) loc' = valid_loc rb loc'"
  by (cases loc; cases loc'; simp add: valid_loc_def)

text \<open>The blocks of one frame sit in the middle of the list of all blocks.\<close>

lemma all_blocks_split:
  assumes "valid_loc rb loc"
  shows "\<exists>A B. all_blocks rb = A @ blocks (frame_at rb loc) @ B \<and>
    (\<forall>g. all_blocks (put_frame rb loc g) = A @ blocks g @ B)"
proof (cases loc)
  case (Slot i)
  let ?F = "receiving_frames rb"
  have i: "i < length ?F" using assms Slot by (simp add: valid_loc_def)
  let ?A = "concat (map blocks (take i ?F))" and ?B = "concat (map blocks (drop (Suc i) ?F)) @ rendered_blocks rb"
  have "all_blocks (put_frame rb loc g) = ?A @ blocks g @ ?B" for g
    using i Slot by (simp add: all_blocks_def rendered_blocks_def upd_conv_take_nth_drop)
  moreover have "all_blocks rb = ?A @ blocks (frame_at rb loc) @ ?B"
    unfolding all_blocks_def using Slot by (subst id_take_nth_drop [OF i]) simp
  ultimately show ?thesis by blast
next
  case Rendering
  then show ?thesis using assms
    by (intro exI [of _ "concat (map blocks (receiving_frames rb))"] exI [of _ "[]"])
      (simp add: all_blocks_def rendered_blocks_def valid_loc_def)
qed

lemma all_blocks_upd [simp]:
  "all_blocks (rb\<lparr>packet_buffer_allocator := b\<rparr>) = all_blocks rb"
  "all_blocks (rb\<lparr>num_pending_ready_frames := n\<rparr>) = all_blocks rb"
  by (simp_all add: all_blocks_def rendered_blocks_def)

lemma put_frame_alloc:
  "(put_frame rb loc f)\<lparr>packet_buffer_allocator := b\<rparr> = put_frame (rb\<lparr>packet_buffer_allocator := b\<rparr>) loc f"
  "(put_frame rb loc f)\<lparr>num_pending_ready_frames := n\<rparr> = put_frame (rb\<lparr>num_pending_ready_frames := n\<rparr>) loc f"
  by (cases loc; simp)+

lemma frame_at_alloc [simp]:
  "frame_at (rb\<lparr>packet_buffer_allocator := b\<rparr>) loc = frame_at rb loc"
  "frame_at (rb\<lparr>num_pending_ready_frames := n\<rparr>) loc = frame_at rb loc"
  by (cases loc; simp)+

lemma valid_loc_alloc [simp]:
  "valid_loc (rb\<lparr>packet_buffer_allocator := b\<rparr>) loc = valid_loc rb loc"
  "valid_loc (rb\<lparr>num_pending_ready_frames := n\<rparr>) loc = valid_loc rb loc"
  by (cases loc; simp add: valid_loc_def)+

text \<open>Resetting a frame returns its blocks and clears it; a ready frame in a slot is no longer pending.\<close>

lemma free_frame_block_eq:
  "free_frame_block rb a =
     map_option (\<lambda>b. rb\<lparr>packet_buffer_allocator := b\<rparr>) (free_block (packet_buffer_allocator rb) a)"
  by (simp add: free_frame_block_def map_option_case split: option.split)

definition free_blocks_of :: "FrameData \<Rightarrow> BlockAllocator \<Rightarrow> BlockAllocator option" where
  "free_blocks_of f b = do {
     b \<leftarrow> free_block b (the (packet_buffer f));
     (case fec_frame_buffer f of None \<Rightarrow> Some b | Some fb \<Rightarrow> free_block b fb) }"

lemma cleared_eqs:
  "cleared (f\<lparr>frame_buffer := None\<rparr>) = cleared f"
  "frame_buffer f = None \<Longrightarrow> fec_decoder f = None \<Longrightarrow> fec_frame_buffer f = None \<Longrightarrow> f\<lparr>packet_buffer := None\<rparr> = cleared f"
  "frame_buffer f = None \<Longrightarrow> fec_decoder f = None \<Longrightarrow> f\<lparr>packet_buffer := None, fec_frame_buffer := None\<rparr> = cleared f"
  "frame_buffer f = None \<Longrightarrow> fec_frame_buffer f = None \<Longrightarrow> f\<lparr>packet_buffer := None, fec_decoder := None\<rparr> = cleared f"
  "frame_buffer f = None \<Longrightarrow> f\<lparr>packet_buffer := None, fec_decoder := None, fec_frame_buffer := None\<rparr> = cleared f"
  "fec_decoder f = None \<Longrightarrow> fec_frame_buffer f = None \<Longrightarrow> f\<lparr>frame_buffer := None, packet_buffer := None\<rparr> = cleared f"
  "fec_decoder f = None \<Longrightarrow> f\<lparr>frame_buffer := None, packet_buffer := None, fec_frame_buffer := None\<rparr> = cleared f"
  "fec_frame_buffer f = None \<Longrightarrow> f\<lparr>frame_buffer := None, packet_buffer := None, fec_decoder := None\<rparr> = cleared f"
  "f\<lparr>frame_buffer := None, packet_buffer := None, fec_decoder := None, fec_frame_buffer := None\<rparr> = cleared f"
  by (simp_all add: cleared_def)

lemma reset_frame_eq:
  assumes "valid_loc rb loc" "packet_buffer (frame_at rb loc) \<noteq> None"
    and "\<And>i. loc = Slot i \<Longrightarrow> frame_buffer (frame_at rb loc) \<noteq> None \<Longrightarrow>
      get_frame_at_id rb (frame_id (frame_at rb loc)) = Some i"
  shows "reset_frame rb loc = map_option (\<lambda>b.
    put_frame (rb\<lparr>packet_buffer_allocator := b,
      num_pending_ready_frames := num_pending_ready_frames rb -
        (if loc \<noteq> Rendering \<and> frame_buffer (frame_at rb loc) \<noteq> None then 1 else 0)\<rparr>) loc
      (cleared (frame_at rb loc))) (free_blocks_of (frame_at rb loc) (packet_buffer_allocator rb))"
proof -
  obtain pb where pb: "packet_buffer (frame_at rb loc) = Some pb" using assms(2) by blast
  show ?thesis
  proof (cases loc)
    case (Slot i)
    have i: "i < length (receiving_frames rb)" using assms(1) Slot by (simp add: valid_loc_def)
    define f where "f = receiving_frames rb ! i"
    have g: "get_frame_at_id rb (frame_id f) = Some i" if "frame_buffer f \<noteq> None"
      using assms(3) [OF Slot] that Slot by (simp add: f_def)
    have p: "packet_buffer f = Some pb" using pb Slot by (simp add: f_def)
    show ?thesis
      using i g p unfolding Slot
      by (cases "frame_buffer f"; cases "fec_frame_buffer f"; cases "free_block (packet_buffer_allocator rb) pb")
        (auto simp: reset_frame_def f_def [symmetric] free_frame_block_eq free_blocks_of_def cleared_eqs Let_def
          map_option_case split: option.splits)
  next
    case Rendering
    define f where "f = currently_rendering_frame rb"
    have p: "packet_buffer f = Some pb" using pb Rendering by (simp add: f_def)
    show ?thesis
      using p unfolding Rendering
      by (cases "frame_buffer f"; cases "fec_frame_buffer f"; cases "free_block (packet_buffer_allocator rb) pb")
        (auto simp: reset_frame_def f_def [symmetric] free_frame_block_eq free_blocks_of_def cleared_eqs Let_def
          map_option_case split: option.splits)
  qed
qed

lemma free_blocks_of_ok:
  assumes "pool_inv ok b (set (A @ blocks f @ B))" "distinct (A @ blocks f @ B)" "packet_buffer f \<noteq> None"
  shows "\<exists>b'. free_blocks_of f b = Some b' \<and> pool_inv ok b' (set (A @ B)) \<and> block_size b' = block_size b"
proof -
  obtain pb where pb: "packet_buffer f = Some pb" using assms(3) by blast
  have in_pb: "pb \<in> set (A @ blocks f @ B)" using pb by (simp add: blocks_def)
  obtain c where c: "free_block b pb = Some c" "pool_inv ok c (set (A @ blocks f @ B) - {pb})"
    "block_size c = block_size b" using free_block_ok [OF assms(1) in_pb] by blast
  show ?thesis
  proof (cases "fec_frame_buffer f")
    case None
    then have "set (A @ blocks f @ B) - {pb} = set (A @ B)"
      using assms(2) pb by (auto simp: blocks_def)
    with c pb None show ?thesis by (simp add: free_blocks_of_def)
  next
    case (Some fb)
    have bl: "blocks f = [pb, fb]" using pb Some by (simp add: blocks_def)
    have in_fb: "fb \<in> set (A @ blocks f @ B) - {pb}" using assms(2) bl by auto
    obtain d where d: "free_block c fb = Some d" "pool_inv ok d (set (A @ blocks f @ B) - {pb} - {fb})"
      "block_size d = block_size c" using free_block_ok [OF c(2) in_fb] by blast
    have "set (A @ blocks f @ B) - {pb} - {fb} = set (A @ B)" using assms(2) bl by auto
    with c d pb Some show ?thesis by (simp add: free_blocks_of_def)
  qed
qed

lemma owns_reset_frame:
  assumes own: "owns ok rb" and loc: "valid_loc rb loc" and pb: "packet_buffer (frame_at rb loc) \<noteq> None"
    and slot: "\<And>i. loc = Slot i \<Longrightarrow> frame_buffer (frame_at rb loc) \<noteq> None \<Longrightarrow>
      get_frame_at_id rb (frame_id (frame_at rb loc)) = Some i"
  shows "\<exists>b. reset_frame rb loc = Some (put_frame (rb\<lparr>packet_buffer_allocator := b,
      num_pending_ready_frames := num_pending_ready_frames rb -
        (if loc \<noteq> Rendering \<and> frame_buffer (frame_at rb loc) \<noteq> None then 1 else 0)\<rparr>) loc
      (cleared (frame_at rb loc))) \<and>
    (\<forall>n g. blocks g = [] \<longrightarrow> owns ok (put_frame (rb\<lparr>packet_buffer_allocator := b, num_pending_ready_frames := n\<rparr>) loc g))"
proof -
  obtain A B where AB: "all_blocks rb = A @ blocks (frame_at rb loc) @ B"
    "\<And>g. all_blocks (put_frame rb loc g) = A @ blocks g @ B"
    using all_blocks_split [OF loc] by blast
  have o: "distinct (all_blocks rb)" "pool_inv ok (packet_buffer_allocator rb) (set (all_blocks rb))"
    "unat (block_size (packet_buffer_allocator rb)) = largest_frame_size rb"
    using own by (simp_all add: owns_def)
  obtain b where b: "free_blocks_of (frame_at rb loc) (packet_buffer_allocator rb) = Some b"
    "pool_inv ok b (set (A @ B))" "block_size b = block_size (packet_buffer_allocator rb)"
    using free_blocks_of_ok [OF o(2,1) [unfolded AB(1)] pb] by blast
  have "owns ok (put_frame (rb\<lparr>packet_buffer_allocator := b, num_pending_ready_frames := n\<rparr>) loc g)"
    if "blocks g = []" for n g
  proof -
    have "all_blocks (put_frame (rb\<lparr>packet_buffer_allocator := b, num_pending_ready_frames := n\<rparr>) loc g) = A @ B"
      using AB(2) [of g] that by (simp flip: put_frame_alloc)
    then show ?thesis using o(1,3) b(2,3) AB(1) by (auto simp: owns_def)
  qed
  then show ?thesis using reset_frame_eq [OF loc pb slot] b(1) by auto
qed

section \<open>The invariant\<close>

definition ready_count :: "FrameData list \<Rightarrow> nat" where
  "ready_count F = length (filter (\<lambda>f. frame_buffer f \<noteq> None) F)"

definition received_originals :: "FrameData \<Rightarrow> nat" where
  "received_originals f = card {j. j < num_original_packets f \<and> received_indices f j}"

text \<open>A frame in slot \<open>i\<close> of a buffer with \<open>n\<close> slots, when frame \<open>cur\<close> is being rendered and \<open>last\<close> was
  the last one rendered or skipped: without a packet buffer it has nothing to show; with one it
  belongs to its slot; its counter is the number of original packets that arrived; beyond \<open>cur\<close>
  the frame buffer is set exactly when the frame is complete, and up to \<open>cur\<close> and \<open>last\<close> it is not set;
  a frame that was skipped has no packet buffer any more; a frame that was set up has packets.\<close>

definition frame_ok :: "nat \<Rightarrow> int \<Rightarrow> int \<Rightarrow> nat \<Rightarrow> FrameData \<Rightarrow> bool" where
  "frame_ok n cur lst i f \<longleftrightarrow>
     (packet_buffer f = None \<longrightarrow> frame_buffer f = None \<and> fec_frame_buffer f = None) \<and>
     (packet_buffer f \<noteq> None \<longrightarrow> 0 \<le> frame_id f \<and> nat (frame_id f) mod n = i) \<and>
     (num_fec_packets f = 0 \<longrightarrow> fec_frame_buffer f = None) \<and>
     original_packets_received f = received_originals f \<and>
     (frame_id f > cur \<longrightarrow> frame_buffer f = get_framebuffer f) \<and>
     (frame_id f \<le> max cur lst \<longrightarrow> frame_buffer f = None) \<and>
     (cur < frame_id f \<and> frame_id f \<le> lst \<longrightarrow> packet_buffer f = None) \<and>
     (0 < frame_id f \<longrightarrow> 0 < num_original_packets f)"

definition rb_inv :: "(size_t \<Rightarrow> bool) \<Rightarrow> RingBuffer \<Rightarrow> bool" where
  "rb_inv ok rb \<longleftrightarrow> owns ok rb \<and> 0 < ring_buffer_size rb \<and>
     length (receiving_frames rb) = ring_buffer_size rb \<and>
     (\<forall>i < ring_buffer_size rb. frame_ok (ring_buffer_size rb) (currently_rendering_id rb)
        (last_rendered_id rb) i (receiving_frames rb ! i)) \<and>
     num_pending_ready_frames rb = int (ready_count (receiving_frames rb)) \<and>
     (currently_rendering_id rb \<noteq> -1 \<longrightarrow> packet_buffer (currently_rendering_frame rb) \<noteq> None) \<and>
     -1 \<le> currently_rendering_id rb \<and> -1 \<le> last_rendered_id rb"

lemma rb_invD:
  assumes "rb_inv ok rb"
  shows "owns ok rb" "0 < ring_buffer_size rb" "length (receiving_frames rb) = ring_buffer_size rb"
    "\<And>i. i < ring_buffer_size rb \<Longrightarrow> frame_ok (ring_buffer_size rb) (currently_rendering_id rb)
        (last_rendered_id rb) i (receiving_frames rb ! i)"
    "num_pending_ready_frames rb = int (ready_count (receiving_frames rb))"
    "currently_rendering_id rb \<noteq> -1 \<Longrightarrow> packet_buffer (currently_rendering_frame rb) \<noteq> None"
    "-1 \<le> currently_rendering_id rb" "-1 \<le> last_rendered_id rb"
  using assms by (simp_all add: rb_inv_def)

lemma ready_count_update:
  assumes "i < length F"
  shows "int (ready_count (F[i := g])) = int (ready_count F) -
    (if frame_buffer (F ! i) \<noteq> None then 1 else 0) + (if frame_buffer g \<noteq> None then 1 else 0)"
proof -
  have "ready_count (F[i := g]) = ready_count (take i F) + (if frame_buffer g \<noteq> None then 1 else 0) +
      ready_count (drop (Suc i) F)" for g
    using assms by (simp add: ready_count_def upd_conv_take_nth_drop)
  from this [of g] this [of "F ! i"] show ?thesis by simp
qed

lemma ready_count_le: "ready_count F \<le> length F"
  by (simp add: ready_count_def)

lemma get_frame_at_id_eq:
  "get_frame_at_id rb k = (if 0 \<le> k \<and> 0 < ring_buffer_size rb then Some (nat k mod ring_buffer_size rb) else None)"
  by (simp add: get_frame_at_id_def)

lemma get_frame_at_idD:
  "get_frame_at_id rb k = Some i \<Longrightarrow> i < ring_buffer_size rb \<and> i = nat k mod ring_buffer_size rb \<and> 0 \<le> k"
  by (auto simp: get_frame_at_id_eq split: if_splits)

lemma frame_ok_own_slot:
  assumes "rb_inv ok rb" "i < ring_buffer_size rb" "packet_buffer (receiving_frames rb ! i) \<noteq> None"
  shows "get_frame_at_id rb (frame_id (receiving_frames rb ! i)) = Some i"
  using rb_invD(2,4) [OF assms(1)] assms(2,3) by (auto simp: get_frame_at_id_eq frame_ok_def)

text \<open>Asking whether a frame is ready changes nothing.\<close>

lemma is_ready_same:
  assumes "rb_inv ok rb" "is_ready_to_render rb k = Some (rb', r)"
  shows "rb' = rb" "\<exists>i. get_frame_at_id rb k = Some i \<and>
    (r \<longleftrightarrow> frame_id (receiving_frames rb ! i) = k \<and> frame_buffer (receiving_frames rb ! i) \<noteq> None)"
proof -
  obtain i where i: "get_frame_at_id rb k = Some i"
    using assms(2) by (cases "get_frame_at_id rb k") (auto simp: is_ready_to_render_def)
  let ?f = "receiving_frames rb ! i"
  note ok = rb_invD(4) [OF assms(1), of i]
  have "rb' = rb \<and> (r \<longleftrightarrow> frame_id ?f = k \<and> frame_buffer ?f \<noteq> None)"
  proof (cases "frame_id ?f = k")
    case True
    then have eq: "frame_buffer ?f = get_framebuffer ?f"
      using ok get_frame_at_idD [OF i] assms(2) i
      by (cases "k \<le> currently_rendering_id rb") (auto simp: frame_ok_def is_ready_to_render_def Let_def split: if_splits)
    then have "?f\<lparr>frame_buffer := get_framebuffer ?f\<rparr> = ?f" by simp
    with True i assms(2) eq show ?thesis by (auto simp: is_ready_to_render_def Let_def split: if_splits)
  qed (use assms(2) i in \<open>auto simp: is_ready_to_render_def\<close>)
  with i show "rb' = rb" "\<exists>i. get_frame_at_id rb k = Some i \<and> (r \<longleftrightarrow> frame_id (receiving_frames rb ! i) = k \<and>
      frame_buffer (receiving_frames rb ! i) \<noteq> None)" by auto
qed

lemma is_ready_total:
  assumes "rb_inv ok rb" "0 \<le> k" "k > currently_rendering_id rb"
  shows "\<exists>r. is_ready_to_render rb k = Some (rb, r)"
proof -
  obtain i where "get_frame_at_id rb k = Some i" using rb_invD(2) [OF assms(1)] assms(2) by (simp add: get_frame_at_id_eq)
  then have "\<exists>rb' r. is_ready_to_render rb k = Some (rb', r)" using assms(3) by (auto simp: is_ready_to_render_def Let_def)
  with is_ready_same(1) [OF assms(1)] show ?thesis by blast
qed

text \<open>Replacing one frame keeps the invariant when the new frame is in order.\<close>

lemma frames_put_slot [simp]:
  "receiving_frames (put_frame rb (Slot i) g) = (receiving_frames rb)[i := g]"
  "currently_rendering_frame (put_frame rb (Slot i) g) = currently_rendering_frame rb"
  by simp_all

lemma frame_ok_cleared:
  assumes "frame_ok n cur lst i f"
  shows "frame_ok n cur lst' i (cleared f)"
proof -
  have "received_originals (cleared f) = received_originals f"
    by (simp add: received_originals_def cleared_def)
  moreover have "get_framebuffer (cleared f) = None"
    by (simp add: get_framebuffer_def cleared_def)
  ultimately show ?thesis using assms by (simp add: frame_ok_def) (simp add: cleared_def)
qed

lemma rb_inv_reset_slot:
  assumes "rb_inv ok rb" "i < ring_buffer_size rb" "packet_buffer (receiving_frames rb ! i) \<noteq> None"
  shows "\<exists>rb'. reset_frame rb (Slot i) = Some rb' \<and> rb_inv ok rb' \<and>
    receiving_frames rb' = (receiving_frames rb)[i := cleared (receiving_frames rb ! i)] \<and>
    ring_buffer_size rb' = ring_buffer_size rb \<and> currently_rendering_id rb' = currently_rendering_id rb \<and>
    last_rendered_id rb' = last_rendered_id rb \<and> largest_frame_size rb' = largest_frame_size rb \<and>
    max_id rb' = max_id rb \<and> min_id rb' = min_id rb"
proof -
  note inv = rb_invD [OF assms(1)]
  have loc: "valid_loc rb (Slot i)" using assms(2) inv(3) by (simp add: valid_loc_def)
  let ?f = "receiving_frames rb ! i"
  obtain b where b: "reset_frame rb (Slot i) = Some (put_frame (rb\<lparr>packet_buffer_allocator := b,
      num_pending_ready_frames := num_pending_ready_frames rb - (if frame_buffer ?f \<noteq> None then 1 else 0)\<rparr>)
        (Slot i) (cleared ?f))"
    "\<And>n g. blocks g = [] \<Longrightarrow>
       owns ok (put_frame (rb\<lparr>packet_buffer_allocator := b, num_pending_ready_frames := n\<rparr>) (Slot i) g)"
    using owns_reset_frame [OF inv(1) loc] assms(3) frame_ok_own_slot [OF assms] by auto
  have "frame_buffer (cleared ?f) = None" by (simp add: cleared_def)
  then have "rb_inv ok (put_frame (rb\<lparr>packet_buffer_allocator := b,
      num_pending_ready_frames := num_pending_ready_frames rb - (if frame_buffer ?f \<noteq> None then 1 else 0)\<rparr>)
        (Slot i) (cleared ?f))"
    using inv b(2) [OF blocks_cleared(1)] ready_count_update [of i "receiving_frames rb" "cleared ?f"] assms(2)
      frame_ok_cleared [OF inv(4) [OF assms(2)]]
    by (auto simp: rb_inv_def nth_list_update)
  with b(1) show ?thesis by auto
qed

lemma owns_put:
  assumes "owns ok rb" "valid_loc rb loc" "blocks g = blocks (frame_at rb loc)"
  shows "owns ok (put_frame rb loc g)"
proof -
  have "all_blocks (put_frame rb loc g) = all_blocks rb" using all_blocks_split [OF assms(2)] assms(3) by auto
  then show ?thesis using assms(1) by (simp add: owns_def)
qed

lemma rb_inv_put:
  assumes "rb_inv ok rb" "i < ring_buffer_size rb" "blocks g = blocks (receiving_frames rb ! i)"
    and "frame_ok (ring_buffer_size rb) (currently_rendering_id rb) (last_rendered_id rb) i g"
    and "frame_buffer g \<noteq> None \<longleftrightarrow> frame_buffer (receiving_frames rb ! i) \<noteq> None"
  shows "rb_inv ok (put_frame rb (Slot i) g)"
proof -
  note inv = rb_invD [OF assms(1)]
  have "owns ok (put_frame rb (Slot i) g)"
    using owns_put [OF inv(1), of "Slot i" g] assms(2,3) inv(3) by (simp add: valid_loc_def)
  with inv assms ready_count_update [of i "receiving_frames rb" g] show ?thesis
    by (auto simp: rb_inv_def nth_list_update)
qed

lemma frame_ok_zero: "frame_ok n cur lst i zero_frame"
  by (simp add: frame_ok_def zero_frame_def received_originals_def get_framebuffer_def)

text \<open>The other parts of a state that an operation leaves alone.\<close>

definition same_rest :: "RingBuffer \<Rightarrow> RingBuffer \<Rightarrow> bool" where
  "same_rest rb rb' \<longleftrightarrow> ring_buffer_size rb' = ring_buffer_size rb \<and>
     currently_rendering_id rb' = currently_rendering_id rb \<and> last_rendered_id rb' = last_rendered_id rb \<and>
     largest_frame_size rb' = largest_frame_size rb \<and> max_id rb' = max_id rb \<and> min_id rb' = min_id rb"

lemma same_rest_trans: "same_rest a b \<Longrightarrow> same_rest b c \<Longrightarrow> same_rest a c"
  by (simp add: same_rest_def)

lemma reset_slots_ok:
  assumes "rb_inv ok rb" "\<forall>i \<in> set is. i < ring_buffer_size rb"
  shows "\<exists>rb'. reset_slots is rb = Some rb' \<and> rb_inv ok rb' \<and> same_rest rb rb' \<and>
    receiving_frames rb' = map (\<lambda>i. if i \<in> set is then zero_frame else receiving_frames rb ! i)
      [0..<ring_buffer_size rb]"
  using assms
proof (induction "is" arbitrary: rb)
  case Nil
  then show ?case using rb_invD(3) [OF Nil.prems(1)]
    by (auto simp: same_rest_def intro!: nth_equalityI)
next
  case (Cons i "is")
  have i: "i < ring_buffer_size rb" using Cons.prems by simp
  obtain u where u: "(if packet_buffer (receiving_frames rb ! i) \<noteq> None then reset_frame rb (Slot i) else Some rb) = Some u"
    "rb_inv ok u" "same_rest rb u" "\<And>j. j \<noteq> i \<Longrightarrow> receiving_frames u ! j = receiving_frames rb ! j"
    "packet_buffer (receiving_frames u ! i) = None"
  proof (cases "packet_buffer (receiving_frames rb ! i) = None")
    case True
    then show ?thesis using that [of rb] Cons.prems by (simp add: same_rest_def)
  next
    case False
    from rb_inv_reset_slot [OF Cons.prems(1) i False] obtain v where
      "reset_frame rb (Slot i) = Some v" "rb_inv ok v" "same_rest rb v"
      "receiving_frames v = (receiving_frames rb)[i := cleared (receiving_frames rb ! i)]"
      by (auto simp: same_rest_def)
    with that [of v] False i rb_invD(3) [OF Cons.prems(1)] show ?thesis by (simp add: cleared_def)
  qed
  have iu: "i < ring_buffer_size u" using i u(3) by (simp add: same_rest_def)
  then have "frame_buffer (receiving_frames u ! i) = None" "blocks (receiving_frames u ! i) = []"
    using rb_invD(4) [OF u(2) iu] u(5) by (auto simp: frame_ok_def blocks_def)
  then have z: "rb_inv ok (put_frame u (Slot i) zero_frame)"
    using rb_inv_put [OF u(2) iu, of zero_frame] frame_ok_zero by (simp add: zero_frame_def blocks_def)
  have "\<forall>j \<in> set is. j < ring_buffer_size (put_frame u (Slot i) zero_frame)"
    using Cons.prems(2) u(3) by (simp add: same_rest_def)
  from Cons.IH [OF z this] obtain w where w: "reset_slots is (put_frame u (Slot i) zero_frame) = Some w"
    "rb_inv ok w" "same_rest (put_frame u (Slot i) zero_frame) w"
    "receiving_frames w = map (\<lambda>j. if j \<in> set is then zero_frame
       else receiving_frames (put_frame u (Slot i) zero_frame) ! j) [0..<ring_buffer_size u]" by auto
  have "same_rest rb w" using u(3) w(3) by (simp add: same_rest_def)
  moreover have "receiving_frames w = map (\<lambda>j. if j \<in> set (i # is) then zero_frame else receiving_frames rb ! j)
      [0..<ring_buffer_size rb]"
    unfolding w(4) using u(3,4) iu rb_invD(3) [OF u(2)] by (auto simp: same_rest_def nth_list_update)
  ultimately show ?case using u(1) w(1,2) by (auto simp del: put_frame.simps)
qed

lemma ready_count_zero: "ready_count (replicate n zero_frame) = 0"
  by (simp add: ready_count_def zero_frame_def)

lemma reset_ring_buffer_ok:
  assumes "rb_inv ok rb"
  shows "\<exists>rb'. reset_ring_buffer rb = Some rb' \<and> rb_inv ok rb' \<and>
    receiving_frames rb' = replicate (ring_buffer_size rb) zero_frame \<and>
    ring_buffer_size rb' = ring_buffer_size rb \<and> currently_rendering_id rb' = currently_rendering_id rb \<and>
    last_rendered_id rb' = -1 \<and> largest_frame_size rb' = largest_frame_size rb \<and> min_id rb' = -1 \<and> max_id rb' = -1"
proof -
  have "\<forall>i \<in> set [0..<ring_buffer_size rb]. i < ring_buffer_size rb" by simp
  from reset_slots_ok [OF assms this] obtain w where w: "reset_slots [0..<ring_buffer_size rb] rb = Some w"
    "rb_inv ok w" "same_rest rb w"
    "receiving_frames w = map (\<lambda>i. if i \<in> set [0..<ring_buffer_size rb] then zero_frame else receiving_frames rb ! i)
      [0..<ring_buffer_size rb]" by blast
  then have F: "receiving_frames w = replicate (ring_buffer_size rb) zero_frame"
    by (auto intro: nth_equalityI)
  let ?r = "w\<lparr>max_id := -1, min_id := -1, frames_received := 0, last_rendered_id := -1, num_pending_ready_frames := 0\<rparr>"
  have "all_blocks ?r = all_blocks w" by (simp add: all_blocks_def rendered_blocks_def)
  then have "owns ok ?r" using rb_invD(1) [OF w(2)] by (simp add: owns_def)
  then have "rb_inv ok ?r"
    using rb_invD [OF w(2)] F frame_ok_zero ready_count_zero w(3) by (simp add: rb_inv_def same_rest_def)
  with w F show ?thesis by (simp add: reset_ring_buffer_def same_rest_def)
qed

section \<open>Every operation keeps the invariant\<close>

lemma drop_older_frames_ok:
  assumes "rb_inv ok rb" "\<forall>i \<in> set is. i < ring_buffer_size rb"
  shows "\<exists>rb'. drop_older_frames k is rb = Some rb' \<and> rb_inv ok rb' \<and> same_rest rb rb' \<and>
    (\<forall>i < ring_buffer_size rb. receiving_frames rb' ! i =
       (let f = receiving_frames rb ! i
        in if i \<in> set is \<and> packet_buffer f \<noteq> None \<and> frame_id f < k then cleared f else f))"
  using assms
proof (induction "is" arbitrary: rb)
  case Nil
  then show ?case by (simp add: same_rest_def)
next
  case (Cons i "is")
  let ?f = "receiving_frames rb ! i"
  have i: "i < ring_buffer_size rb" using Cons.prems by simp
  define hit where "hit \<longleftrightarrow> packet_buffer ?f \<noteq> None \<and> frame_id ?f < k"
  obtain u where u: "(if hit then reset_frame rb (Slot i) else Some rb) = Some u" "rb_inv ok u" "same_rest rb u"
    "\<And>j. j < ring_buffer_size rb \<Longrightarrow>
       receiving_frames u ! j = (if j = i \<and> hit then cleared ?f else receiving_frames rb ! j)"
  proof (cases hit)
    case True
    from rb_inv_reset_slot [OF Cons.prems(1) i] True obtain v where
      "reset_frame rb (Slot i) = Some v" "rb_inv ok v" "same_rest rb v"
      "receiving_frames v = (receiving_frames rb)[i := cleared ?f]"
      by (auto simp: same_rest_def hit_def)
    with that [of v] True i rb_invD(3) [OF Cons.prems(1)] show ?thesis by (auto simp: nth_list_update)
  qed (use that [of rb] Cons.prems in \<open>simp add: same_rest_def\<close>)
  have "\<forall>j \<in> set is. j < ring_buffer_size u" using Cons.prems(2) u(3) by (simp add: same_rest_def)
  from Cons.IH [OF u(2) this] obtain w where w: "drop_older_frames k is u = Some w" "rb_inv ok w" "same_rest u w"
    "\<And>j. j < ring_buffer_size u \<Longrightarrow> receiving_frames w ! j =
       (let f = receiving_frames u ! j
        in if j \<in> set is \<and> packet_buffer f \<noteq> None \<and> frame_id f < k then cleared f else f)" by blast
  have cl: "packet_buffer (cleared f) = None" for f by (simp add: cleared_def)
  have "drop_older_frames k (i # is) rb = Some w"
    using u(1) w(1) by (simp add: Let_def hit_def)
  moreover have "receiving_frames w ! j = (let f = receiving_frames rb ! j
        in if j \<in> set (i # is) \<and> packet_buffer f \<noteq> None \<and> frame_id f < k then cleared f else f)"
    if "j < ring_buffer_size rb" for j
    using w(4) [of j] u(3) u(4) [OF that] that cl by (auto simp: same_rest_def Let_def hit_def)
  ultimately show ?case using w(2) same_rest_trans [OF u(3) w(3)] by auto
qed

lemma rb_inv_last_rendered:
  assumes "rb_inv ok rb" "-1 \<le> k"
    and "\<And>i. i < ring_buffer_size rb \<Longrightarrow> frame_id (receiving_frames rb ! i) \<le> k \<Longrightarrow>
      packet_buffer (receiving_frames rb ! i) = None"
  shows "rb_inv ok (rb\<lparr>last_rendered_id := k\<rparr>)"
proof -
  have "all_blocks (rb\<lparr>last_rendered_id := k\<rparr>) = all_blocks rb" by (simp add: all_blocks_def rendered_blocks_def)
  then have "owns ok (rb\<lparr>last_rendered_id := k\<rparr>)" using rb_invD(1) [OF assms(1)] by (simp add: owns_def)
  moreover have "frame_ok (ring_buffer_size rb) (currently_rendering_id rb) k i (receiving_frames rb ! i)"
    if "i < ring_buffer_size rb" for i
    using rb_invD(4) [OF assms(1) that] assms(3) [OF that] by (auto simp: frame_ok_def le_max_iff_disj)
  ultimately show ?thesis using rb_invD [OF assms(1)] assms(2) by (simp add: rb_inv_def)
qed

text \<open>Skipping to a frame always succeeds; what is not skipped is as before.\<close>

lemma reset_stream_ok:
  assumes "rb_inv ok rb" "1 \<le> k"
  shows "\<exists>rb'. reset_stream rb k = Some rb' \<and> rb_inv ok rb' \<and> last_rendered_id rb' = max (k - 1) (last_rendered_id rb) \<and>
    ring_buffer_size rb' = ring_buffer_size rb \<and> currently_rendering_id rb' = currently_rendering_id rb \<and>
    largest_frame_size rb' = largest_frame_size rb \<and> max_id rb' = max_id rb \<and> min_id rb' = min_id rb \<and>
    (\<forall>i < ring_buffer_size rb. receiving_frames rb' ! i = (let f = receiving_frames rb ! i
       in if last_rendered_id rb < k \<and> packet_buffer f \<noteq> None \<and> frame_id f < k then cleared f else f))"
proof (cases "k \<le> last_rendered_id rb")
  case True
  then show ?thesis using assms by (simp add: reset_stream_def)
next
  case False
  let ?is = "[0..<ring_buffer_size rb]"
  have "\<forall>i \<in> set ?is. i < ring_buffer_size rb" by simp
  from drop_older_frames_ok [OF assms(1) this, of k] obtain u where
    u: "drop_older_frames k ?is rb = Some u" "rb_inv ok u" "same_rest rb u"
    "\<And>i. i < ring_buffer_size rb \<Longrightarrow> receiving_frames u ! i = (let f = receiving_frames rb ! i
        in if packet_buffer f \<noteq> None \<and> frame_id f < k then cleared f else f)" by auto
  have size_u: "ring_buffer_size u = ring_buffer_size rb" using u(3) by (simp add: same_rest_def)
  have none: "packet_buffer (receiving_frames u ! i) = None"
    if "i < ring_buffer_size u" "frame_id (receiving_frames u ! i) \<le> k - 1" for i
    using rb_invD(4) [OF assms(1), of i] u(4) [of i] that size_u
    by (auto simp: Let_def frame_ok_def cleared_def split: if_splits)
  have "-1 \<le> k - 1" using assms(2) by simp
  from rb_inv_last_rendered [OF u(2) this none] have "rb_inv ok (u\<lparr>last_rendered_id := k - 1\<rparr>)" by simp
  with False assms(2) u show ?thesis by (auto simp: reset_stream_def same_rest_def)
qed

text \<open>Dropping the frame that the renderer holds leaves the blocks of the slots.\<close>

lemma drop_rendering_ok:
  assumes "owns ok rb" "currently_rendering_id rb \<noteq> -1 \<longrightarrow> packet_buffer (currently_rendering_frame rb) \<noteq> None"
  shows "\<exists>b g. (if currently_rendering_id rb \<noteq> -1 then reset_frame rb Rendering else Some rb) =
      Some (rb\<lparr>packet_buffer_allocator := b, currently_rendering_frame := g\<rparr>) \<and>
    pool_inv ok b (set (concat (map blocks (receiving_frames rb)))) \<and>
    block_size b = block_size (packet_buffer_allocator rb)"
proof (cases "currently_rendering_id rb = -1")
  case True
  then show ?thesis using assms(1)
    by (intro exI [of _ "packet_buffer_allocator rb"] exI [of _ "currently_rendering_frame rb"])
      (simp add: owns_def all_blocks_def rendered_blocks_def)
next
  case False
  have loc: "valid_loc rb Rendering" using False by (simp add: valid_loc_def)
  have pb: "packet_buffer (frame_at rb Rendering) \<noteq> None" using assms(2) False by simp
  obtain b where b: "reset_frame rb Rendering = Some (put_frame (rb\<lparr>packet_buffer_allocator := b,
      num_pending_ready_frames := num_pending_ready_frames rb - 0\<rparr>) Rendering (cleared (currently_rendering_frame rb)))"
    "\<And>n g. blocks g = [] \<Longrightarrow>
       owns ok (put_frame (rb\<lparr>packet_buffer_allocator := b, num_pending_ready_frames := n\<rparr>) Rendering g)"
    using owns_reset_frame [OF assms(1) loc pb] by auto
  have "owns ok (put_frame (rb\<lparr>packet_buffer_allocator := b, num_pending_ready_frames := 0\<rparr>) Rendering zero_frame)"
    by (rule b(2)) simp
  then have pool: "pool_inv ok b (set (concat (map blocks (receiving_frames rb))))"
    and "unat (block_size b) = largest_frame_size rb"
    using False by (simp_all add: owns_def all_blocks_def rendered_blocks_def)
  moreover have "unat (block_size (packet_buffer_allocator rb)) = largest_frame_size rb"
    using assms(1) by (simp add: owns_def)
  ultimately have "block_size b = block_size (packet_buffer_allocator rb)" by (simp add: word_unat_eq_iff)
  with pool show ?thesis using b(1) False
    by (intro exI [of _ b] exI [of _ "cleared (currently_rendering_frame rb)"]) simp
qed

lemma drop_rendering_skip:
  assumes "rb_inv ok rb"
  shows "\<exists>b g. (if currently_rendering_id rb \<noteq> -1 then reset_frame (rb\<lparr>last_rendered_id := k\<rparr>) Rendering
      else Some (rb\<lparr>last_rendered_id := k\<rparr>)) =
      Some (rb\<lparr>last_rendered_id := k, packet_buffer_allocator := b, currently_rendering_frame := g\<rparr>) \<and>
    pool_inv ok b (set (concat (map blocks (receiving_frames rb)))) \<and>
    block_size b = block_size (packet_buffer_allocator rb)"
proof -
  let ?u = "rb\<lparr>last_rendered_id := k\<rparr>"
  have "all_blocks ?u = all_blocks rb" by (simp add: all_blocks_def rendered_blocks_def)
  then have own: "owns ok ?u" using rb_invD(1) [OF assms] by (simp add: owns_def)
  have "currently_rendering_id ?u \<noteq> -1 \<longrightarrow> packet_buffer (currently_rendering_frame ?u) \<noteq> None"
    using rb_invD(6) [OF assms] by simp
  from drop_rendering_ok [OF own this] show ?thesis by simp
qed

lemma concat_blocks_update:
  assumes "i < length F"
  shows "\<exists>A B. concat (map blocks F) = A @ blocks (F ! i) @ B \<and>
    (\<forall>g. concat (map blocks (F[i := g])) = A @ blocks g @ B)"
proof -
  let ?A = "concat (map blocks (take i F))" and ?B = "concat (map blocks (drop (Suc i) F))"
  have "concat (map blocks (F[i := g])) = ?A @ blocks g @ ?B" for g
    using assms by (simp add: upd_conv_take_nth_drop)
  moreover have "concat (map blocks F) = ?A @ blocks (F ! i) @ ?B"
    by (subst id_take_nth_drop [OF assms]) simp
  ultimately show ?thesis by blast
qed

text \<open>The frame after the last rendered one, when it is ready, moves to the renderer.\<close>

lemma set_rendering_ok:
  assumes inv: "rb_inv ok rb" and k: "k = last_rendered_id rb + 1" "currently_rendering_id rb < k"
    and i: "get_frame_at_id rb k = Some i"
    and f: "f = receiving_frames rb ! i" "frame_id f = k" "frame_buffer f \<noteq> None"
  shows "\<exists>rb'. set_rendering rb k = Some rb' \<and> rb_inv ok rb' \<and> currently_rendering_frame rb' = f \<and>
    receiving_frames rb' = (receiving_frames rb)[i := cleared f] \<and>
    currently_rendering_id rb' = k \<and> last_rendered_id rb' = k \<and> ring_buffer_size rb' = ring_buffer_size rb \<and>
    largest_frame_size rb' = largest_frame_size rb \<and> max_id rb' = max_id rb \<and> min_id rb' = min_id rb"
proof -
  note I = rb_invD [OF inv]
  have i_less: "i < length (receiving_frames rb)" using get_frame_at_idD [OF i] I(3) by simp
  have fok: "frame_ok (ring_buffer_size rb) (currently_rendering_id rb) (last_rendered_id rb) i f"
    using I(4) i_less I(3) f(1) by simp
  then have fb: "get_framebuffer f = frame_buffer f" "packet_buffer f \<noteq> None"
    using k(2) f(2,3) by (auto simp: frame_ok_def)
  obtain b g where drop: "(if currently_rendering_id rb \<noteq> -1 then reset_frame (rb\<lparr>last_rendered_id := k\<rparr>) Rendering
      else Some (rb\<lparr>last_rendered_id := k\<rparr>)) =
      Some (rb\<lparr>last_rendered_id := k, packet_buffer_allocator := b, currently_rendering_frame := g\<rparr>)"
    and b: "pool_inv ok b (set (concat (map blocks (receiving_frames rb))))"
      "block_size b = block_size (packet_buffer_allocator rb)"
    using drop_rendering_skip [OF inv] by blast
  define u where "u = rb\<lparr>last_rendered_id := k, packet_buffer_allocator := b, currently_rendering_frame := g\<rparr>"
  have u: "receiving_frames u = receiving_frames rb" "get_frame_at_id u = get_frame_at_id rb"
    "currently_rendering_id u = currently_rendering_id rb" "num_pending_ready_frames u = num_pending_ready_frames rb"
    by (simp_all add: u_def get_frame_at_id_def fun_eq_iff)
  define rb' where "rb' = u\<lparr>currently_rendering_id := k, receiving_frames := (receiving_frames rb)[i := cleared f],
    num_pending_ready_frames := num_pending_ready_frames rb - 1, currently_rendering_frame := f\<rparr>"
  have nth: "receiving_frames rb ! i = f" using f(1) by simp
  have same: "f\<lparr>frame_buffer := get_framebuffer f\<rparr> = f" "u\<lparr>receiving_frames := (receiving_frames rb)[i := f]\<rparr> = u"
    using f(1) fb(1) by (simp_all add: u_def)
  have cl: "f\<lparr>packet_buffer := None, fec_frame_buffer := None, fec_decoder := None, frame_buffer := None\<rparr> = cleared f"
    by (simp add: cleared_def)
  have ready: "is_ready_to_render u k = Some (u, True)"
    using i f k(2) fb same by (simp add: is_ready_to_render_def u nth Let_def)
  have next_id: "\<not> k \<le> last_rendered_id rb" using k(1) by simp
  have run: "set_rendering rb k = Some rb'"
    using drop [folded u_def] ready next_id
    by (simp add: set_rendering_def rb'_def Let_def u i nth f(2) cl same(1) split: if_splits)
  obtain A B where AB: "concat (map blocks (receiving_frames rb)) = A @ blocks f @ B"
    "\<And>g. concat (map blocks ((receiving_frames rb)[i := g])) = A @ blocks g @ B"
    using concat_blocks_update [OF i_less] f(1) by auto
  have d: "distinct (A @ blocks f @ B)" using I(1) AB(1) by (auto simp: owns_def all_blocks_def)
  have "k \<noteq> -1" using k I(8) by simp
  then have "all_blocks rb' = A @ B @ blocks f"
    by (simp add: all_blocks_def rendered_blocks_def rb'_def AB(2) u_def)
  moreover have "set (A @ B @ blocks f) = set (A @ blocks f @ B)" by auto
  ultimately have own: "owns ok rb'"
    using d b I(1) AB(1) by (auto simp: owns_def rb'_def u_def)
  have fr: "frame_ok (ring_buffer_size rb) k k j ((receiving_frames rb)[i := cleared f] ! j)"
    if "j < ring_buffer_size rb" for j
  proof (cases "j = i")
    case True
    then show ?thesis using fok i_less unfolding frame_ok_def
      by (auto simp: cleared_def received_originals_def get_framebuffer_def)
  next
    case False
    let ?g = "receiving_frames rb ! j"
    have "frame_buffer ?g = None" if "frame_id ?g = k"
      using I(4) [OF \<open>j < ring_buffer_size rb\<close>] that False get_frame_at_idD [OF i] by (auto simp: frame_ok_def)
    then show ?thesis using I(4) [OF that] k False by (cases "frame_id ?g = k") (auto simp: frame_ok_def)
  qed
  have "rb_inv ok rb'"
    using own I fr ready_count_update [OF i_less, of "cleared f"] f(1,3) fb(2) \<open>k \<noteq> -1\<close> k
    by (simp add: rb_inv_def rb'_def u_def) (simp add: cleared_def)
  then show ?thesis using run by (intro exI [of _ rb']) (simp add: rb'_def u_def)
qed

text \<open>Whatever the id, a successful call found the frame ready.\<close>

lemma set_rendering_SomeD:
  assumes inv: "rb_inv ok rb" and run: "set_rendering rb k = Some rb'"
  shows "currently_rendering_id rb < k \<and> last_rendered_id rb < k \<and>
    (\<exists>i. get_frame_at_id rb k = Some i \<and> frame_id (receiving_frames rb ! i) = k \<and>
       frame_buffer (receiving_frames rb ! i) \<noteq> None)"
proof -
  obtain b g where drop: "(if currently_rendering_id rb \<noteq> -1 then reset_frame (rb\<lparr>last_rendered_id := k\<rparr>) Rendering
      else Some (rb\<lparr>last_rendered_id := k\<rparr>)) =
      Some (rb\<lparr>last_rendered_id := k, packet_buffer_allocator := b, currently_rendering_frame := g\<rparr>)"
    using drop_rendering_skip [OF inv] by blast
  let ?u = "rb\<lparr>last_rendered_id := k, packet_buffer_allocator := b, currently_rendering_frame := g\<rparr>"
  obtain v where v: "is_ready_to_render ?u k = Some (v, True)" "\<not> k \<le> last_rendered_id rb"
    using run drop by (auto simp: set_rendering_def Let_def split: if_splits option.splits prod.splits bind_splits)
  then obtain i where i: "get_frame_at_id rb k = Some i" "frame_id (receiving_frames rb ! i) = k"
    "get_framebuffer (receiving_frames rb ! i) \<noteq> None" "currently_rendering_id rb < k"
    by (cases "get_frame_at_id rb k")
      (auto simp: is_ready_to_render_def get_frame_at_id_def Let_def split: if_splits)
  then have "frame_buffer (receiving_frames rb ! i) = get_framebuffer (receiving_frames rb ! i)"
    using rb_invD(4) [OF inv, of i] get_frame_at_idD [OF i(1)] by (simp add: frame_ok_def)
  with i v(2) show ?thesis by auto
qed

text \<open>Destroying a ring buffer returns every block first, so the allocator accepts its destruction.\<close>

lemma destroy_ring_buffer_ok:
  assumes "rb_inv ok rb"
  shows "\<exists>s. destroy_ring_buffer rb = Some s"
proof -
  obtain u where u: "reset_ring_buffer rb = Some u" "rb_inv ok u"
    "receiving_frames u = replicate (ring_buffer_size rb) zero_frame" using reset_ring_buffer_ok [OF assms] by blast
  have "currently_rendering_id u \<noteq> -1 \<longrightarrow> packet_buffer (currently_rendering_frame u) \<noteq> None"
    using rb_invD(6) [OF u(2)] by simp
  from drop_rendering_ok [OF rb_invD(1) [OF u(2)] this] obtain b g where
    b: "(if currently_rendering_id u \<noteq> -1 then reset_frame u Rendering else Some u) =
      Some (u\<lparr>packet_buffer_allocator := b, currently_rendering_frame := g\<rparr>)"
    "pool_inv ok b (set (concat (map blocks (receiving_frames u))))" by blast
  have "concat (map blocks (receiving_frames u)) = []" using u(3) by simp
  then have "pool_inv ok b {}" using b(2) by simp
  from destroy_block_allocator_ok [OF this] obtain s where "destroy_block_allocator b = Some s" by auto
  then show ?thesis using u(1) b(1) by (simp add: destroy_ring_buffer_def)
qed

lemma reset_slots_empty:
  assumes "\<forall>f \<in> set (receiving_frames rb). packet_buffer f = None" "\<forall>i \<in> set is. i < length (receiving_frames rb)"
  shows "reset_slots is rb = Some (rb\<lparr>receiving_frames := map (\<lambda>i. if i \<in> set is then zero_frame else receiving_frames rb ! i)
    [0..<length (receiving_frames rb)]\<rparr>)"
  using assms
proof (induction "is" arbitrary: rb)
  case Nil
  have "map ((!) (receiving_frames rb)) [0..<length (receiving_frames rb)] = receiving_frames rb" by (rule map_nth)
  then show ?case by simp
next
  case (Cons i "is")
  let ?u = "rb\<lparr>receiving_frames := (receiving_frames rb)[i := zero_frame]\<rparr>"
  have "\<forall>f \<in> set (receiving_frames ?u). packet_buffer f = None" using Cons.prems(1)
    by (auto dest!: set_update_subset_insert [THEN subsetD] simp: zero_frame_def)
  moreover have "\<forall>j \<in> set is. j < length (receiving_frames ?u)" using Cons.prems(2) by simp
  ultimately have IH: "reset_slots is ?u = Some (?u\<lparr>receiving_frames := map (\<lambda>j. if j \<in> set is then zero_frame
      else receiving_frames ?u ! j) [0..<length (receiving_frames ?u)]\<rparr>)" by (rule Cons.IH)
  have "packet_buffer (receiving_frames rb ! i) = None" using Cons.prems by simp
  moreover have "map (\<lambda>j. if j \<in> set is then zero_frame else receiving_frames ?u ! j) [0..<length (receiving_frames ?u)] =
      map (\<lambda>j. if j \<in> set (i # is) then zero_frame else receiving_frames rb ! j) [0..<length (receiving_frames rb)]"
    using Cons.prems(2) by (auto simp: nth_list_update)
  ultimately show ?case using IH by simp
qed

lemma reset_slots_all_empty:
  assumes "\<forall>f \<in> set (receiving_frames rb). packet_buffer f = None" "n = length (receiving_frames rb)"
  shows "reset_slots [0..<n] rb = Some (rb\<lparr>receiving_frames := replicate n zero_frame\<rparr>)"
proof -
  have "map (\<lambda>i. if i \<in> set [0..<n] then zero_frame else receiving_frames rb ! i) [0..<n] = replicate n zero_frame"
    by (auto intro: nth_equalityI)
  then show ?thesis using reset_slots_empty [OF assms(1), of "[0..<n]"] assms(2) by simp
qed

lemma init_ring_buffer_ok:
  assumes "os_ok s" "fits_in_region s (of_nat (PACKET_HEADER_SIZE + max_size))" "PACKET_HEADER_SIZE + max_size < 2 ^ 64"
    and "0 < n" "n \<le> MAX_RING_BUFFER_SIZE"
  shows "\<exists>rb. init_ring_buffer s uninit t max_size n now = Some rb \<and> rb_inv (mmap_ok s) rb \<and>
    ring_buffer_size rb = n \<and> largest_frame_size rb = PACKET_HEADER_SIZE + max_size \<and>
    last_rendered_id rb = -1 \<and> currently_rendering_id rb = -1 \<and> min_id rb = -1 \<and> max_id rb = -1 \<and>
    receiving_frames rb = replicate n zero_frame"
proof -
  have "unat (of_nat m :: size_t) = m" if "m < 2 ^ 64" for m
    using that by (simp add: unat_of_nat take_bit_nat_eq_self)
  from this [OF assms(3)]
  have "unat (of_nat (PACKET_HEADER_SIZE + max_size) :: size_t) = PACKET_HEADER_SIZE + max_size" .
  moreover note pool_inv_create [OF assms(1,2)]
  ultimately show ?thesis using assms(4,5)
    by (simp add: init_ring_buffer_def reset_ring_buffer_def reset_slots_all_empty Let_def rb_inv_def owns_def
      all_blocks_def rendered_blocks_def frame_ok_zero ready_count_zero create_block_allocator_def
      del: of_nat_add)
qed

end
