(* ===== verification/Ring_Buffer_Receive.thy ===== *)
theory Ring_Buffer_Receive
  imports Ring_Buffer
begin

text \<open>
  Receiving segments, nacking and the self-check of the ring buffer keep its invariant; the properties
  of the ring buffer follow by rule induction over the calls that \<^verbatim>\<open>udp.cpp\<close> makes.
\<close>

section \<open>Receiving keeps the invariant\<close>

lemma rb_inv_step:
  assumes inv: "rb_inv ok rb" and i: "i < ring_buffer_size rb"
    and frames: "receiving_frames rb' = (receiving_frames rb)[i := g]"
    and rest: "ring_buffer_size rb' = ring_buffer_size rb" "currently_rendering_id rb' = currently_rendering_id rb"
      "currently_rendering_frame rb' = currently_rendering_frame rb" "last_rendered_id rb' = last_rendered_id rb"
      "largest_frame_size rb' = largest_frame_size rb"
    and num: "num_pending_ready_frames rb' = num_pending_ready_frames rb -
      (if frame_buffer (receiving_frames rb ! i) \<noteq> None then 1 else 0) + (if frame_buffer g \<noteq> None then 1 else 0)"
    and pool: "pool_inv ok (packet_buffer_allocator rb') (set (all_blocks rb))"
      "block_size (packet_buffer_allocator rb') = block_size (packet_buffer_allocator rb)"
    and g: "blocks g = blocks (receiving_frames rb ! i)"
      "frame_ok (ring_buffer_size rb) (currently_rendering_id rb) (last_rendered_id rb) i g"
  shows "rb_inv ok rb'"
proof -
  note I = rb_invD [OF inv]
  have i': "i < length (receiving_frames rb)" using i I(3) by simp
  obtain A B where AB: "concat (map blocks (receiving_frames rb)) = A @ blocks (receiving_frames rb ! i) @ B"
    "\<And>g. concat (map blocks ((receiving_frames rb)[i := g])) = A @ blocks g @ B"
    using concat_blocks_update [OF i'] by blast
  then have "all_blocks rb' = all_blocks rb" by (simp add: all_blocks_def rendered_blocks_def frames rest g(1))
  then have "owns ok rb'" using I(1) pool rest by (simp add: owns_def)
  moreover have "frame_ok (ring_buffer_size rb) (currently_rendering_id rb) (last_rendered_id rb) j
      ((receiving_frames rb)[i := g] ! j)" if "j < ring_buffer_size rb" for j
    using I(4) [OF that] g(2) i' by (cases "j = i") auto
  ultimately show ?thesis
    using I ready_count_update [OF i', of g] num by (simp add: rb_inv_def frames rest)
qed

lemma write_block_at_ok:
  assumes "pool_inv ok b S" "a \<in> S" "write_block_at b a off bs = Some b'"
  shows "pool_inv ok b' S" "block_size b' = block_size b"
    "block_bytes b' a = mem_write off bs (block_bytes b a)" "\<And>x. x \<noteq> a \<Longrightarrow> block_bytes b' x = block_bytes b x"
proof -
  have len: "off + length bs \<le> length (block_bytes b a)"
    and b': "b' = b\<lparr>os := (os b)\<lparr>region_bytes := (region_bytes (os b))(a := mem_write off bs (block_bytes b a))\<rparr>\<rparr>"
    using assms(3) by (auto simp: write_block_at_def split: if_splits)
  show "pool_inv ok b' S" using assms(1) len
    by (auto simp: pool_inv_def b' os_ok_def fits_in_region_def num_free_blocks_def block_bytes_def)
qed (use assms(3) in \<open>auto simp: write_block_at_def block_bytes_def split: if_splits\<close>)

lemma write_block_at_total:
  assumes "pool_inv ok b S" "a \<in> S" "off + length bs \<le> unat (block_size b)"
  shows "\<exists>b'. write_block_at b a off bs = Some b'"
  using pool_invD(9) [OF assms(1), of a] assms(2,3) by (auto simp: write_block_at_def block_bytes_def)

text \<open>What a segment changes in its frame.\<close>

definition mark :: "FrameData \<Rightarrow> nat \<Rightarrow> FrameData" where
  "mark f j = f\<lparr>received_indices := (received_indices f)(j := True),
     original_packets_received := original_packets_received f + (if j < num_original_packets f then 1 else 0),
     fec_packets_received := fec_packets_received f + (if j < num_original_packets f then 0 else 1)\<rparr>"

lemma mark_simps [simp]:
  "frame_id (mark f j) = frame_id f" "packet_buffer (mark f j) = packet_buffer f"
  "frame_buffer (mark f j) = frame_buffer f" "fec_frame_buffer (mark f j) = fec_frame_buffer f"
  "num_original_packets (mark f j) = num_original_packets f" "num_fec_packets (mark f j) = num_fec_packets f"
  "successful_fec_recovery (mark f j) = successful_fec_recovery f"
  "fec_decoder (mark f j) = fec_decoder f" "frame_buffer_size (mark f j) = frame_buffer_size f"
  "received_indices (mark f j) = (received_indices f)(j := True)"
  by (simp_all add: mark_def)

lemma received_originals_mark:
  assumes "\<not> received_indices f j"
  shows "received_originals (mark f j) = received_originals f + (if j < num_original_packets f then 1 else 0)"
proof (cases "j < num_original_packets f")
  case True
  have eq: "{k. k < num_original_packets f \<and> ((received_indices f)(j := True)) k} =
      insert j {k. k < num_original_packets f \<and> received_indices f k}" using True by auto
  have "j \<notin> {k. k < num_original_packets f \<and> received_indices f k}" using assms by simp
  then show ?thesis unfolding received_originals_def mark_simps eq using True by simp
next
  case False
  then have eq: "{k. k < num_original_packets f \<and> ((received_indices f)(j := True)) k} =
      {k. k < num_original_packets f \<and> received_indices f k}" by auto
  show ?thesis unfolding received_originals_def mark_simps eq using False by simp
qed

lemma received_originals_le: "received_originals f \<le> num_original_packets f"
proof -
  have "card {j. j < num_original_packets f \<and> received_indices f j} \<le> card {..<num_original_packets f}"
    by (intro card_mono) auto
  then show ?thesis by (simp add: received_originals_def)
qed

lemma received_originals_lt:
  assumes "j < num_original_packets f" "\<not> received_indices f j"
  shows "received_originals f < num_original_packets f"
  using received_originals_mark [OF assms(2)] received_originals_le [of "mark f j"] assms(1) by simp

lemma received_originals_cong:
  "num_original_packets g = num_original_packets f \<Longrightarrow> received_indices g = received_indices f \<Longrightarrow>
   received_originals g = received_originals f"
  by (simp add: received_originals_def)

lemma try_fec_ok:
  assumes run: "try_fec lib rb i seg = Some rb'" and f: "f = receiving_frames rb ! i" and i: "i < length (receiving_frames rb)"
    and pool: "pool_inv ok (packet_buffer_allocator rb) S" "set (blocks f) \<subseteq> S"
  shows "\<exists>b d sz s. rb' = put_frame (rb\<lparr>packet_buffer_allocator := b\<rparr>) (Slot i)
      (f\<lparr>fec_decoder := d, frame_buffer_size := sz, successful_fec_recovery := s\<rparr>) \<and>
    (successful_fec_recovery f \<longrightarrow> s) \<and> pool_inv ok b S \<and> block_size b = block_size (packet_buffer_allocator rb) \<and>
    (num_fec_packets f = 0 \<longrightarrow> b = packet_buffer_allocator rb \<and> sz = frame_buffer_size f \<and>
       d = fec_decoder f \<and> s = successful_fec_recovery f)"
proof (cases "num_fec_packets f > 0 \<and> \<not> successful_fec_recovery f")
  case False
  then have "rb' = rb" using run f by (auto simp: try_fec_def Let_def split: if_splits)
  moreover have "rb = put_frame (rb\<lparr>packet_buffer_allocator := packet_buffer_allocator rb\<rparr>) (Slot i)
      (f\<lparr>fec_decoder := fec_decoder f, frame_buffer_size := frame_buffer_size f,
         successful_fec_recovery := successful_fec_recovery f\<rparr>)" using f by simp
  ultimately show ?thesis using pool(1) by blast
next
  case True
  then obtain d0 d1 d2 res where d: "fec_decoder f = Some d0"
    "fec_decoder_register_buffer d0 (seg_index seg) (take (segment_bytes seg) (segment_data seg)) = Some d1"
    "fec_get_decoded_buffer lib d1 = Some (d2, res)"
    using run f by (auto simp: try_fec_def Let_def split: bind_splits)
  show ?thesis
  proof (cases res)
    case None
    then have "rb' = put_frame rb (Slot i) (f\<lparr>fec_decoder := Some d2\<rparr>)"
      using run d True by (simp add: try_fec_def Let_def flip: f)
    moreover have "f\<lparr>fec_decoder := Some d2\<rparr> = f\<lparr>fec_decoder := Some d2, frame_buffer_size := frame_buffer_size f,
         successful_fec_recovery := successful_fec_recovery f\<rparr>" by simp
    moreover have "rb = rb\<lparr>packet_buffer_allocator := packet_buffer_allocator rb\<rparr>" by simp
    ultimately have "rb' = put_frame (rb\<lparr>packet_buffer_allocator := packet_buffer_allocator rb\<rparr>) (Slot i)
      (f\<lparr>fec_decoder := Some d2, frame_buffer_size := frame_buffer_size f,
         successful_fec_recovery := successful_fec_recovery f\<rparr>)" by argo
    moreover have "num_fec_packets f \<noteq> 0" using True by simp
    ultimately show ?thesis using pool(1)
      by (intro exI [of _ "packet_buffer_allocator rb"] exI [of _ "Some d2"] exI [of _ "frame_buffer_size f"]
        exI [of _ "successful_fec_recovery f"]) simp
  next
    case (Some bytes)
    then obtain fb b where fb: "fec_frame_buffer f = Some fb"
      "write_block_at (packet_buffer_allocator rb) fb 0 bytes = Some b"
      "rb' = put_frame (rb\<lparr>packet_buffer_allocator := b\<rparr>) (Slot i)
         (f\<lparr>fec_decoder := Some d2, frame_buffer_size := length bytes, successful_fec_recovery := True\<rparr>)"
      using run d True f by (auto simp: try_fec_def Let_def split: bind_splits)
    have "fb \<in> S" using pool(2) fb(1) by (auto simp: blocks_def)
    moreover have "num_fec_packets f \<noteq> 0" using True by simp
    ultimately show ?thesis using write_block_at_ok(1,2) [OF pool(1) _ fb(2)] fb(3)
      by (intro exI [of _ b] exI [of _ "Some d2"] exI [of _ "length bytes"] exI [of _ True]) simp
  qed
qed

text \<open>Storing a segment, step by step: the frame is marked; it is left at that when the frame is not
  to be rendered any more or the segment is too large, else the segment is copied and, with FEC, decoding tried.\<close>

lemma store_segment_cases:
  assumes inv: "rb_inv ok rb" and i: "get_frame_at_id rb (seg_id seg) = Some i"
    and f: "f = receiving_frames rb ! i" "frame_id f = seg_id seg"
    and run: "store_segment lib rb i seg = Some rb'"
  obtains (marked) n where "rb' = put_frame rb (Slot i) (mark f (seg_index seg))\<lparr>num_unnecessary_original_packets_received := n\<rparr>"
      "seg_id seg \<le> currently_rendering_id rb \<or>
       seg_index seg * MAX_PACKET_SEGMENT_SIZE + segment_bytes seg \<ge> largest_frame_size rb"
  | (stored) pb b sz u v r where "packet_buffer f = Some pb" "currently_rendering_id rb < seg_id seg"
      "write_block_at (packet_buffer_allocator rb) pb (seg_index seg * MAX_PACKET_SEGMENT_SIZE)
         (take (segment_bytes seg) (segment_data seg)) = Some b"
      "sz = frame_buffer_size f + (if num_fec_packets f = 0 then segment_bytes seg else 0)"
      "try_fec lib (put_frame (rb\<lparr>packet_buffer_allocator := b\<rparr>) (Slot i)
         ((mark f (seg_index seg))\<lparr>frame_buffer_size := sz\<rparr>)) i seg = Some u"
      "is_ready_to_render u (seg_id seg) = Some (v, r)"
      "rb' = (if r \<and> frame_buffer f = None then v\<lparr>frames_received := frames_received v + 1,
         num_pending_ready_frames := num_pending_ready_frames v + 1\<rparr> else v)"
proof -
  let ?m = "mark f (seg_index seg)" and ?off = "seg_index seg * MAX_PACKET_SEGMENT_SIZE"
  obtain r0 where r0: "is_ready_to_render rb (seg_id seg) = Some (rb, r0)"
    using run is_ready_same(1) [OF inv] by (cases "is_ready_to_render rb (seg_id seg)") (auto simp: store_segment_def)
  have was: "r0 \<longleftrightarrow> frame_buffer f \<noteq> None" using is_ready_same(2) [OF inv r0] i f by auto
  have il: "i < length (receiving_frames rb)" using get_frame_at_idD [OF i] rb_invD(3) [OF inv] by simp
  have "mark_received f (seg_index seg) \<in> {None, Some ?m}" by (simp add: mark_received_def mark_def Let_def)
  then have m: "mark_received f (seg_index seg) = Some ?m"
    using run r0 by (auto simp: store_segment_def f(1) [symmetric])
  define rb1 where "rb1 = put_frame rb (Slot i) ?m"
  have rest: "(if seg_id seg \<le> currently_rendering_id rb then
       Some (rb1\<lparr>num_unnecessary_original_packets_received :=
                  num_unnecessary_original_packets_received rb1 + 1\<rparr>)
     else if ?off + segment_bytes seg \<ge> largest_frame_size rb then Some rb1
     else store_payload lib rb1 i seg r0) = Some rb'"
    using run r0 m by (simp add: store_segment_def f(1) [symmetric] Let_def rb1_def cong: if_cong)
  consider (a) "seg_id seg \<le> currently_rendering_id rb" | (b) "currently_rendering_id rb < seg_id seg"
      "?off + segment_bytes seg \<ge> largest_frame_size rb"
    | (c) "currently_rendering_id rb < seg_id seg" "\<not> ?off + segment_bytes seg \<ge> largest_frame_size rb" by linarith
  then show thesis
  proof cases
    case a
    then show ?thesis using rest by (intro marked [of "num_unnecessary_original_packets_received rb1 + 1"]) (simp_all add: rb1_def)
  next
    case b
    then have "rb' = rb1" using rest by simp
    then have "rb' = rb1\<lparr>num_unnecessary_original_packets_received := num_unnecessary_original_packets_received rb\<rparr>"
      by (simp add: rb1_def)
    then show ?thesis using b by (intro marked [of "num_unnecessary_original_packets_received rb"]) (simp_all add: rb1_def)
  next
    case c
    define sz where "sz = frame_buffer_size f + (if num_fec_packets f = 0 then segment_bytes seg else 0)"
    have same: "?m\<lparr>frame_buffer_size := frame_buffer_size f\<rparr> = ?m" by (simp add: mark_def)
    have sz: "(if num_fec_packets f = 0 then ?m\<lparr>frame_buffer_size := frame_buffer_size ?m + segment_bytes seg\<rparr> else ?m) =
        ?m\<lparr>frame_buffer_size := sz\<rparr>" by (simp add: sz_def same)
    have rb1: "receiving_frames rb1 ! i = ?m" "packet_buffer_allocator rb1 = packet_buffer_allocator rb"
      "put_frame (rb1\<lparr>packet_buffer_allocator := b\<rparr>) (Slot i) h = put_frame (rb\<lparr>packet_buffer_allocator := b\<rparr>) (Slot i) h" for b h
      using il by (simp_all add: rb1_def)
    have "store_payload lib rb1 i seg r0 = Some rb'" using rest c by simp
    then obtain pb b u v r where s: "packet_buffer f = Some pb"
      "write_block_at (packet_buffer_allocator rb) pb ?off (take (segment_bytes seg) (segment_data seg)) = Some b"
      "try_fec lib (put_frame (rb\<lparr>packet_buffer_allocator := b\<rparr>) (Slot i) (?m\<lparr>frame_buffer_size := sz\<rparr>)) i seg = Some u"
      "is_ready_to_render u (seg_id seg) = Some (v, r)"
      "rb' = (if r \<and> \<not> r0 then v\<lparr>frames_received := frames_received v + 1,
         num_pending_ready_frames := num_pending_ready_frames v + 1\<rparr> else v)"
      unfolding store_payload_def by (auto simp: Let_def rb1 sz simp del: put_frame.simps split: bind_splits)
    with was c(1) show ?thesis by (intro stored [of pb b sz u v r]) (simp_all add: sz_def)
  qed
qed

lemma frame_ok_mark:
  assumes "frame_ok n cur lst i f" "\<not> received_indices f j"
    and "frame_id f \<le> cur \<or> num_fec_packets f > 0"
  shows "frame_ok n cur lst i (mark f j)"
proof -
  have "get_framebuffer (mark f j) = get_framebuffer f" if "num_fec_packets f > 0"
    using that by (simp add: get_framebuffer_def)
  moreover have "original_packets_received (mark f j) = received_originals (mark f j)"
    using assms(1) received_originals_mark [OF assms(2)] by (simp add: frame_ok_def mark_def)
  ultimately show ?thesis using assms(1,3) unfolding frame_ok_def mark_simps by force
qed

lemma owned_blocks:
  assumes "i < length (receiving_frames rb)"
  shows "set (blocks (receiving_frames rb ! i)) \<subseteq> set (all_blocks rb)"
  using nth_mem [OF assms] by (auto simp: all_blocks_def)

text \<open>The frame after a stored segment.\<close>

lemma stored_frame_ok:
  assumes fok: "frame_ok n cur lst i f" and pb: "packet_buffer f \<noteq> None" and cur: "cur < frame_id f"
    and fresh: "\<not> received_indices f j"
    and g: "g = (mark f j)\<lparr>fec_decoder := d, frame_buffer_size := sz, successful_fec_recovery := s,
      frame_buffer := get_framebuffer ((mark f j)\<lparr>fec_decoder := d, frame_buffer_size := sz, successful_fec_recovery := s\<rparr>)\<rparr>"
  shows "frame_ok n cur lst i g" "blocks g = blocks f" "frame_id g = frame_id f" "get_framebuffer g = frame_buffer g"
    "num_original_packets g = num_original_packets f" "num_fec_packets g = num_fec_packets f"
proof -
  have "received_originals g = received_originals (mark f j)" by (rule received_originals_cong) (simp_all add: g)
  moreover have fb: "get_framebuffer g = frame_buffer g" by (simp add: g get_framebuffer_def)
  moreover have "\<not> frame_id f \<le> lst" using fok pb cur by (auto simp: frame_ok_def)
  moreover have "original_packets_received g = received_originals (mark f j)"
    using fok received_originals_mark [OF fresh] by (simp add: frame_ok_def g mark_def)
  moreover have "frame_id g = frame_id f" "packet_buffer g = packet_buffer f" "fec_frame_buffer g = fec_frame_buffer f"
    "num_fec_packets g = num_fec_packets f" "num_original_packets g = num_original_packets f" by (simp_all add: g)
  ultimately show "frame_ok n cur lst i g" using fok pb cur unfolding frame_ok_def by force
  show "get_framebuffer g = frame_buffer g" by (rule fb)
qed (simp_all add: g blocks_def)

text \<open>Which ids the slots have, and which of them hold a packet buffer.\<close>

definition slot_ids :: "RingBuffer \<Rightarrow> (int \<times> bool) list" where
  "slot_ids rb = map (\<lambda>f. (frame_id f, packet_buffer f \<noteq> None)) (receiving_frames rb)"

lemma slot_ids_update:
  assumes "receiving_frames rb' = (receiving_frames rb)[i := g]"
    and "i < length (receiving_frames rb) \<Longrightarrow> frame_id g = frame_id (receiving_frames rb ! i) \<and>
      (packet_buffer g = None \<longleftrightarrow> packet_buffer (receiving_frames rb ! i) = None)"
  shows "slot_ids rb' = slot_ids rb"
  using assms by (cases "i < length (receiving_frames rb)") (auto simp: slot_ids_def map_update list_update_same_conv list_update_beyond)

lemma store_segment_ok:
  assumes inv: "rb_inv ok rb" and i: "get_frame_at_id rb (seg_id seg) = Some i"
    and f: "f = receiving_frames rb ! i" "frame_id f = seg_id seg"
    and fresh: "\<not> received_indices f (seg_index seg)" "seg_index seg < num_original_packets f + num_fec_packets f"
    and fits: "num_fec_packets f = 0 \<longrightarrow> seg_index seg * MAX_PACKET_SEGMENT_SIZE + segment_bytes seg < largest_frame_size rb"
    and run: "store_segment lib rb i seg = Some rb'"
  shows "rb_inv ok rb' \<and> same_rest rb rb' \<and> slot_ids rb' = slot_ids rb"
proof -
  note I = rb_invD [OF inv]
  have il: "i < ring_buffer_size rb" "i < length (receiving_frames rb)" using get_frame_at_idD [OF i] I(3) by simp_all
  have fok: "frame_ok (ring_buffer_size rb) (currently_rendering_id rb) (last_rendered_id rb) i f"
    using I(4) [OF il(1)] f(1) by simp
  have pool: "pool_inv ok (packet_buffer_allocator rb) (set (all_blocks rb))" using I(1) by (simp add: owns_def)
  have own: "set (blocks f) \<subseteq> set (all_blocks rb)" using owned_blocks [OF il(2)] f(1) by simp
  let ?m = "mark f (seg_index seg)"
  from inv i f run show ?thesis
  proof (cases rule: store_segment_cases)
    case (marked n)
    have "frame_id f \<le> currently_rendering_id rb \<or> num_fec_packets f > 0" using marked(2) fits f(2) by auto
    then have "frame_ok (ring_buffer_size rb) (currently_rendering_id rb) (last_rendered_id rb) i ?m"
      by (rule frame_ok_mark [OF fok fresh(1)])
    then have "rb_inv ok rb'"
      by (intro rb_inv_step [OF inv il(1), where g = ?m]) (simp_all add: marked(1) pool f(1) [symmetric] blocks_def)
    moreover have "same_rest rb rb'" "receiving_frames rb' = (receiving_frames rb)[i := ?m]"
      by (simp_all add: marked(1) same_rest_def)
    ultimately show ?thesis using slot_ids_update [of rb' rb i ?m] f(1) by simp
  next
    case (stored pb b sz u v r)
    have "pb \<in> set (all_blocks rb)" using own stored(1) by (auto simp: blocks_def)
    note w = write_block_at_ok(1,2) [OF pool this stored(3)]
    let ?rb1 = "put_frame (rb\<lparr>packet_buffer_allocator := b\<rparr>) (Slot i) (?m\<lparr>frame_buffer_size := sz\<rparr>)"
    have nth1: "?m\<lparr>frame_buffer_size := sz\<rparr> = receiving_frames ?rb1 ! i" "i < length (receiving_frames ?rb1)"
      using il(2) by simp_all
    have "set (blocks (?m\<lparr>frame_buffer_size := sz\<rparr>)) \<subseteq> set (all_blocks rb)" using own by (simp add: blocks_def)
    from try_fec_ok [OF stored(5) nth1 _ this, of ok] w(1) obtain b2 d sz2 s where
      t: "u = put_frame (?rb1\<lparr>packet_buffer_allocator := b2\<rparr>) (Slot i)
          (?m\<lparr>frame_buffer_size := sz, fec_decoder := d, frame_buffer_size := sz2, successful_fec_recovery := s\<rparr>)"
        "successful_fec_recovery (?m\<lparr>frame_buffer_size := sz\<rparr>) \<longrightarrow> s"
        "pool_inv ok b2 (set (all_blocks rb))" "block_size b2 = block_size (packet_buffer_allocator ?rb1)"
      by force
    define h where "h = ?m\<lparr>fec_decoder := d, frame_buffer_size := sz2, successful_fec_recovery := s\<rparr>"
    have u: "u = rb\<lparr>packet_buffer_allocator := b2, receiving_frames := (receiving_frames rb)[i := h]\<rparr>"
      using t(1) by (simp add: h_def)
    define g where "g = h\<lparr>frame_buffer := get_framebuffer h\<rparr>"
    have cur: "currently_rendering_id rb < frame_id f" using stored(2) f(2) by simp
    have "packet_buffer f \<noteq> None" using stored(1) by simp
    note gok = stored_frame_ok [OF fok this cur fresh(1) g_def [unfolded h_def]]
    have v: "v = rb\<lparr>packet_buffer_allocator := b2, receiving_frames := (receiving_frames rb)[i := g]\<rparr>"
      "r \<longleftrightarrow> frame_buffer g \<noteq> None"
      using stored(6) i il(2) cur f(2)
      by (auto simp: is_ready_to_render_def u get_frame_at_id_def Let_def g_def h_def split: if_splits)
    have mono: "frame_buffer g \<noteq> None" if "frame_buffer f \<noteq> None"
    proof -
      have fb: "get_framebuffer f = frame_buffer f" using fok cur by (simp add: frame_ok_def)
      have "received_originals f < num_original_packets f" if "num_fec_packets f = 0"
        using received_originals_lt [OF _ fresh(1)] fresh(2) that by simp
      then have "num_fec_packets f > 0" using fb that fok by (auto simp: get_framebuffer_def frame_ok_def split: if_splits)
      then show ?thesis using fb that t(2) by (auto simp: g_def h_def get_framebuffer_def split: if_splits)
    qed
    have num: "num_pending_ready_frames rb' = num_pending_ready_frames rb -
      (if frame_buffer f \<noteq> None then 1 else 0) + (if frame_buffer g \<noteq> None then 1 else 0)"
      using mono stored(7) v by (auto split: if_splits)
    have shape: "receiving_frames rb' = (receiving_frames rb)[i := g]" "packet_buffer_allocator rb' = b2"
      "currently_rendering_frame rb' = currently_rendering_frame rb" "same_rest rb rb'"
      using stored(7) v(1) by (simp_all add: same_rest_def)
    have "rb_inv ok rb'"
      by (rule rb_inv_step [OF inv il(1) shape(1)])
        (use shape(2,3,4) num t(3,4) w(2) gok(1,2) f(1) in \<open>simp_all add: same_rest_def\<close>)
    moreover have "slot_ids rb' = slot_ids rb"
      by (rule slot_ids_update [OF shape(1)]) (simp add: g_def h_def f(1))
    ultimately show ?thesis using shape(4) by blast
  qed
qed

text \<open>The statistics of a frame do not matter to the invariant.\<close>

definition same_data :: "FrameData \<Rightarrow> FrameData \<Rightarrow> bool" where
  "same_data f g \<longleftrightarrow> frame_id g = frame_id f \<and> packet_buffer g = packet_buffer f \<and> frame_buffer g = frame_buffer f \<and>
     fec_frame_buffer g = fec_frame_buffer f \<and> num_original_packets g = num_original_packets f \<and>
     num_fec_packets g = num_fec_packets f \<and> received_indices g = received_indices f \<and>
     original_packets_received g = original_packets_received f \<and> fec_decoder g = fec_decoder f \<and>
     successful_fec_recovery g = successful_fec_recovery f \<and> frame_buffer_size g = frame_buffer_size f"

lemma same_data_refl [simp]: "same_data f f"
  by (simp add: same_data_def)

lemma same_data_ok:
  assumes "same_data f g" "frame_ok n cur lst i f"
  shows "frame_ok n cur lst i g" "blocks g = blocks f"
  using assms received_originals_cong [of g f]
  by (simp_all add: same_data_def frame_ok_def get_framebuffer_def blocks_def)

lemma rb_inv_same_data:
  assumes inv: "rb_inv ok rb" and i: "i < ring_buffer_size rb"
    and g: "same_data (receiving_frames rb ! i) g" and frames: "receiving_frames rb' = (receiving_frames rb)[i := g]"
    and rest: "same_rest rb rb'" "currently_rendering_frame rb' = currently_rendering_frame rb"
      "num_pending_ready_frames rb' = num_pending_ready_frames rb" "packet_buffer_allocator rb' = packet_buffer_allocator rb"
  shows "rb_inv ok rb'"
  by (rule rb_inv_step [OF inv i frames])
    (use rest g same_data_ok [OF g rb_invD(4) [OF inv i]] rb_invD(1) [OF inv] in
      \<open>simp_all add: same_rest_def same_data_def owns_def\<close>)

lemma count_segment_ok:
  "\<exists>g. receiving_frames (count_segment now rb i seg) = (receiving_frames rb)[i := g] \<and>
     same_data (receiving_frames rb ! i) g \<and> same_rest rb (count_segment now rb i seg) \<and>
     currently_rendering_frame (count_segment now rb i seg) = currently_rendering_frame rb \<and>
     num_pending_ready_frames (count_segment now rb i seg) = num_pending_ready_frames rb \<and>
     packet_buffer_allocator (count_segment now rb i seg) = packet_buffer_allocator rb"
  by (auto simp: count_segment_def Let_def same_rest_def same_data_def)

definition seg_fits :: "RingBuffer \<Rightarrow> WhistSegment \<Rightarrow> bool" where
  "seg_fits rb seg \<longleftrightarrow> num_fec_indices seg = 0 \<longrightarrow>
     seg_index seg * MAX_PACKET_SEGMENT_SIZE + segment_bytes seg < largest_frame_size rb"

lemma accept_segment_ok:
  assumes inv: "rb_inv ok rb" and i: "get_frame_at_id rb (seg_id seg) = Some i"
    and seg: "seg_index seg < num_indices seg" "seg_fits rb seg"
    and run: "accept_segment lib now rb i seg = Some rb'"
  shows "rb_inv ok rb' \<and> same_rest rb rb' \<and> slot_ids rb' = slot_ids rb"
proof -
  let ?c = "count_segment now rb i seg"
  have il: "i < ring_buffer_size rb" "i < length (receiving_frames rb)"
    using get_frame_at_idD [OF i] rb_invD(3) [OF inv] by simp_all
  obtain g where c: "receiving_frames ?c = (receiving_frames rb)[i := g]" "same_data (receiving_frames rb ! i) g"
      "same_rest rb ?c" "currently_rendering_frame ?c = currently_rendering_frame rb"
      "num_pending_ready_frames ?c = num_pending_ready_frames rb"
      "packet_buffer_allocator ?c = packet_buffer_allocator rb" using count_segment_ok by blast
  have invc: "rb_inv ok ?c" by (rule rb_inv_same_data [OF inv il(1) c(2,1,3-6)])
  have nth: "receiving_frames ?c ! i = g" using c(1) il(2) by simp
  have ids: "slot_ids ?c = slot_ids rb"
    by (rule slot_ids_update [OF c(1)]) (use c(2) in \<open>simp add: same_data_def\<close>)
  have meta: "frame_id g = seg_id seg" "num_fec_packets g = num_fec_indices seg"
    "num_original_packets g + num_fec_packets g = num_indices seg"
    using run c(2) by (auto simp: accept_segment_def Let_def same_data_def split: if_splits)
  have rest: "(if received_indices g (seg_index seg) then
       Some (if \<not> is_a_nack seg
             then put_frame ?c (Slot i) (g\<lparr>duplicate_packets_received := duplicate_packets_received g + 1\<rparr>)
             else ?c)
     else store_segment lib ?c i seg) = Some rb'"
    using run by (simp add: accept_segment_def Let_def nth split: if_splits)
  show ?thesis
  proof (cases "received_indices g (seg_index seg)")
    case True
    then have rb': "rb' = (if is_a_nack seg then ?c
        else put_frame ?c (Slot i) (g\<lparr>duplicate_packets_received := duplicate_packets_received g + 1\<rparr>))"
      using rest by auto
    have "rb_inv ok (put_frame ?c (Slot i) (g\<lparr>duplicate_packets_received := duplicate_packets_received g + 1\<rparr>))"
      by (rule rb_inv_same_data [OF invc, of i])
        (use il(1) c(3) nth in \<open>simp_all add: same_data_def same_rest_def\<close>)
    moreover have "slot_ids (put_frame ?c (Slot i) (g\<lparr>duplicate_packets_received := duplicate_packets_received g + 1\<rparr>)) =
        slot_ids ?c" by (rule slot_ids_update [OF frames_put_slot(1)]) (simp add: nth)
    ultimately show ?thesis using rb' invc c(3) ids by (auto simp: same_rest_def)
  next
    case False
    have ic: "get_frame_at_id ?c (seg_id seg) = Some i" using i c(3) by (simp add: get_frame_at_id_def same_rest_def)
    have fits: "num_fec_packets g = 0 \<longrightarrow>
        seg_index seg * MAX_PACKET_SEGMENT_SIZE + segment_bytes seg < largest_frame_size ?c"
      using seg(2) meta(2) c(3) by (simp add: seg_fits_def same_rest_def)
    have idx: "seg_index seg < num_original_packets g + num_fec_packets g" using seg(1) meta(3) by simp
    have "store_segment lib ?c i seg = Some rb'" using rest False by simp
    from store_segment_ok [OF invc ic nth [symmetric] meta(1) False idx fits this] show ?thesis
      using c(3) same_rest_trans ids by auto
  qed
qed

text \<open>Room for a new segment.\<close>

lemma log_dropped_same:
  assumes "rb_inv ok rb" "log_dropped_frames is rb = Some rb'"
  shows "rb' = rb"
  using assms(2)
proof (induction "is")
  case (Cons i "is")
  then show ?case using is_ready_same(1) [OF assms(1)]
    by (auto simp: Let_def split: if_splits bind_splits)
qed simp

lemma evict_resident_ok:
  assumes inv: "rb_inv ok rb" and i: "i < ring_buffer_size rb" and run: "evict_resident rb i = Some (rb', overflowed)"
  shows "rb_inv ok rb' \<and> ring_buffer_size rb' = ring_buffer_size rb \<and> largest_frame_size rb' = largest_frame_size rb \<and>
    currently_rendering_id rb' = currently_rendering_id rb \<and> packet_buffer (receiving_frames rb' ! i) = None \<and>
    last_rendered_id rb' = (if overflowed then -1 else last_rendered_id rb) \<and>
    (if overflowed then min_id rb' = -1 \<and> max_id rb' = -1 \<and> receiving_frames rb' = replicate (ring_buffer_size rb) zero_frame
     else min_id rb' = min_id rb \<and> max_id rb' = max_id rb \<and>
       (\<exists>g. receiving_frames rb' = (receiving_frames rb)[i := g] \<and> frame_id g = frame_id (receiving_frames rb ! i)))"
proof -
  let ?f = "receiving_frames rb ! i"
  consider (a) "packet_buffer ?f = None" | (b) "packet_buffer ?f \<noteq> None" "frame_id ?f > currently_rendering_id rb"
    | (c) "packet_buffer ?f \<noteq> None" "\<not> frame_id ?f > currently_rendering_id rb" by blast
  then show ?thesis
  proof cases
    case a
    then have "rb' = rb" "\<not> overflowed" using run by (simp_all add: evict_resident_def Let_def)
    then show ?thesis using a inv by (auto intro: exI [of _ ?f])
  next
    case b
    then obtain x where x: "log_dropped_frames [0..<ring_buffer_size rb] rb = Some x"
      "reset_ring_buffer x = Some rb'" "overflowed"
      using run by (auto simp: evict_resident_def Let_def split: bind_splits)
    have "packet_buffer zero_frame = None" by (simp add: zero_frame_def)
    with reset_ring_buffer_ok [OF inv] x log_dropped_same [OF inv x(1)] i show ?thesis by auto
  next
    case c
    have "frame_id (cleared ?f) = frame_id ?f" "packet_buffer (cleared ?f) = None" by (simp_all add: cleared_def)
    with rb_inv_reset_slot [OF inv i c(1)] show ?thesis
      using run c i rb_invD(3) [OF inv] by (auto simp: evict_resident_def Let_def split: bind_splits)
  qed
qed

text \<open>A new frame takes one block, or two with FEC, from the allocator.\<close>

lemma rb_inv_new_frame:
  assumes inv: "rb_inv ok rb" and i: "i < ring_buffer_size rb" and old: "packet_buffer (receiving_frames rb ! i) = None"
    and frames: "receiving_frames rb' = (receiving_frames rb)[i := g]"
    and rest: "same_rest rb rb'" "currently_rendering_frame rb' = currently_rendering_frame rb"
      "num_pending_ready_frames rb' = num_pending_ready_frames rb"
    and pool: "pool_inv ok (packet_buffer_allocator rb') (set (blocks g) \<union> set (all_blocks rb))"
      "block_size (packet_buffer_allocator rb') = block_size (packet_buffer_allocator rb)"
    and new: "distinct (blocks g)" "set (blocks g) \<inter> set (all_blocks rb) = {}"
    and g: "frame_ok (ring_buffer_size rb) (currently_rendering_id rb) (last_rendered_id rb) i g" "frame_buffer g = None"
  shows "rb_inv ok rb'"
proof -
  note I = rb_invD [OF inv]
  have i': "i < length (receiving_frames rb)" using i I(3) by simp
  have none: "blocks (receiving_frames rb ! i) = []" "frame_buffer (receiving_frames rb ! i) = None"
    using I(4) [OF i] old by (auto simp: frame_ok_def blocks_def)
  obtain A B where AB: "concat (map blocks (receiving_frames rb)) = A @ blocks (receiving_frames rb ! i) @ B"
    "\<And>g. concat (map blocks ((receiving_frames rb)[i := g])) = A @ blocks g @ B"
    using concat_blocks_update [OF i'] by blast
  have all: "all_blocks rb = A @ B @ rendered_blocks rb" "all_blocks rb' = A @ blocks g @ B @ rendered_blocks rb"
    using AB none(1) rest by (simp_all add: all_blocks_def rendered_blocks_def frames same_rest_def)
  then have "set (all_blocks rb') = set (blocks g) \<union> set (all_blocks rb)" by auto
  moreover have "distinct (all_blocks rb')" using I(1) new all by (auto simp: owns_def)
  ultimately have "owns ok rb'" using I(1) pool rest(1) by (simp add: owns_def same_rest_def)
  moreover have "frame_ok (ring_buffer_size rb) (currently_rendering_id rb) (last_rendered_id rb) j
      ((receiving_frames rb)[i := g] ! j)" if "j < ring_buffer_size rb" for j
    using I(4) [OF that] g(1) i' by (cases "j = i") auto
  ultimately show ?thesis
    using I ready_count_update [OF i', of g] none(2) g(2) rest by (simp add: rb_inv_def frames same_rest_def)
qed

text \<open>The frame that \<open>init_frame\<close> sets up.\<close>

definition new_frame :: "FrameData \<Rightarrow> int \<Rightarrow> nat \<Rightarrow> nat \<Rightarrow> bool" where
  "new_frame g k num_original num_fec \<longleftrightarrow> frame_id g = k \<and> num_original_packets g = num_original \<and>
     num_fec_packets g = num_fec \<and> packet_buffer g \<noteq> None \<and> frame_buffer g = None \<and>
     received_indices g = (\<lambda>_. False) \<and> original_packets_received g = 0 \<and> \<not> successful_fec_recovery g \<and>
     frame_buffer_size g = 0 \<and> (num_fec = 0 \<longrightarrow> fec_frame_buffer g = None)"

lemma new_frame_ok:
  assumes "new_frame g k num_original num_fec" "0 < num_original" "0 \<le> k" "nat k mod n = i" "lst < k"
  shows "frame_ok n cur lst i g"
  using assms by (auto simp: new_frame_def frame_ok_def received_originals_def get_framebuffer_def)

lemma init_frame_cases:
  assumes run: "init_frame stg now rb k num_original num_fec prev = Some rb'"
  obtains i b pb g where "get_frame_at_id rb k = Some i" "packet_buffer (receiving_frames rb ! i) = None"
    "allocate_block (packet_buffer_allocator rb) = Some (b, pb)" "packet_buffer g = Some pb"
    "new_frame g k num_original num_fec"
    "(num_fec = 0 \<and> rb' = put_frame (rb\<lparr>packet_buffer_allocator := b\<rparr>) (Slot i) g) \<or>
     (\<exists>b2 fb. num_fec > 0 \<and> allocate_block b = Some (b2, fb) \<and> fec_frame_buffer g = Some fb \<and>
        rb' = put_frame (rb\<lparr>packet_buffer_allocator := b2\<rparr>) (Slot i) g)"
proof -
  obtain i where i: "get_frame_at_id rb k = Some i" using run by (auto simp: init_frame_def split: bind_splits)
  define f where "f = receiving_frames rb ! i"
  obtain b pb where b: "allocate_block (packet_buffer_allocator rb) = Some (b, pb)" and f: "packet_buffer f = None"
    using run i by (auto simp: init_frame_def Let_def f_def split: bind_splits if_splits)
  define f3 where "f3 = fresh_frame now f k num_original num_fec prev pb"
  have run': "(if num_fec > 0 then do {
       d \<leftarrow> create_fec_decoder stg num_original num_fec MAX_PACKET_SEGMENT_SIZE;
       (b, fb) \<leftarrow> allocate_block b;
       Some (put_frame (rb\<lparr>packet_buffer_allocator := b\<rparr>) (Slot i)
               (f3\<lparr>fec_decoder := Some d, fec_frame_buffer := Some fb, successful_fec_recovery := False\<rparr>)) }
     else Some (put_frame (rb\<lparr>packet_buffer_allocator := b\<rparr>) (Slot i) f3)) = Some rb'"
    using run i b f unfolding f3_def f_def
    by (simp add: init_frame_def Let_def del: put_frame.simps split del: if_split)
  have n3: "packet_buffer f3 = Some pb" "new_frame (f3\<lparr>fec_decoder := d, fec_frame_buffer := e, successful_fec_recovery := False\<rparr>) k
      num_original num_fec \<longleftrightarrow> (num_fec = 0 \<longrightarrow> e = None)" "new_frame f3 k num_original num_fec" for d e
    by (auto simp: f3_def fresh_frame_def Let_def zero_frame_def new_frame_def)
  show thesis
  proof (cases "num_fec = 0")
    case True
    then show ?thesis using run' n3 by (intro that [OF i f [unfolded f_def] b, of f3]) simp_all
  next
    case False
    then obtain d b2 fb where d: "allocate_block b = Some (b2, fb)"
      "rb' = put_frame (rb\<lparr>packet_buffer_allocator := b2\<rparr>) (Slot i)
               (f3\<lparr>fec_decoder := Some d, fec_frame_buffer := Some fb, successful_fec_recovery := False\<rparr>)"
      using run' by (auto split: bind_splits)
    then show ?thesis using n3 False
      by (intro that [OF i f [unfolded f_def] b,
            of "f3\<lparr>fec_decoder := Some d, fec_frame_buffer := Some fb, successful_fec_recovery := False\<rparr>"]) simp_all
  qed
qed

lemma init_frame_ok:
  assumes inv: "rb_inv ok rb" and run: "init_frame stg now rb k num_original num_fec prev = Some rb'"
    and k: "last_rendered_id rb < k" "0 < num_original"
  shows "rb_inv ok rb' \<and> same_rest rb rb' \<and> (\<exists>i g. get_frame_at_id rb k = Some i \<and>
    receiving_frames rb' = (receiving_frames rb)[i := g] \<and> new_frame g k num_original num_fec)"
  using run
proof (cases rule: init_frame_cases)
  case (1 i b pb g)
  note I = rb_invD [OF inv]
  have pool: "pool_inv ok (packet_buffer_allocator rb) (set (all_blocks rb))" using I(1) by (simp add: owns_def)
  note al = allocate_block_ok [OF pool 1(3)]
  note i = get_frame_at_idD [OF 1(1)]
  have gok: "frame_ok (ring_buffer_size rb) (currently_rendering_id rb) (last_rendered_id rb) i g"
    using new_frame_ok [OF 1(5) k(2)] i k(1) by auto
  have fb: "frame_buffer g = None" "num_fec = 0 \<Longrightarrow> fec_frame_buffer g = None" using 1(5) by (auto simp: new_frame_def)
  from 1(6) have "rb_inv ok rb' \<and> same_rest rb rb' \<and> receiving_frames rb' = (receiving_frames rb)[i := g]"
  proof
    assume c: "num_fec = 0 \<and> rb' = put_frame (rb\<lparr>packet_buffer_allocator := b\<rparr>) (Slot i) g"
    then have bl: "blocks g = [pb]" using 1(4) fb by (simp add: blocks_def)
    have rest: "receiving_frames rb' = (receiving_frames rb)[i := g]" "same_rest rb rb'"
      using c by (simp_all add: same_rest_def)
    have "rb_inv ok rb'"
      by (rule rb_inv_new_frame [OF inv _ 1(2) rest])
        (use i al(1-3) bl gok fb(1) c in \<open>simp_all\<close>)
    with rest show ?thesis by blast
  next
    assume "\<exists>b2 fb. num_fec > 0 \<and> allocate_block b = Some (b2, fb) \<and> fec_frame_buffer g = Some fb \<and>
        rb' = put_frame (rb\<lparr>packet_buffer_allocator := b2\<rparr>) (Slot i) g"
    then obtain b2 fb where c: "allocate_block b = Some (b2, fb)" "fec_frame_buffer g = Some fb"
      "rb' = put_frame (rb\<lparr>packet_buffer_allocator := b2\<rparr>) (Slot i) g" by blast
    note al2 = allocate_block_ok [OF al(2) c(1)]
    have bl: "blocks g = [pb, fb]" using 1(4) c(2) by (simp add: blocks_def)
    have rest: "receiving_frames rb' = (receiving_frames rb)[i := g]" "same_rest rb rb'"
      using c by (simp_all add: same_rest_def)
    have "rb_inv ok rb'"
      by (rule rb_inv_new_frame [OF inv _ 1(2) rest])
        (use i al al2 bl gok fb(1) c(3) in \<open>auto simp: insert_commute\<close>)
    with rest show ?thesis by blast
  qed
  with 1(1,5) show ?thesis by blast
qed

text \<open>The ids of the frames that hold packets lie between \<open>min_id\<close> and \<open>max_id\<close>. Id 0 marks an empty slot.\<close>

definition ids_ok :: "RingBuffer \<Rightarrow> bool" where
  "ids_ok rb \<longleftrightarrow> (min_id rb = -1 \<longleftrightarrow> max_id rb = -1) \<and> (min_id rb \<noteq> -1 \<longrightarrow> 1 \<le> min_id rb \<and> min_id rb \<le> max_id rb) \<and>
     (\<forall>(k, resident) \<in> set (slot_ids rb). 0 \<le> k \<and>
        (resident \<longrightarrow> min_id rb \<noteq> -1 \<and> min_id rb \<le> k \<and> k \<le> max_id rb))"

lemma ids_ok_cong:
  assumes "ids_ok rb" "slot_ids rb' = slot_ids rb" "min_id rb' = min_id rb" "max_id rb' = max_id rb"
  shows "ids_ok rb'"
  using assms(1) unfolding ids_ok_def assms(2-4) .

lemma ids_okD:
  assumes "ids_ok rb" "i < length (receiving_frames rb)"
  shows "0 \<le> frame_id (receiving_frames rb ! i)"
    "packet_buffer (receiving_frames rb ! i) \<noteq> None \<Longrightarrow> min_id rb \<noteq> -1 \<and> 1 \<le> min_id rb \<and>
       min_id rb \<le> frame_id (receiving_frames rb ! i) \<and> frame_id (receiving_frames rb ! i) \<le> max_id rb"
proof -
  have "(frame_id (receiving_frames rb ! i), packet_buffer (receiving_frames rb ! i) \<noteq> None) \<in> set (slot_ids rb)"
    using nth_mem [OF assms(2)] by (auto simp: slot_ids_def)
  then show "0 \<le> frame_id (receiving_frames rb ! i)"
    "packet_buffer (receiving_frames rb ! i) \<noteq> None \<Longrightarrow> min_id rb \<noteq> -1 \<and> 1 \<le> min_id rb \<and>
       min_id rb \<le> frame_id (receiving_frames rb ! i) \<and> frame_id (receiving_frames rb ! i) \<le> max_id rb"
    using assms(1) by (auto simp: ids_ok_def)
qed

lemma set_update_cases: "x \<in> set (xs[i := y]) \<Longrightarrow> x = y \<or> x \<in> set xs"
  using set_update_subset_insert by fastforce

text \<open>A slot that is emptied, or that gets a new frame.\<close>

lemma ids_ok_replace:
  assumes ok: "ids_ok rb" and frames: "receiving_frames rb' = (receiving_frames rb)[i := g]"
    and g: "0 \<le> frame_id g" "packet_buffer g = None"
    and same: "min_id rb' = min_id rb" "max_id rb' = max_id rb"
  shows "ids_ok rb'"
proof -
  have "(k, r) \<in> set (slot_ids rb') \<Longrightarrow> (k, r) = (frame_id g, False) \<or> (k, r) \<in> set (slot_ids rb)" for k r
    using set_update_cases [of "(k, r)" "slot_ids rb" i "(frame_id g, False)"] g(2)
    by (simp add: slot_ids_def frames map_update)
  then show ?thesis using ok g(1) unfolding ids_ok_def same by fast
qed

lemma ids_ok_insert:
  assumes ok: "ids_ok rb" and frames: "receiving_frames rb' = (receiving_frames rb)[i := g]"
    and g: "1 \<le> frame_id g"
    and ids: "max_id rb' = max (max_id rb) (frame_id g)"
      "min_id rb' = (if min_id rb = -1 then frame_id g else min (min_id rb) (frame_id g))"
  shows "ids_ok rb'"
proof -
  have mem: "(k, r) \<in> set (slot_ids rb') \<Longrightarrow> k = frame_id g \<or> (k, r) \<in> set (slot_ids rb)" for k r
    using set_update_cases [of "(k, r)" "slot_ids rb" i "(frame_id g, packet_buffer g \<noteq> None)"]
    by (auto simp: slot_ids_def frames map_update)
  have bounds: "1 \<le> min_id rb'" "min_id rb' \<le> frame_id g" "frame_id g \<le> max_id rb'" "max_id rb \<le> max_id rb'"
    "min_id rb \<noteq> -1 \<Longrightarrow> min_id rb' \<le> min_id rb"
    using ok g by (auto simp: ids ids_ok_def)
  have "0 \<le> k \<and> (r \<longrightarrow> min_id rb' \<noteq> -1 \<and> min_id rb' \<le> k \<and> k \<le> max_id rb')"
    if "(k, r) \<in> set (slot_ids rb')" for k r
  proof (cases "k = frame_id g")
    case False
    then have "(k, r) \<in> set (slot_ids rb)" using mem [OF that] by simp
    then have "0 \<le> k \<and> (r \<longrightarrow> min_id rb \<noteq> -1 \<and> min_id rb \<le> k \<and> k \<le> max_id rb)"
      using ok by (auto simp: ids_ok_def)
    then show ?thesis using bounds by force
  qed (use bounds g in auto)
  then show ?thesis using bounds unfolding ids_ok_def by fastforce
qed

lemma ids_ok_empty:
  assumes "receiving_frames rb = replicate n zero_frame" "min_id rb = -1" "max_id rb = -1"
  shows "ids_ok rb"
  using assms by (auto simp: ids_ok_def slot_ids_def zero_frame_def)

text \<open>Receiving a segment that fits keeps the invariant, whether or not the buffer overflows.\<close>

definition rb_view :: "RingBuffer \<Rightarrow> _" where
  "rb_view rb = (ring_buffer_size rb, receiving_frames rb, largest_frame_size rb, packet_buffer_allocator rb,
     currently_rendering_id rb, currently_rendering_frame rb, num_pending_ready_frames rb, last_rendered_id rb)"

lemma rb_inv_view:
  assumes "rb_inv ok rb" "rb_view rb' = rb_view rb"
  shows "rb_inv ok rb'"
proof -
  have "all_blocks rb' = all_blocks rb" using assms(2) by (simp add: rb_view_def all_blocks_def rendered_blocks_def)
  then show ?thesis using assms by (simp add: rb_inv_def owns_def rb_view_def)
qed

lemma rb_inv_ids:
  "rb_inv ok rb \<Longrightarrow> rb_inv ok (rb\<lparr>max_id := a, min_id := b\<rparr>)"
  "rb_inv ok rb \<Longrightarrow> rb_inv ok (rb\<lparr>num_unnecessary_original_packets_received := c\<rparr>)"
  by (erule rb_inv_view, simp add: rb_view_def)+

lemma receive_segment_ok:
  assumes inv: "rb_inv ok rb" and fits: "seg_fits rb seg"
    and run: "ring_buffer_receive_segment lib stg now rb seg = Some (rb', r)" and ids: "ids_ok rb"
  shows "rb_inv ok rb'" "ids_ok rb'" "ring_buffer_size rb' = ring_buffer_size rb" "largest_frame_size rb' = largest_frame_size rb"
    "currently_rendering_id rb' = currently_rendering_id rb"
    "last_rendered_id rb' = (if r then last_rendered_id rb else -1)"
proof -
  obtain i where i: "get_frame_at_id rb (seg_id seg) = Some i" and seg: "seg_index seg < num_indices seg"
      "num_fec_indices seg < num_indices seg"
    using run by (auto simp: ring_buffer_receive_segment_def split: bind_splits if_splits)
  let ?f = "receiving_frames rb ! i"
  have il: "i < ring_buffer_size rb" using get_frame_at_idD [OF i] by simp
  consider (older) "seg_id seg < frame_id ?f" | (newer) "seg_id seg > frame_id ?f" | (same) "seg_id seg = frame_id ?f"
    by linarith
  then have "rb_inv ok rb' \<and> ids_ok rb' \<and> ring_buffer_size rb' = ring_buffer_size rb \<and> largest_frame_size rb' = largest_frame_size rb \<and>
    currently_rendering_id rb' = currently_rendering_id rb \<and>
    last_rendered_id rb' = (if r then last_rendered_id rb else -1)"
  proof cases
    case older
    then have "rb' = rb\<lparr>num_unnecessary_original_packets_received := num_unnecessary_original_packets_received rb + 1\<rparr>" "r"
      using run i by (simp_all add: ring_buffer_receive_segment_def Let_def split: if_splits)
    then show ?thesis using rb_inv_ids(2) [OF inv] ids_ok_cong [OF ids] by (simp add: slot_ids_def)
  next
    case same
    then have "accept_segment lib now rb i seg = Some rb'" "r"
      using run i by (auto simp: ring_buffer_receive_segment_def Let_def split: if_splits bind_splits)
    then show ?thesis using accept_segment_ok [OF inv i seg(1) fits] ids_ok_cong [OF ids] by (simp add: same_rest_def)
  next
    case newer
    then obtain u ov where u: "evict_resident rb i = Some (u, ov)"
      "(if seg_id seg \<le> last_rendered_id u then Some (u, \<not> ov)
       else do {
         w \<leftarrow> init_frame stg now u (seg_id seg) (num_indices seg - num_fec_indices seg)
                 (num_fec_indices seg) (prev_frame_num_duplicates seg);
         let w = w\<lparr>max_id := max (max_id w) (seg_id seg),
                     min_id := (if min_id w = -1 then seg_id seg else min (min_id w) (seg_id seg))\<rparr>;
         w \<leftarrow> accept_segment lib now w i seg;
         Some (w, \<not> ov) }) = Some (rb', r)"
      using run i by (auto simp: ring_buffer_receive_segment_def Let_def split: if_splits bind_splits)
    note ev = evict_resident_ok [OF inv il u(1)]
    have k: "1 \<le> seg_id seg" using newer ids_okD(1) [OF ids, of i] il rb_invD(3) [OF inv] by simp
    have idu: "ids_ok u"
    proof (cases ov)
      case True
      then show ?thesis using ev ids_ok_empty by auto
    next
      case False
      with ev obtain g where g: "receiving_frames u = (receiving_frames rb)[i := g]" "frame_id g = frame_id ?f"
        "min_id u = min_id rb" "max_id u = max_id rb" by auto
      moreover have "packet_buffer g = None" using ev g(1) il rb_invD(3) [OF inv] by simp
      ultimately show ?thesis using ids_ok_replace [OF ids g(1)] ids_okD(1) [OF ids, of i] il rb_invD(3) [OF inv] by simp
    qed
    show ?thesis
    proof (cases "seg_id seg \<le> last_rendered_id u")
      case True
      then show ?thesis using u(2) ev idu by auto
    next
      case False
      define num where "num = num_indices seg - num_fec_indices seg"
      obtain w x where w: "init_frame stg now u (seg_id seg) num (num_fec_indices seg) (prev_frame_num_duplicates seg) = Some w"
        and x: "x = w\<lparr>max_id := max (max_id w) (seg_id seg),
                     min_id := (if min_id w = -1 then seg_id seg else min (min_id w) (seg_id seg))\<rparr>"
          "accept_segment lib now x i seg = Some rb'" "r \<longleftrightarrow> \<not> ov"
        using u(2) False unfolding num_def by (auto simp: Let_def split: bind_splits)
      have "last_rendered_id u < seg_id seg" "0 < num" using False seg by (simp_all add: num_def)
      with init_frame_ok [OF _ w this] ev obtain i' g where iw: "rb_inv ok w" "same_rest u w"
        and g: "receiving_frames w = (receiving_frames u)[i' := g]" "new_frame g (seg_id seg) num (num_fec_indices seg)"
        by blast
      have idx: "ids_ok x"
        by (rule ids_ok_insert [OF idu, of _ i' g]) (use g k iw(2) in \<open>simp_all add: x(1) new_frame_def same_rest_def\<close>)
      have ix: "rb_inv ok x" unfolding x(1) by (rule rb_inv_ids(1) [OF iw(1)])
      have gx: "get_frame_at_id x (seg_id seg) = Some i"
        using i iw(2) ev by (simp add: get_frame_at_id_def x(1) same_rest_def)
      have fx: "seg_fits x seg" using fits iw(2) ev by (simp add: seg_fits_def x(1) same_rest_def)
      from accept_segment_ok [OF ix gx seg(1) fx x(2)] show ?thesis
        using ev iw(2) x(1,3) ids_ok_cong [OF idx] by (simp add: same_rest_def)
    qed
  qed
  then show "rb_inv ok rb'" "ids_ok rb'" "ring_buffer_size rb' = ring_buffer_size rb" "largest_frame_size rb' = largest_frame_size rb"
    "currently_rendering_id rb' = currently_rendering_id rb"
    "last_rendered_id rb' = (if r then last_rendered_id rb else -1)" by auto
qed

section \<open>Nacking\<close>

text \<open>Asking for packets changes nothing but statistics and the log of requests.\<close>

definition nack_only :: "RingBuffer \<Rightarrow> RingBuffer \<Rightarrow> bool" where
  "nack_only rb rb' \<longleftrightarrow> same_rest rb rb' \<and> currently_rendering_frame rb' = currently_rendering_frame rb \<and>
     packet_buffer_allocator rb' = packet_buffer_allocator rb \<and>
     num_pending_ready_frames rb' = num_pending_ready_frames rb \<and>
     list_all2 same_data (receiving_frames rb) (receiving_frames rb')"

lemma same_data_trans: "same_data f g \<Longrightarrow> same_data g h \<Longrightarrow> same_data f h"
  by (simp add: same_data_def)

lemma nack_only_refl [simp]: "nack_only rb rb"
  by (simp add: nack_only_def same_rest_def list.rel_refl)

lemma nack_only_trans:
  assumes "nack_only a b" "nack_only b c"
  shows "nack_only a c"
proof -
  have "list_all2 same_data (receiving_frames a) (receiving_frames c)"
    using assms by (auto simp: nack_only_def intro: list_all2_trans [OF same_data_trans])
  then show ?thesis using assms by (simp add: nack_only_def same_rest_def)
qed

lemma nack_onlyD:
  assumes "nack_only rb rb'" "i < length (receiving_frames rb)"
  shows "same_data (receiving_frames rb ! i) (receiving_frames rb' ! i)"
  using assms by (simp add: nack_only_def list_all2_conv_all_nth)

lemma nack_only_frame_id: "nack_only rb rb' \<Longrightarrow> get_frame_at_id rb' = get_frame_at_id rb"
  by (simp add: nack_only_def same_rest_def get_frame_at_id_def fun_eq_iff)

lemma nack_only_inv:
  assumes rel: "nack_only rb rb'" and inv: "rb_inv ok rb"
  shows "rb_inv ok rb'"
proof -
  note I = rb_invD [OF inv]
  let ?F = "receiving_frames rb" and ?G = "receiving_frames rb'"
  have len: "length ?G = length ?F" using rel by (auto simp: nack_only_def dest: list_all2_lengthD)
  have ok: "frame_ok (ring_buffer_size rb) (currently_rendering_id rb) (last_rendered_id rb) i (?G ! i)"
      "blocks (?G ! i) = blocks (?F ! i)" "frame_buffer (?G ! i) = frame_buffer (?F ! i)" if "i < ring_buffer_size rb" for i
    using same_data_ok [OF nack_onlyD [OF rel] I(4) [OF that]] nack_onlyD [OF rel, of i] that I(3)
    by (simp_all add: same_data_def)
  have "map blocks ?G = map blocks ?F" "map frame_buffer ?G = map frame_buffer ?F"
    using ok(2,3) len I(3) by (auto intro: nth_equalityI)
  moreover have rc: "ready_count F = length (filter (\<lambda>b. b \<noteq> None) (map frame_buffer F))" for F
    by (simp add: ready_count_def filter_map comp_def)
  ultimately have "all_blocks rb' = all_blocks rb" "ready_count ?G = ready_count ?F"
    using rel by (simp_all add: all_blocks_def rendered_blocks_def nack_only_def same_rest_def del: filter_map length_filter_map)
  then show ?thesis using I ok(1) len rel by (simp add: rb_inv_def owns_def nack_only_def same_rest_def)
qed

lemma nack_only_slot_ids: "nack_only rb rb' \<Longrightarrow> slot_ids rb' = slot_ids rb"
  by (auto simp: nack_only_def slot_ids_def list_all2_conv_all_nth same_data_def intro!: nth_equalityI)

lemma nack_only_ids: "nack_only rb rb' \<Longrightarrow> ids_ok rb \<Longrightarrow> ids_ok rb'"
  using ids_ok_cong nack_only_slot_ids by (auto simp: nack_only_def same_rest_def)

lemma nack_only_put:
  assumes "same_data (receiving_frames rb ! i) g" "rb_view rb' = rb_view (put_frame rb (Slot i) g)"
    "max_id rb' = max_id rb" "min_id rb' = min_id rb"
  shows "nack_only rb rb'"
proof -
  have "same_data (receiving_frames rb ! j) ((receiving_frames rb)[i := g] ! j)" if "j < length (receiving_frames rb)" for j
    using assms(1) that by (cases "j = i") auto
  then show ?thesis using assms(2-4) by (simp add: nack_only_def same_rest_def rb_view_def list_all2_conv_all_nth)
qed

text \<open>A request that is worth sending: the whole of a frame that has not begun to arrive, or a packet
  that is missing from a frame that is not complete.\<close>

definition wanted :: "RingBuffer \<Rightarrow> int \<times> int \<Rightarrow> bool" where
  "wanted rb = (\<lambda>(k, j). \<exists>i. get_frame_at_id rb k = Some i \<and>
     (let f = receiving_frames rb ! i
      in if frame_id f = k
         then 0 \<le> j \<and> j < int (num_original_packets f) \<and> \<not> received_indices f (nat j) \<and> frame_buffer f = None
         else j = -1))"

lemma wanted_nack_only:
  assumes "nack_only rb rb'" "rb_inv ok rb" "wanted rb' r"
  shows "wanted rb r"
proof -
  obtain k j where r: "r = (k, j)" by (cases r)
  from assms(3) obtain i where i: "get_frame_at_id rb k = Some i"
    "(let f = receiving_frames rb' ! i
      in if frame_id f = k
         then 0 \<le> j \<and> j < int (num_original_packets f) \<and> \<not> received_indices f (nat j) \<and> frame_buffer f = None
         else j = -1)"
    using nack_only_frame_id [OF assms(1)] by (auto simp: wanted_def r)
  have "i < length (receiving_frames rb)" using get_frame_at_idD [OF i(1)] rb_invD(3) [OF assms(2)] by simp
  from nack_onlyD [OF assms(1) this] i show ?thesis by (auto simp: wanted_def r same_data_def Let_def)
qed

lemma nack_missing_loop_ok:
  assumes "slot < length (receiving_frames rb)" "distinct is" "n \<le> max_nacks"
  shows "\<exists>ns. sent_nacks (fst (nack_missing_loop now latency slot is max_nacks n rb)) = sent_nacks rb @ ns \<and>
    nack_only rb (fst (nack_missing_loop now latency slot is max_nacks n rb)) \<and>
    snd (nack_missing_loop now latency slot is max_nacks n rb) = n + int (length ns) \<and> n + int (length ns) \<le> max_nacks \<and>
    (\<forall>(k, j) \<in> set ns. k = frame_id (receiving_frames rb ! slot) \<and> 0 \<le> j \<and> nat j \<in> set is \<and>
       \<not> received_indices (receiving_frames rb ! slot) (nat j))"
  using assms
proof (induction "is" arbitrary: n rb)
  case (Cons i "is")
  let ?f = "receiving_frames rb ! slot"
  show ?case
  proof (cases "n < max_nacks")
    case False
    then show ?thesis using Cons.prems by simp
  next
    case less: True
    show ?thesis
    proof (cases "\<not> received_indices ?f i \<and>
        (num_times_index_nacked ?f i = 0 \<or> now - last_nacked_timer ?f i > latency_plus_jitter latency)")
      case False
      with Cons.IH [of rb n] Cons.prems less show ?thesis by (auto simp: Let_def)
    next
      case True
      define g where "g = ?f\<lparr>num_times_index_nacked :=
                        (num_times_index_nacked ?f)(i := (num_times_index_nacked ?f i + 1) mod 256),
                      last_nacked_timer := (last_nacked_timer ?f)(i := now)\<rparr>"
      define u where "u = put_frame (nack_single_packet rb (frame_id ?f) (int i)) (Slot slot) g"
      have eq: "nack_missing_loop now latency slot (i # is) max_nacks n rb =
          nack_missing_loop now latency slot is max_nacks (n + 1) u"
        using True less by (simp add: u_def g_def Let_def)
      have g: "same_data ?f g" by (simp add: g_def same_data_def)
      have u: "nack_only rb u" "sent_nacks u = sent_nacks rb @ [(frame_id ?f, int i)]" "receiving_frames u ! slot = g"
        "slot < length (receiving_frames u)"
        using g Cons.prems(1) nack_only_put [OF g, of u]
        by (simp_all add: u_def nack_single_packet_def rb_view_def)
      from Cons.IH [OF u(4), of "n + 1"] Cons.prems(2) less obtain ns where
        ns: "sent_nacks (fst (nack_missing_loop now latency slot is max_nacks (n + 1) u)) = sent_nacks u @ ns"
        "nack_only u (fst (nack_missing_loop now latency slot is max_nacks (n + 1) u))"
        "snd (nack_missing_loop now latency slot is max_nacks (n + 1) u) = n + 1 + int (length ns)"
        "n + 1 + int (length ns) \<le> max_nacks"
        "\<forall>(k, j) \<in> set ns. k = frame_id g \<and> 0 \<le> j \<and> nat j \<in> set is \<and> \<not> received_indices g (nat j)"
        by (auto simp: u(3))
      have "\<forall>(k, j) \<in> set ((frame_id ?f, int i) # ns). k = frame_id ?f \<and> 0 \<le> j \<and> nat j \<in> set (i # is) \<and>
          \<not> received_indices ?f (nat j)"
        using ns(5) True g by (auto simp: same_data_def)
      with ns u nack_only_trans [OF u(1) ns(2)] eq show ?thesis
        by (intro exI [of _ "(frame_id ?f, int i) # ns"]) simp
    qed
  qed
qed simp

lemma unordered_allowance_ok:
  assumes "0 < ring_buffer_size rb" "\<forall>k \<in> set ids. 0 \<le> k" "0 \<le> n"
  shows "\<exists>m. unordered_allowance rb ids n = Some m \<and> 0 \<le> m"
  using assms
proof (induction ids arbitrary: n)
  case (Cons k ids)
  then obtain j where j: "get_frame_at_id rb k = Some j" by (simp add: get_frame_at_id_eq)
  define m where "m = (if frame_id (receiving_frames rb ! j) = k
    then max (n - int (original_packets_received (receiving_frames rb ! j))) 0 else n)"
  have "0 \<le> m" using Cons.prems(3) by (simp add: m_def)
  with Cons.IH [of m] Cons.prems have "\<exists>m'. unordered_allowance rb ids m = Some m' \<and> 0 \<le> m'" by simp
  then show ?case using j Cons.prems(3) by (simp add: m_def Let_def)
qed simp

lemma nack_upto_index_less:
  assumes "0 < num_original_packets f"
  shows "nack_upto_index rb f k < int (num_original_packets f)"
  using assms by (auto simp: nack_upto_index_def find_Some_iff rev_nth split: option.split)

lemma nack_missing_frame_ok:
  assumes "get_frame_at_id rb k = Some i" "frame_id (receiving_frames rb ! i) \<noteq> k"
  shows "\<exists>ns. sent_nacks (fst (nack_missing_frame now latency stgs rb i k)) = sent_nacks rb @ ns \<and>
    nack_only rb (fst (nack_missing_frame now latency stgs rb i k)) \<and>
    int (length ns) \<le> snd (nack_missing_frame now latency stgs rb i k) \<and> length ns \<le> 1 \<and> (\<forall>r \<in> set ns. r = (k, -1))"
proof -
  let ?f = "receiving_frames rb ! i"
  have cost: "1 \<le> missing_frame_cost stgs" by (simp add: missing_frame_cost_def)
  have put: "nack_only rb (nack_single_packet (put_frame rb (Slot i) g) k j)" if "same_data ?f g" for g j
    using nack_only_put [OF that] by (simp add: nack_single_packet_def rb_view_def)
  show ?thesis
    using cost put by (auto simp: nack_missing_frame_def Let_def same_data_def nack_single_packet_def)
qed

lemma nack_frames_ok:
  assumes "rb_inv ok rb" "0 \<le> max_unordered" "\<forall>k \<in> set ids. 0 < k \<and> currently_rendering_id rb < k"
  shows "\<exists>rb' n' sent. nack_frames now latency max_unordered stgs max_nacks ids n rb = Some (rb', n') \<and>
    nack_only rb rb' \<and> sent_nacks rb' = sent_nacks rb @ sent \<and> int (length sent) \<le> n' - n \<and>
    int (length sent) \<le> max 0 (max_nacks - n) \<and> (\<forall>(k, j) \<in> set sent. k \<in> set ids \<and> wanted rb (k, j))"
  using assms
proof (induction ids arbitrary: n rb)
  case (Cons k ids)
  note inv = Cons.prems(1)
  have k: "0 < k" "currently_rendering_id rb < k" using Cons.prems(3) by simp_all
  obtain i where i: "get_frame_at_id rb k = Some i" using rb_invD(2) [OF inv] k(1) by (simp add: get_frame_at_id_eq)
  have il: "i < ring_buffer_size rb" "i < length (receiving_frames rb)" using get_frame_at_idD [OF i] rb_invD(3) [OF inv] by simp_all
  let ?f = "receiving_frames rb ! i"
  have step: ?case
    if eq: "nack_frames now latency max_unordered stgs max_nacks (k # ids) n rb =
        nack_frames now latency max_unordered stgs max_nacks ids (n + c) u"
      and u: "nack_only rb u" "sent_nacks u = sent_nacks rb @ ns" "int (length ns) \<le> c" "int (length ns) \<le> max_nacks - n"
        "c \<le> max_nacks - n \<or> length ns \<le> 1 \<and> 1 \<le> max_nacks - n" "\<forall>(k', j) \<in> set ns. k' = k \<and> wanted rb (k, j)"
    for c u ns
  proof -
    have "rb_inv ok u" by (rule nack_only_inv [OF u(1) inv])
    moreover have "\<forall>k \<in> set ids. 0 < k \<and> currently_rendering_id u < k"
      using Cons.prems(3) u(1) by (simp add: nack_only_def same_rest_def)
    ultimately obtain rb' n' sent where s: "nack_frames now latency max_unordered stgs max_nacks ids (n + c) u = Some (rb', n')"
      "nack_only u rb'" "sent_nacks rb' = sent_nacks u @ sent" "int (length sent) \<le> n' - (n + c)"
      "int (length sent) \<le> max 0 (max_nacks - (n + c))" "\<forall>(k, j) \<in> set sent. k \<in> set ids \<and> wanted u (k, j)"
      using Cons.IH [of u "n + c"] Cons.prems(2) by blast
    have "\<forall>(k', j) \<in> set (ns @ sent). k' \<in> set (k # ids) \<and> wanted rb (k', j)"
      using s(6) u(6) wanted_nack_only [OF u(1) inv] by fastforce
    moreover have "int (length (ns @ sent)) \<le> n' - n" "int (length (ns @ sent)) \<le> max 0 (max_nacks - n)"
      using s(4,5) u(3,4,5) by auto
    ultimately show ?thesis using eq s(1,3) u(2) nack_only_trans [OF u(1) s(2)]
      by (intro exI [of _ rb'] exI [of _ n'] exI [of _ "ns @ sent"]) simp
  qed
  show ?case
  proof (cases "n < max_nacks")
    case False
    then show ?thesis by simp
  next
    case less: True
    show ?thesis
    proof (cases "frame_id ?f = k")
      case False
      obtain u c where uc: "nack_missing_frame now latency stgs rb i k = (u, c)" by fastforce
      from nack_missing_frame_ok [OF i False, of now latency stgs] obtain ns where
        ns: "sent_nacks u = sent_nacks rb @ ns" "nack_only rb u" "int (length ns) \<le> c" "length ns \<le> 1" "\<forall>r \<in> set ns. r = (k, -1)"
        by (auto simp: uc)
      have "wanted rb (k, -1)" using i False by (simp add: wanted_def Let_def)
      then have "\<forall>(k', j) \<in> set ns. k' = k \<and> wanted rb (k, j)" using ns(5) by auto
      moreover have "nack_frames now latency max_unordered stgs max_nacks (k # ids) n rb =
          nack_frames now latency max_unordered stgs max_nacks ids (n + c) u"
        using less i False uc by (simp add: Let_def)
      ultimately show ?thesis using ns less by (intro step [of c u ns]) auto
    next
      case same: True
      obtain r where r: "is_ready_to_render rb k = Some (rb, r)" using is_ready_total [OF inv _ k(2)] k(1) by auto
      have rf: "r \<longleftrightarrow> frame_buffer ?f \<noteq> None" using is_ready_same(2) [OF inv r] i same by auto
      show ?thesis
      proof (cases r)
        case True
        then have "nack_frames now latency max_unordered stgs max_nacks (k # ids) n rb =
            nack_frames now latency max_unordered stgs max_nacks ids (n + 0) rb"
          using less i same r by (simp add: Let_def)
        then show ?thesis by (rule step [where ns = "[]"]) (use less in auto)
      next
        case False
        have "\<forall>x \<in> set [k + 1..max_id rb - 1]. 0 \<le> x" using k(1) by auto
        from unordered_allowance_ok [OF rb_invD(2) [OF inv] this Cons.prems(2)] obtain m where
          m: "unordered_allowance rb [k + 1..max_id rb - 1] max_unordered = Some m" "0 \<le> m" by blast
        let ?is = "[0..<nat (nack_upto_index rb ?f k - m + 1)]"
        obtain u c where uc: "nack_missing_loop now latency i ?is (max_nacks - n) 0 rb = (u, c)" by fastforce
        from nack_missing_loop_ok [OF il(2), of ?is 0 "max_nacks - n" now latency] less obtain ns where
          ns: "sent_nacks u = sent_nacks rb @ ns" "nack_only rb u" "c = int (length ns)" "int (length ns) \<le> max_nacks - n"
          "\<forall>(k', j) \<in> set ns. k' = k \<and> 0 \<le> j \<and> nat j \<in> set ?is \<and> \<not> received_indices ?f (nat j)"
          using same by (auto simp: uc)
        have "0 < num_original_packets ?f" using rb_invD(4) [OF inv il(1)] k(1) same by (simp add: frame_ok_def)
        from nack_upto_index_less [OF this, of rb k] m(2) have "nat j \<in> set ?is \<Longrightarrow> 0 \<le> j \<Longrightarrow> j < int (num_original_packets ?f)" for j
          by auto
        then have "\<forall>(k', j) \<in> set ns. k' = k \<and> wanted rb (k, j)"
          using ns(5) i same rf False by (fastforce simp: wanted_def Let_def)
        moreover have "nack_frames now latency max_unordered stgs max_nacks (k # ids) n rb =
            nack_frames now latency max_unordered stgs max_nacks ids (n + c) u"
          using less i same r False m(1) uc by (simp add: Let_def nack_missing_packets_up_to_index_def)
        ultimately show ?thesis using ns less by (intro step [of c u ns]) auto
      qed
    qed
  qed
qed simp

text \<open>The state that the calls of \<^verbatim>\<open>udp.cpp\<close> keep as long as the buffer does not overflow.\<close>

definition rb_synced :: "(size_t \<Rightarrow> bool) \<Rightarrow> RingBuffer \<Rightarrow> bool" where
  "rb_synced ok rb \<longleftrightarrow> rb_inv ok rb \<and> ids_ok rb \<and> currently_rendering_id rb \<le> last_rendered_id rb"

lemma nack_only_synced: "nack_only rb rb' \<Longrightarrow> rb_synced ok rb \<Longrightarrow> rb_synced ok rb'"
  using nack_only_inv nack_only_ids by (auto simp: rb_synced_def nack_only_def same_rest_def)

lemma nack_only_view:
  assumes "rb_view rb' = rb_view rb" "max_id rb' = max_id rb" "min_id rb' = min_id rb"
  shows "nack_only rb rb'"
  using assms by (simp add: nack_only_def same_rest_def rb_view_def list.rel_refl)

definition nack_limit :: "real \<Rightarrow> NetworkSettings \<Rightarrow> RingBuffer \<Rightarrow> int" where
  "nack_limit now stgs rb = max 0 (fst (nack_budget stgs (refresh_nack_windows now rb)))"

lemma nack_from:
  assumes "rb_synced ok rb" "min_id rb \<noteq> -1"
  shows "0 < (if last_rendered_id rb = -1 then max (max_id rb - 5) (min_id rb) else last_rendered_id rb + 1)"
    "last_rendered_id rb < (if last_rendered_id rb = -1 then max (max_id rb - 5) (min_id rb) else last_rendered_id rb + 1)"
  using assms rb_invD(8) [of ok rb] by (auto simp: rb_synced_def ids_ok_def)

lemma try_nacking_ok:
  assumes syn: "rb_synced ok rb" and started: "min_id rb \<noteq> -1" and mu: "0 \<le> max_unordered"
  shows "\<exists>rb' r sent. try_nacking now latency max_unordered stgs rb = Some (rb', r) \<and> nack_only rb rb' \<and>
    sent_nacks rb' = sent_nacks rb @ sent \<and> int (length sent) \<le> nack_limit now stgs rb \<and>
    (\<forall>(k, j) \<in> set sent. last_rendered_id rb < k \<and> k \<le> max_id rb \<and> wanted rb (k, j))"
proof -
  define u where "u = refresh_nack_windows now rb"
  have u: "nack_only rb u" "sent_nacks u = sent_nacks rb"
    by (auto simp: u_def refresh_nack_windows_def Let_def rb_view_def intro!: nack_only_view)
  obtain mx av where b: "nack_budget stgs u = (mx, av)" by fastforce
  have lim: "nack_limit now stgs rb = max 0 mx" using b by (simp add: nack_limit_def u_def)
  have inv: "rb_inv ok rb" using syn by (simp add: rb_synced_def)
  show ?thesis
  proof (cases "mx \<le> 0")
    case True
    define v where "v = (if last_nack_possibility u \<and> av \<le> 0
                 then u\<lparr>last_nack_possibility := False, num_times_nacking_saturated := num_times_nacking_saturated u + 1\<rparr> else u)"
    have "nack_only u v" by (rule nack_only_view) (simp_all add: v_def rb_view_def)
    moreover have "try_nacking now latency max_unordered stgs rb = Some (v, \<not> av \<le> 0)"
      using True b started by (simp add: try_nacking_def Let_def u_def [symmetric] v_def)
    moreover have "sent_nacks v = sent_nacks rb" using u(2) by (simp add: v_def)
    ultimately show ?thesis using nack_only_trans [OF u(1)] lim by auto
  next
    case False
    define w where "w = u\<lparr>last_nack_possibility := True\<rparr>"
    have w: "nack_only rb w" "sent_nacks w = sent_nacks rb"
      using nack_only_trans [OF u(1) nack_only_view [of w u]] u(2) by (simp_all add: w_def rb_view_def)
    have same: "last_rendered_id w = last_rendered_id rb" "max_id w = max_id rb" "min_id w = min_id rb"
      "currently_rendering_id w = currently_rendering_id rb" using w(1) by (simp_all add: nack_only_def same_rest_def)
    have same_u: "last_rendered_id u = last_rendered_id rb" "max_id u = max_id rb" "min_id u = min_id rb"
      using u(1) by (simp_all add: nack_only_def same_rest_def)
    let ?from = "if last_rendered_id rb = -1 then max (max_id rb - 5) (min_id rb) else last_rendered_id rb + 1"
    have ids: "\<forall>k \<in> set [?from..max_id rb]. 0 < k \<and> currently_rendering_id w < k"
      using nack_from [OF syn started] syn same(4) by (auto simp: rb_synced_def simp del: max_less_iff_conj split del: if_split)
    from nack_frames_ok [OF nack_only_inv [OF w(1) inv] mu this] obtain rb' n sent where
      s: "nack_frames now latency max_unordered stgs mx [?from..max_id rb] 0 w = Some (rb', n)" "nack_only w rb'"
      "sent_nacks rb' = sent_nacks w @ sent" "int (length sent) \<le> max 0 (mx - 0)"
      "\<forall>(k, j) \<in> set sent. k \<in> set [?from..max_id rb] \<and> wanted w (k, j)" by blast
    let ?r = "rb'\<lparr>burst_counter := burst_counter rb' + n, avg_counter := avg_counter rb' + n\<rparr>"
    have run: "try_nacking now latency max_unordered stgs rb = Some (?r, True)"
      using False b started s(1)
      by (simp add: try_nacking_def Let_def same_u u_def [symmetric] w_def [symmetric] cong: if_cong split del: if_split)
    have "nack_only rb' ?r" by (rule nack_only_view) (simp_all add: rb_view_def)
    then have rel: "nack_only rb ?r" using nack_only_trans w(1) s(2) by blast
    have "\<forall>(k, j) \<in> set sent. last_rendered_id rb < k \<and> k \<le> max_id rb \<and> wanted rb (k, j)"
      using s(5) wanted_nack_only [OF w(1) inv] nack_from(2) [OF syn started] by fastforce
    with run rel s(3,4) w(2) lim show ?thesis by auto
  qed
qed

lemma currently_pending_ok:
  assumes "rb_synced ok rb" "min_id rb \<noteq> -1"
  shows "0 < currently_pending_id rb" "currently_rendering_id rb < currently_pending_id rb"
  using assms rb_invD(8) [of ok rb] by (auto simp: rb_synced_def ids_ok_def currently_pending_id_def)

lemma find_failed_ok:
  assumes syn: "rb_synced ok rb" and started: "min_id rb \<noteq> -1" and ids: "\<forall>k \<in> set ids. 0 \<le> k"
  shows "\<exists>failed. find_failed now latency stgs ids g rb = Some (rb, failed) \<and>
    (failed = g \<or> failed \<in> set ids)"
  using ids
proof (induction ids arbitrary: g)
  case (Cons k ids)
  have inv: "rb_inv ok rb" using syn by (simp add: rb_synced_def)
  obtain i where i: "get_frame_at_id rb k = Some i" using rb_invD(2) [OF inv] Cons.prems by (simp add: get_frame_at_id_eq)
  obtain r where r: "is_ready_to_render rb (currently_pending_id rb) = Some (rb, r)"
    using is_ready_total [OF inv] currently_pending_ok [OF syn started] by fastforce
  have IH: "\<exists>failed. find_failed now latency stgs ids g' rb = Some (rb, failed) \<and> (failed = g' \<or> failed \<in> set ids)" for g'
    using Cons by simp
  show ?case
  proof (cases "frame_id (receiving_frames rb ! i) = k")
    case True
    let ?failed = "(now - frame_creation_timer (receiving_frames rb ! i)) * 1000 >
      acceptable_staleness_ms latency stgs (receiving_frames rb ! i) r"
    show ?thesis using IH [of "if ?failed then max g k else g"] i r True by (auto simp: Let_def max_def split: if_splits)
  next
    case False
    then show ?thesis using IH [of g] i by auto
  qed
qed simp

lemma try_recovering_ok:
  assumes syn: "rb_synced ok rb" and mu: "0 \<le> max_unordered"
  shows "\<exists>rb'. try_recovering_missing_packets_or_frames now latency max_unordered stgs rb = Some rb' \<and> nack_only rb rb'"
proof -
  define u where "u = reset_nack_statistics now rb"
  have u: "nack_only rb u" unfolding u_def reset_nack_statistics_def by (rule nack_only_view) (simp_all add: rb_view_def)
  show ?thesis
  proof (cases "min_id u = -1")
    case True
    then show ?thesis using u by (simp add: try_recovering_missing_packets_or_frames_def Let_def u_def [symmetric])
  next
    case False
    from try_nacking_ok [OF nack_only_synced [OF u syn] False mu] obtain v r where
      v: "try_nacking now latency max_unordered stgs u = Some (v, r)" "nack_only u v" by blast
    have vsyn: "rb_synced ok v" "min_id v \<noteq> -1"
      using nack_only_synced [OF nack_only_trans [OF u v(2)] syn] v(2) False by (simp_all add: nack_only_def same_rest_def)
    have "\<forall>k \<in> set [max (currently_pending_id v) (max_id v - 60)..max_id v]. 0 \<le> k"
      using currently_pending_ok(1) [OF vsyn] by auto
    from find_failed_ok [OF vsyn this] obtain failed where
      f: "find_failed now latency stgs [max (currently_pending_id v) (max_id v - 60)..max_id v] (-1) v = Some (v, failed)" by blast
    define w where "w = (if failed \<noteq> -1 \<and> now - last_stream_reset_request_timer v > latency / 2
             then v\<lparr>sent_resets := sent_resets v @ [failed],
                     last_stream_reset_request_id := max failed (last_stream_reset_request_id v),
                     last_stream_reset_request_timer := now\<rparr> else v)"
    have "try_recovering_missing_packets_or_frames now latency max_unordered stgs rb = Some w"
      using v(1) f False unfolding w_def
      by (simp add: try_recovering_missing_packets_or_frames_def Let_def u_def [symmetric] split del: if_split)
    moreover have "nack_only v w" by (rule nack_only_view) (simp_all add: w_def rb_view_def)
    ultimately show ?thesis using nack_only_trans [OF nack_only_trans [OF u v(2)]] by blast
  qed
qed

section \<open>The count of pending frames\<close>

definition ready_id :: "RingBuffer \<Rightarrow> int \<Rightarrow> bool" where
  "ready_id rb k \<longleftrightarrow> (\<exists>i. get_frame_at_id rb k = Some i \<and> frame_id (receiving_frames rb ! i) = k \<and>
     frame_buffer (receiving_frames rb ! i) \<noteq> None)"

lemma is_ready_id:
  assumes "rb_inv ok rb" "0 \<le> k" "currently_rendering_id rb < k"
  shows "is_ready_to_render rb k = Some (rb, ready_id rb k)"
  using is_ready_total [OF assms] is_ready_same(2) [OF assms(1)] by (fastforce simp: ready_id_def)

lemma count_ready_eq:
  assumes "rb_inv ok rb" "\<forall>k \<in> set ids. 0 \<le> k \<and> currently_rendering_id rb < k"
  shows "count_ready ids rb = Some (rb, length (filter (ready_id rb) ids))"
  using assms(2) by (induction ids) (auto simp: is_ready_id [OF assms(1)])

text \<open>The ready frames have different ids, which all lie in the range that the self-check goes through.\<close>

lemma ready_ids_count:
  assumes syn: "rb_synced ok rb"
  shows "length (filter (ready_id rb) [max (min_id rb) (last_rendered_id rb + 1)..max_id rb]) = ready_count (receiving_frames rb)"
proof -
  let ?F = "receiving_frames rb" and ?n = "ring_buffer_size rb"
  let ?K = "{k. k \<in> {max (min_id rb) (last_rendered_id rb + 1)..max_id rb} \<and> ready_id rb k}"
  let ?I = "{i. i < length ?F \<and> frame_buffer (?F ! i) \<noteq> None}"
  have inv: "rb_inv ok rb" and ids: "ids_ok rb" and cur: "currently_rendering_id rb \<le> last_rendered_id rb"
    using syn by (simp_all add: rb_synced_def)
  note I = rb_invD [OF inv]
  have slot: "0 \<le> frame_id (?F ! i) \<and> nat (frame_id (?F ! i)) mod ?n = i \<and> last_rendered_id rb < frame_id (?F ! i) \<and>
      min_id rb \<le> frame_id (?F ! i) \<and> frame_id (?F ! i) \<le> max_id rb" if "i \<in> ?I" for i
  proof -
    have i: "i < ?n" "packet_buffer (?F ! i) \<noteq> None" using that I(3) I(4) [of i] by (auto simp: frame_ok_def)
    then show ?thesis using I(4) [OF i(1)] that ids_okD(2) [OF ids, of i] I(3) by (auto simp: frame_ok_def)
  qed
  have "bij_betw (\<lambda>i. frame_id (?F ! i)) ?I ?K"
  proof (rule bij_betw_imageI)
    show "inj_on (\<lambda>i. frame_id (?F ! i)) ?I" by (rule inj_onI) (metis slot)
    have "frame_id (?F ! i) \<in> ?K" if "i \<in> ?I" for i
      using slot [OF that] that I(2) by (auto simp: ready_id_def get_frame_at_id_eq)
    moreover have "k \<in> (\<lambda>i. frame_id (?F ! i)) ` ?I" if "k \<in> ?K" for k
      using that get_frame_at_idD I(3) by (fastforce simp: ready_id_def)
    ultimately show "(\<lambda>i. frame_id (?F ! i)) ` ?I = ?K" by blast
  qed
  then have "card ?I = card ?K" by (rule bij_betw_same_card)
  moreover have "card ?I = ready_count ?F" by (simp add: ready_count_def length_filter_conv_card)
  moreover have "distinct (filter (ready_id rb) [max (min_id rb) (last_rendered_id rb + 1)..max_id rb])" by simp
  then have "length (filter (ready_id rb) [max (min_id rb) (last_rendered_id rb + 1)..max_id rb]) = card ?K"
    by (subst distinct_card [symmetric]) (auto intro!: arg_cong [of _ _ card])
  ultimately show ?thesis by simp
qed

lemma get_num_pending_ok:
  assumes syn: "rb_synced ok rb"
  shows "get_num_pending_ready_frames check rb = Some (rb, int (ready_count (receiving_frames rb)))"
proof -
  have inv: "rb_inv ok rb" and ids: "ids_ok rb" and cur: "currently_rendering_id rb \<le> last_rendered_id rb"
    using syn by (simp_all add: rb_synced_def)
  note I = rb_invD [OF inv]
  have num: "0 \<le> num_pending_ready_frames rb" "num_pending_ready_frames rb \<le> int (ring_buffer_size rb)"
    "num_pending_ready_frames rb = int (ready_count (receiving_frames rb))"
    using I(3,5) ready_count_le [of "receiving_frames rb"] by simp_all
  show ?thesis
  proof (cases "min_id rb = -1 \<or> max_id rb = -1")
    case True
    then have "packet_buffer (receiving_frames rb ! i) = None" if "i < length (receiving_frames rb)" for i
      using ids ids_okD(2) [OF ids that] by (auto simp: ids_ok_def)
    then have "frame_buffer (receiving_frames rb ! i) = None" if "i < length (receiving_frames rb)" for i
      using I(3,4) that by (auto simp: frame_ok_def)
    then have "ready_count (receiving_frames rb) = 0" by (auto simp: ready_count_def filter_empty_conv in_set_conv_nth)
    then show ?thesis using True num by (simp add: get_num_pending_ready_frames_def)
  next
    case False
    let ?ids = "[max (min_id rb) (last_rendered_id rb + 1)..max_id rb]"
    have "\<forall>k \<in> set ?ids. 0 \<le> k \<and> currently_rendering_id rb < k" using ids False cur by (auto simp: ids_ok_def)
    from count_ready_eq [OF inv this] have "count_ready ?ids rb = Some (rb, ready_count (receiving_frames rb))"
      by (simp add: ready_ids_count [OF syn])
    then show ?thesis using False num by (simp add: get_num_pending_ready_frames_def Let_def)
  qed
qed

section \<open>The life of a ring buffer\<close>

text \<open>The calls that \<^verbatim>\<open>udp.cpp\<close> makes, in any order: segments that fit, rendering the frame after the last
  rendered one, skipping ahead, asking for missing packets, counting, and starting a stream of GPU
  packets at its first frame. Each rule is a call that returned.\<close>

inductive rb_reach :: "rs_lib \<Rightarrow> rs_settings \<Rightarrow> region_os \<Rightarrow> RingBuffer \<Rightarrow> bool"
  for lib :: rs_lib and stg :: rs_settings and s :: region_os where
  init: "init_ring_buffer s uninit t max_size n now = Some rb \<Longrightarrow> 0 < n \<Longrightarrow>
    fits_in_region s (of_nat (PACKET_HEADER_SIZE + max_size)) \<Longrightarrow> PACKET_HEADER_SIZE + max_size < 2 ^ 64 \<Longrightarrow>
    rb_reach lib stg s rb"
| receive: "rb_reach lib stg s rb \<Longrightarrow> seg_fits rb seg \<Longrightarrow>
    ring_buffer_receive_segment lib stg now rb seg = Some (rb', r) \<Longrightarrow> rb_reach lib stg s rb'"
| render: "rb_reach lib stg s rb \<Longrightarrow> set_rendering rb (last_rendered_id rb + 1) = Some rb' \<Longrightarrow> rb_reach lib stg s rb'"
| skip: "rb_reach lib stg s rb \<Longrightarrow> reset_stream rb k = Some rb' \<Longrightarrow> rb_reach lib stg s rb'"
| gpu_start: "rb_reach lib stg s rb \<Longrightarrow> last_rendered_id rb = -1 \<Longrightarrow> rb_reach lib stg s (rb\<lparr>last_rendered_id := 0\<rparr>)"
| recover: "rb_reach lib stg s rb \<Longrightarrow> rb_synced (mmap_ok s) rb \<Longrightarrow> 0 \<le> max_unordered \<Longrightarrow>
    try_recovering_missing_packets_or_frames now latency max_unordered stgs rb = Some rb' \<Longrightarrow> rb_reach lib stg s rb'"
| count: "rb_reach lib stg s rb \<Longrightarrow> rb_synced (mmap_ok s) rb \<Longrightarrow>
    get_num_pending_ready_frames check rb = Some (rb', n) \<Longrightarrow> rb_reach lib stg s rb'"

lemma ids_ok_shrink:
  assumes ok: "ids_ok rb" and len: "length (receiving_frames rb') = length (receiving_frames rb)"
    and frames: "\<And>i. i < length (receiving_frames rb) \<Longrightarrow>
      receiving_frames rb' ! i \<in> {receiving_frames rb ! i, cleared (receiving_frames rb ! i)}"
    and same: "min_id rb' = min_id rb" "max_id rb' = max_id rb"
  shows "ids_ok rb'"
proof -
  have "\<exists>r'. (k, r') \<in> set (slot_ids rb) \<and> (r \<longrightarrow> r')" if "(k, r) \<in> set (slot_ids rb')" for k r
  proof -
    obtain i where i: "i < length (receiving_frames rb')" "k = frame_id (receiving_frames rb' ! i)"
      "r \<longleftrightarrow> packet_buffer (receiving_frames rb' ! i) \<noteq> None"
      using \<open>(k, r) \<in> set (slot_ids rb')\<close> by (auto simp: slot_ids_def in_set_conv_nth)
    have "k = frame_id (receiving_frames rb ! i)" "r \<longrightarrow> packet_buffer (receiving_frames rb ! i) \<noteq> None"
      using i frames [of i] len by (auto simp: cleared_def)
    moreover have "(frame_id (receiving_frames rb ! i), packet_buffer (receiving_frames rb ! i) \<noteq> None) \<in> set (slot_ids rb)"
      using i(1) len by (auto simp: slot_ids_def)
    ultimately show ?thesis by blast
  qed
  then show ?thesis using ok unfolding ids_ok_def same by fast
qed

lemma reset_stream_inv:
  assumes "rb_inv ok rb" "ids_ok rb" "reset_stream rb k = Some rb'"
  shows "rb_inv ok rb'" "ids_ok rb'" "last_rendered_id rb' = max (k - 1) (last_rendered_id rb)"
    "currently_rendering_id rb' = currently_rendering_id rb"
proof -
  have k: "1 \<le> k" using assms(3) by (auto simp: reset_stream_def split: if_splits)
  from reset_stream_ok [OF assms(1) k] assms(3) have r: "rb_inv ok rb'" "min_id rb' = min_id rb" "max_id rb' = max_id rb"
    "last_rendered_id rb' = max (k - 1) (last_rendered_id rb)" "currently_rendering_id rb' = currently_rendering_id rb"
    "ring_buffer_size rb' = ring_buffer_size rb"
    "\<And>i. i < ring_buffer_size rb \<Longrightarrow> receiving_frames rb' ! i \<in> {receiving_frames rb ! i, cleared (receiving_frames rb ! i)}"
    by (auto simp: Let_def)
  from r show "rb_inv ok rb'" "last_rendered_id rb' = max (k - 1) (last_rendered_id rb)"
    "currently_rendering_id rb' = currently_rendering_id rb" by simp_all
  show "ids_ok rb'"
    by (rule ids_ok_shrink [OF assms(2)]) (use r rb_invD(3) [OF assms(1)] rb_invD(3) [OF r(1)] in auto)
qed

lemma set_rendering_inv:
  assumes "rb_inv ok rb" "ids_ok rb" "set_rendering rb (last_rendered_id rb + 1) = Some rb'"
  shows "rb_inv ok rb'" "ids_ok rb'" "currently_rendering_id rb' = last_rendered_id rb'"
proof -
  let ?k = "last_rendered_id rb + 1"
  from set_rendering_SomeD [OF assms(1,3)] obtain i where i: "currently_rendering_id rb < ?k"
    "get_frame_at_id rb ?k = Some i" "frame_id (receiving_frames rb ! i) = ?k"
    "frame_buffer (receiving_frames rb ! i) \<noteq> None" by blast
  from set_rendering_ok [OF assms(1) refl i(1,2) refl i(3,4)] assms(3) have
    r: "rb_inv ok rb'" "receiving_frames rb' = (receiving_frames rb)[i := cleared (receiving_frames rb ! i)]"
    "currently_rendering_id rb' = ?k" "last_rendered_id rb' = ?k" "min_id rb' = min_id rb" "max_id rb' = max_id rb" by auto
  then show "rb_inv ok rb'" "currently_rendering_id rb' = last_rendered_id rb'" by simp_all
  have "receiving_frames rb' ! j \<in> {receiving_frames rb ! j, cleared (receiving_frames rb ! j)}"
    if "j < length (receiving_frames rb)" for j using r(2) that by (cases "j = i") auto
  then show "ids_ok rb'" using r by (intro ids_ok_shrink [OF assms(2)]) auto
qed

lemma gpu_start_inv:
  assumes "rb_inv ok rb" "ids_ok rb"
  shows "rb_inv ok (rb\<lparr>last_rendered_id := 0\<rparr>)" "ids_ok (rb\<lparr>last_rendered_id := 0\<rparr>)"
proof -
  show "rb_inv ok (rb\<lparr>last_rendered_id := 0\<rparr>)"
    by (rule rb_inv_last_rendered [OF assms(1)])
      (use ids_okD(2) [OF assms(2)] rb_invD(3) [OF assms(1)] in force)+
  show "ids_ok (rb\<lparr>last_rendered_id := 0\<rparr>)" by (rule ids_ok_cong [OF assms(2)]) (simp_all add: slot_ids_def)
qed

lemma rb_reach_inv:
  assumes "os_ok s" "rb_reach lib stg s rb"
  shows "rb_inv (mmap_ok s) rb \<and> ids_ok rb"
  using assms(2)
proof (induction rule: rb_reach.induct)
  case (init uninit t max_size n now rb)
  have "n \<le> MAX_RING_BUFFER_SIZE" using init(1) by (auto simp: init_ring_buffer_def split: if_splits)
  from init_ring_buffer_ok [OF assms(1) init(3,4,2) this, of uninit t now] init(1) show ?case using ids_ok_empty by auto
next
  case (receive rb seg now rb' r)
  then show ?case using receive_segment_ok(1,2) by blast
next
  case (render rb rb')
  then show ?case using set_rendering_inv by blast
next
  case (skip rb k rb')
  then show ?case using reset_stream_inv by blast
next
  case (gpu_start rb)
  then show ?case using gpu_start_inv by blast
next
  case (recover rb max_unordered now latency stgs rb')
  from try_recovering_ok [OF recover(2,3), where now = now and latency = latency and stgs = stgs] recover(4) have "nack_only rb rb'" by auto
  then show ?case using recover.IH nack_only_inv nack_only_ids by blast
next
  case (count rb check rb' n)
  then show ?case using get_num_pending_ok by auto
qed

end
