(* ===== verification/Ring_Buffer_Props.thy ===== *)
theory Ring_Buffer_Props
  imports Ring_Buffer_Receive
begin

text \<open>
  The properties of the ring buffer: reassembly of a frame from its segments, and what holds in every
  state that the calls of \<^verbatim>\<open>udp.cpp\<close> reach.
\<close>

section \<open>Reassembly\<close>

text \<open>Segment \<open>j\<close> of a frame of \<open>n\<close> segments without FEC, with the payload \<open>part j\<close>.\<close>

definition plain_segment :: "int \<Rightarrow> nat \<Rightarrow> (nat \<Rightarrow> byte list) \<Rightarrow> nat \<Rightarrow> WhistSegment" where
  "plain_segment k n part j = \<lparr>whist_type = PACKET_VIDEO, seg_id = k, seg_index = j, num_indices = n, num_fec_indices = 0,
     segment_bytes = length (part j), prev_frame_num_duplicates = 0, is_a_nack = False, is_a_duplicate = False,
     segment_data = part j\<rparr>"

fun receive_all :: "rs_lib \<Rightarrow> rs_settings \<Rightarrow> real \<Rightarrow> RingBuffer \<Rightarrow> WhistSegment list \<Rightarrow> RingBuffer option" where
  "receive_all lib stg now rb [] = Some rb"
| "receive_all lib stg now rb (seg # segs) = do {
     (rb, r) \<leftarrow> ring_buffer_receive_segment lib stg now rb seg;
     fatal_assert r;
     receive_all lib stg now rb segs }"

text \<open>Frame \<open>k\<close> has got the segments \<open>seen\<close>: they are marked, and their payloads are in the packet buffer.\<close>

definition holding :: "RingBuffer \<Rightarrow> int \<Rightarrow> nat \<Rightarrow> (nat \<Rightarrow> byte list) \<Rightarrow> nat set \<Rightarrow> bool" where
  "holding rb k n part seen \<longleftrightarrow> (\<exists>i f pb. get_frame_at_id rb k = Some i \<and> f = receiving_frames rb ! i \<and> frame_id f = k \<and>
     num_original_packets f = n \<and> num_fec_packets f = 0 \<and> packet_buffer f = Some pb \<and>
     (\<forall>j. received_indices f j \<longleftrightarrow> j \<in> seen) \<and> frame_buffer_size f = (\<Sum>j\<in>seen. length (part j)) \<and>
     (\<forall>j\<in>seen. mem_read (j * MAX_PACKET_SEGMENT_SIZE) (length (part j))
        (block_bytes (packet_buffer_allocator rb) pb) = part j))"

definition parts_fit :: "RingBuffer \<Rightarrow> nat \<Rightarrow> (nat \<Rightarrow> byte list) \<Rightarrow> bool" where
  "parts_fit rb n part \<longleftrightarrow> 0 < n \<and> n \<le> MAX_PACKETS \<and> n * MAX_PACKET_SEGMENT_SIZE \<le> largest_frame_size rb \<and>
     (\<forall>j < n. length (part j) < MAX_PACKET_SEGMENT_SIZE)"

lemma holding_same_data:
  assumes "holding rb k n part seen" "rb_inv ok rb"
    and "get_frame_at_id rb k = Some i \<Longrightarrow> i < length (receiving_frames rb) \<Longrightarrow>
      same_data (receiving_frames rb ! i) (receiving_frames rb' ! i)"
    and "ring_buffer_size rb' = ring_buffer_size rb" "packet_buffer_allocator rb' = packet_buffer_allocator rb"
    and "i = nat k mod ring_buffer_size rb"
  shows "holding rb' k n part seen"
proof -
  have "get_frame_at_id rb' = get_frame_at_id rb" using assms(4) by (simp add: get_frame_at_id_def fun_eq_iff)
  moreover from assms(1) have i: "get_frame_at_id rb k = Some i"
    by (auto simp: holding_def assms(6) dest: get_frame_at_idD)
  moreover have "i < length (receiving_frames rb)" using get_frame_at_idD [OF i] rb_invD(3) [OF assms(2)] by simp
  ultimately show ?thesis using assms(1,3,5) by (auto simp: holding_def same_data_def)
qed

lemma holdingE:
  assumes "holding rb k n part seen" "i = nat k mod ring_buffer_size rb"
  obtains pb where "get_frame_at_id rb k = Some i" "frame_id (receiving_frames rb ! i) = k"
    "num_original_packets (receiving_frames rb ! i) = n" "num_fec_packets (receiving_frames rb ! i) = 0"
    "packet_buffer (receiving_frames rb ! i) = Some pb" "\<forall>l. received_indices (receiving_frames rb ! i) l \<longleftrightarrow> l \<in> seen"
    "frame_buffer_size (receiving_frames rb ! i) = (\<Sum>l\<in>seen. length (part l))"
    "\<forall>l\<in>seen. mem_read (l * MAX_PACKET_SEGMENT_SIZE) (length (part l)) (block_bytes (packet_buffer_allocator rb) pb) = part l"
proof -
  from assms(1) obtain i' pb where h: "get_frame_at_id rb k = Some i'" "frame_id (receiving_frames rb ! i') = k"
    "num_original_packets (receiving_frames rb ! i') = n" "num_fec_packets (receiving_frames rb ! i') = 0"
    "packet_buffer (receiving_frames rb ! i') = Some pb" "\<forall>l. received_indices (receiving_frames rb ! i') l \<longleftrightarrow> l \<in> seen"
    "frame_buffer_size (receiving_frames rb ! i') = (\<Sum>l\<in>seen. length (part l))"
    "\<forall>l\<in>seen. mem_read (l * MAX_PACKET_SEGMENT_SIZE) (length (part l)) (block_bytes (packet_buffer_allocator rb) pb) = part l"
    unfolding holding_def by blast
  have "i' = i" using get_frame_at_idD [OF h(1)] assms(2) by blast
  then show ?thesis using that h by blast
qed

lemma slot_read_write:
  assumes "j * m + length b \<le> length buf" "l * m + length a \<le> length buf" "length a \<le> m" "length b \<le> m" "l \<noteq> j"
  shows "mem_read (l * m) (length a) (mem_write (j * m) b buf) = mem_read (l * m) (length a) buf"
proof (rule mem_read_write_other [OF assms(1,2)])
  show "l * m + length a \<le> j * m \<or> j * m + length b \<le> l * m"
  proof (cases "l < j")
    case True
    then have "Suc l * m \<le> j * m" by (intro mult_le_mono1) simp
    then show ?thesis using assms(3) by simp
  next
    case False
    then have "Suc j * m \<le> l * m" using assms(5) by (intro mult_le_mono1) simp
    then show ?thesis using assms(4) by simp
  qed
qed

lemma part_in_room:
  assumes "parts_fit rb n part" "j < n"
  shows "j * MAX_PACKET_SEGMENT_SIZE + length (part j) < largest_frame_size rb" "length (part j) \<le> MAX_PACKET_SEGMENT_SIZE"
proof -
  have len: "length (part j) < MAX_PACKET_SEGMENT_SIZE" using assms by (simp add: parts_fit_def)
  have "Suc j * MAX_PACKET_SEGMENT_SIZE \<le> n * MAX_PACKET_SEGMENT_SIZE" using assms(2) by (intro mult_le_mono1) simp
  then show "j * MAX_PACKET_SEGMENT_SIZE + length (part j) < largest_frame_size rb" "length (part j) \<le> MAX_PACKET_SEGMENT_SIZE"
    using len assms(1) by (simp_all add: parts_fit_def)
qed

lemma store_segment_holding:
  assumes inv: "rb_inv ok rb" and k: "currently_rendering_id rb < k" and h: "holding rb k n part seen"
    and i: "i = nat k mod ring_buffer_size rb"
    and fit: "parts_fit rb n part" and j: "j < n" "j \<notin> seen" and seen: "seen \<subseteq> {..<n}"
  shows "\<exists>rb'. store_segment lib rb i (plain_segment k n part j) = Some rb' \<and> holding rb' k n part (insert j seen)"
proof -
  let ?seg = "plain_segment k n part j" and ?b = "packet_buffer_allocator rb" and ?m = MAX_PACKET_SEGMENT_SIZE
  from h i obtain pb where gi: "get_frame_at_id rb k = Some i" and f: "frame_id (receiving_frames rb ! i) = k"
    "num_original_packets (receiving_frames rb ! i) = n" "num_fec_packets (receiving_frames rb ! i) = 0"
    "packet_buffer (receiving_frames rb ! i) = Some pb" "\<forall>l. received_indices (receiving_frames rb ! i) l \<longleftrightarrow> l \<in> seen"
    "frame_buffer_size (receiving_frames rb ! i) = (\<Sum>l\<in>seen. length (part l))"
    and bytes: "\<forall>l\<in>seen. mem_read (l * ?m) (length (part l)) (block_bytes ?b pb) = part l"
    by (rule holdingE)
  define f where "f = receiving_frames rb ! i"
  note f = f [folded f_def]
  note I = rb_invD [OF inv]
  have il: "i < ring_buffer_size rb" "i < length (receiving_frames rb)" using get_frame_at_idD [OF gi] I(3) by simp_all
  have fok: "frame_ok (ring_buffer_size rb) (currently_rendering_id rb) (last_rendered_id rb) i f"
    using I(4) [OF il(1)] by (simp add: f_def)
  have pool: "pool_inv ok ?b (set (all_blocks rb))" "unat (block_size ?b) = largest_frame_size rb"
    using I(1) by (simp_all add: owns_def)
  have pb: "pb \<in> set (all_blocks rb)" using owned_blocks [OF il(2)] f(4) by (auto simp: f_def blocks_def)
  note room = part_in_room [OF fit j(1)]
  have fresh: "\<not> received_indices f j" using f(5) j(2) by simp
  have le: "Suc (original_packets_received f) \<le> num_original_packets f"
    using received_originals_lt [OF _ fresh] j(1) f(2) fok by (simp add: frame_ok_def Suc_le_eq)
  have mk: "mark_received f j = Some (mark f j)" using le j(1) f(2) by (simp add: mark_received_def mark_def Let_def)
  obtain r0 where r0: "is_ready_to_render rb k = Some (rb, r0)"
    using is_ready_total [OF inv _ k] get_frame_at_idD [OF gi] by auto
  obtain b where b: "write_block_at ?b pb (j * ?m) (part j) = Some b"
    using write_block_at_total [OF pool(1) pb] room pool(2) by fastforce
  note w = write_block_at_ok [OF pool(1) pb b]
  define g where "g = (mark f j)\<lparr>frame_buffer_size := frame_buffer_size f + length (part j)\<rparr>"
  define u where "u = put_frame (rb\<lparr>packet_buffer_allocator := b\<rparr>) (Slot i) g"
  have u: "receiving_frames u ! i = g" "get_frame_at_id u k = Some i" "currently_rendering_id u = currently_rendering_id rb"
    "length (receiving_frames u) = length (receiving_frames rb)"
    using il(2) gi by (simp_all add: u_def get_frame_at_id_def)
  have fec: "try_fec lib u i ?seg = Some u" using u(1) f(3) by (simp add: try_fec_def Let_def g_def)
  define v where "v = put_frame u (Slot i) (g\<lparr>frame_buffer := get_framebuffer g\<rparr>)"
  have rdy: "is_ready_to_render u k = Some (v, get_framebuffer g \<noteq> None)"
    using u k f(1) by (simp add: is_ready_to_render_def Let_def v_def g_def)
  define rb' where "rb' = (if get_framebuffer g \<noteq> None \<and> \<not> r0
           then v\<lparr>frames_received := frames_received v + 1,
                   num_pending_ready_frames := num_pending_ready_frames v + 1\<rparr> else v)"
  have "store_payload lib (put_frame rb (Slot i) (mark f j)) i ?seg r0 = Some rb'"
    using il(2) f(3,4) b fec rdy
    by (simp add: store_payload_def plain_segment_def Let_def g_def [symmetric] u_def [symmetric] rb'_def)
      (simp add: g_def u_def)
  then have run: "store_segment lib rb i ?seg = Some rb'"
    using r0 mk k room by (simp add: store_segment_def plain_segment_def f_def [symmetric] Let_def)
  have rb': "receiving_frames rb' ! i = g\<lparr>frame_buffer := get_framebuffer g\<rparr>" "packet_buffer_allocator rb' = b"
    "get_frame_at_id rb' k = Some i"
    using il(2) gi u(2) by (auto simp: rb'_def v_def u_def get_frame_at_id_def split: if_splits)
  have size_ok: "l * ?m + length (part l) \<le> length (block_bytes ?b pb)" if "l < n" for l
    using part_in_room(1) [OF fit that] pool_invD(9) [OF pool(1), of pb] pb pool(2) by (simp add: block_bytes_def)
  have "mem_read (l * ?m) (length (part l)) (block_bytes b pb) = part l" if "l \<in> insert j seen" for l
  proof (cases "l = j")
    case True
    then show ?thesis using w(3) size_ok [OF j(1)] by simp
  next
    case False
    then have "l \<in> seen" "l < n" using that seen by auto
    then show ?thesis using slot_read_write [OF size_ok [OF j(1)] size_ok, of l] part_in_room(2) [OF fit] j(1) False bytes w(3) by simp
  qed
  moreover have "(\<Sum>l\<in>insert j seen. length (part l)) = frame_buffer_size f + length (part j)"
    using j(2) f(6) finite_subset [OF seen] by simp
  ultimately have "holding rb' k n part (insert j seen)"
    unfolding holding_def using rb' f(1-5)
    by (intro exI [of _ i] exI [of _ "receiving_frames rb' ! i"] exI [of _ pb]) (simp add: g_def)
  with run show ?thesis by blast
qed

lemma accept_segment_holding:
  assumes inv: "rb_inv ok rb" and k: "currently_rendering_id rb < k" and h: "holding rb k n part seen"
    and i: "i = nat k mod ring_buffer_size rb"
    and fit: "parts_fit rb n part" and j: "j < n" and seen: "seen \<subseteq> {..<n}"
  shows "\<exists>rb'. accept_segment lib now rb i (plain_segment k n part j) = Some rb' \<and> holding rb' k n part (insert j seen)"
proof -
  let ?seg = "plain_segment k n part j" and ?c = "count_segment now rb i (plain_segment k n part j)"
  from h i obtain pb where gi: "get_frame_at_id rb k = Some i" and f: "frame_id (receiving_frames rb ! i) = k"
    "num_original_packets (receiving_frames rb ! i) = n" "num_fec_packets (receiving_frames rb ! i) = 0"
    "\<forall>l. received_indices (receiving_frames rb ! i) l \<longleftrightarrow> l \<in> seen" by (rule holdingE)
  have il: "i < ring_buffer_size rb" "i < length (receiving_frames rb)"
    using get_frame_at_idD [OF gi] rb_invD(3) [OF inv] by simp_all
  obtain g where c: "receiving_frames ?c = (receiving_frames rb)[i := g]" "same_data (receiving_frames rb ! i) g"
      "same_rest rb ?c" "currently_rendering_frame ?c = currently_rendering_frame rb"
      "num_pending_ready_frames ?c = num_pending_ready_frames rb"
      "packet_buffer_allocator ?c = packet_buffer_allocator rb" using count_segment_ok by blast
  have invc: "rb_inv ok ?c" by (rule rb_inv_same_data [OF inv il(1) c(2,1,3-6)])
  have nth: "receiving_frames ?c ! i = g" using c(1) il(2) by simp
  have hc: "holding ?c k n part seen"
    by (rule holding_same_data [OF h inv _ _ c(6) i]) (use c(2,3) nth in \<open>simp_all add: same_rest_def\<close>)
  have acc: "accept_segment lib now rb i ?seg =
      (if j \<in> seen then Some (put_frame ?c (Slot i) (g\<lparr>duplicate_packets_received := duplicate_packets_received g + 1\<rparr>))
       else store_segment lib ?c i ?seg)"
    using f c(2) by (simp add: accept_segment_def Let_def nth same_data_def) (simp add: plain_segment_def)
  have ic: "i = nat k mod ring_buffer_size ?c" "currently_rendering_id ?c < k" "parts_fit ?c n part"
    using i k fit c(3) by (simp_all add: same_rest_def parts_fit_def)
  show ?thesis
  proof (cases "j \<in> seen")
    case True
    have "holding (put_frame ?c (Slot i) (g\<lparr>duplicate_packets_received := duplicate_packets_received g + 1\<rparr>)) k n part seen"
      by (rule holding_same_data [OF hc invc _ _ _ ic(1)]) (simp_all add: nth same_data_def)
    then show ?thesis using acc True by (simp add: insert_absorb del: put_frame.simps)
  next
    case False
    from store_segment_holding [OF invc ic(2) hc ic(1,3) j False seen] acc False show ?thesis by simp
  qed
qed

lemma plain_segment_fits: "parts_fit rb n part \<Longrightarrow> j < n \<Longrightarrow> seg_fits rb (plain_segment k n part j)"
  using part_in_room(1) by (simp add: seg_fits_def plain_segment_def)

lemma receive_next_holding:
  assumes inv: "rb_inv ok rb" and k: "currently_rendering_id rb < k" and h: "holding rb k n part seen"
    and fit: "parts_fit rb n part" and j: "j < n" and seen: "seen \<subseteq> {..<n}"
  shows "\<exists>rb'. ring_buffer_receive_segment lib stg now rb (plain_segment k n part j) = Some (rb', True) \<and>
    holding rb' k n part (insert j seen)"
proof -
  define i where "i = nat k mod ring_buffer_size rb"
  from accept_segment_holding [OF inv k h i_def fit j seen] obtain rb' where
    a: "accept_segment lib now rb i (plain_segment k n part j) = Some rb'" "holding rb' k n part (insert j seen)" by blast
  from h i_def obtain pb where "get_frame_at_id rb k = Some i" "frame_id (receiving_frames rb ! i) = k" by (rule holdingE)
  then have "ring_buffer_receive_segment lib stg now rb (plain_segment k n part j) = Some (rb', True)"
    using a(1) j fit part_in_room(2) [OF fit j]
    by (simp add: ring_buffer_receive_segment_def Let_def parts_fit_def) (simp add: plain_segment_def)
  with a(2) show ?thesis by blast
qed

lemma init_frame_holding:
  assumes inv: "rb_inv (\<lambda>_. True) rb" and i: "get_frame_at_id rb k = Some i" "packet_buffer (receiving_frames rb ! i) = None"
  shows "\<exists>rb'. init_frame stg now rb k n 0 prev = Some rb' \<and> holding rb' k n part {}"
proof -
  have pool: "pool_inv (\<lambda>_. True) (packet_buffer_allocator rb) (set (all_blocks rb))"
    using rb_invD(1) [OF inv] by (simp add: owns_def)
  obtain b pb where b: "allocate_block (packet_buffer_allocator rb) = Some (b, pb)"
    using allocate_block_None [of "packet_buffer_allocator rb"] pool_invD(10) [OF pool]
    by (cases "allocate_block (packet_buffer_allocator rb)") auto
  let ?g = "fresh_frame now (receiving_frames rb ! i) k n 0 prev pb"
  let ?r = "put_frame (rb\<lparr>packet_buffer_allocator := b\<rparr>) (Slot i) ?g"
  have il: "i < length (receiving_frames rb)" using get_frame_at_idD [OF i(1)] rb_invD(3) [OF inv] by simp
  have g: "frame_id ?g = k" "num_original_packets ?g = n" "num_fec_packets ?g = 0" "packet_buffer ?g = Some pb"
    "received_indices ?g = (\<lambda>_. False)" "frame_buffer_size ?g = 0"
    by (simp_all add: fresh_frame_def zero_frame_def Let_def)
  have run: "init_frame stg now rb k n 0 prev = Some ?r" using i b by (simp add: init_frame_def Let_def)
  have "get_frame_at_id ?r k = Some i" using i(1) by (simp add: get_frame_at_id_def)
  then have "holding ?r k n part {}"
    unfolding holding_def using g il by (intro exI [of _ i] exI [of _ ?g] exI [of _ pb]) simp
  with run show ?thesis by blast
qed

lemma receive_first_holding:
  assumes inv: "rb_inv (\<lambda>_. True) rb" and k: "currently_rendering_id rb < k" "last_rendered_id rb < k" "0 \<le> k"
    and empty: "packet_buffer (receiving_frames rb ! (nat k mod ring_buffer_size rb)) = None"
      "frame_id (receiving_frames rb ! (nat k mod ring_buffer_size rb)) < k"
    and fit: "parts_fit rb n part" and j: "j < n"
  shows "\<exists>rb'. ring_buffer_receive_segment lib stg now rb (plain_segment k n part j) = Some (rb', True) \<and>
    holding rb' k n part {j}"
proof -
  define i where "i = nat k mod ring_buffer_size rb"
  have gi: "get_frame_at_id rb k = Some i" using rb_invD(2) [OF inv] k(3) by (simp add: get_frame_at_id_eq i_def)
  obtain u where u: "init_frame stg now rb k n 0 0 = Some u" "holding u k n part {}"
    using init_frame_holding [OF inv gi] empty(1) i_def by blast
  have "0 < n" using fit by (simp add: parts_fit_def)
  from init_frame_ok [OF inv u(1) k(2) this] have uinv: "rb_inv (\<lambda>_. True) u" "same_rest rb u" by blast+
  define w where "w = u\<lparr>max_id := max (max_id u) k, min_id := (if min_id u = -1 then k else min (min_id u) k)\<rparr>"
  have winv: "rb_inv (\<lambda>_. True) w" unfolding w_def by (rule rb_inv_ids(1) [OF uinv(1)])
  have hw: "holding w k n part {}" using u(2) by (simp add: holding_def w_def get_frame_at_id_def)
  have iw: "i = nat k mod ring_buffer_size w" "currently_rendering_id w < k" "parts_fit w n part"
    using uinv(2) k(1) fit by (simp_all add: i_def w_def same_rest_def parts_fit_def)
  from accept_segment_holding [OF winv iw(2) hw iw(1,3) j] obtain rb' where
    a: "accept_segment lib now w i (plain_segment k n part j) = Some rb'" "holding rb' k n part {j}" by blast
  have seg: "seg_id (plain_segment k n part j) = k" "seg_index (plain_segment k n part j) = j"
    "num_indices (plain_segment k n part j) = n" "num_fec_indices (plain_segment k n part j) = 0"
    "segment_bytes (plain_segment k n part j) = length (part j)" "prev_frame_num_duplicates (plain_segment k n part j) = 0"
    by (simp_all add: plain_segment_def)
  have ev: "evict_resident rb i = Some (rb, False)" using empty(1) by (simp add: evict_resident_def Let_def i_def)
  have "ring_buffer_receive_segment lib stg now rb (plain_segment k n part j) = Some (rb', True)"
    using gi ev u(1) a(1) empty(2) k(2) j fit part_in_room(2) [OF fit j]
    by (simp add: ring_buffer_receive_segment_def Let_def seg parts_fit_def w_def i_def cong: if_cong)
  with a(2) show ?thesis by blast
qed

lemma receive_all_holding:
  assumes "rb_inv ok rb" "ids_ok rb" "currently_rendering_id rb < k" "holding rb k n part seen" "parts_fit rb n part"
    and "set js \<subseteq> {..<n}" "seen \<subseteq> {..<n}"
  shows "\<exists>rb'. receive_all lib stg now rb (map (plain_segment k n part) js) = Some rb' \<and>
    holding rb' k n part (set js \<union> seen) \<and> rb_inv ok rb' \<and> currently_rendering_id rb' = currently_rendering_id rb"
  using assms
proof (induction js arbitrary: rb seen)
  case (Cons j js)
  have j: "j < n" using Cons.prems(6) by simp
  obtain u where u: "ring_buffer_receive_segment lib stg now rb (plain_segment k n part j) = Some (u, True)"
    "holding u k n part (insert j seen)"
    using receive_next_holding [OF Cons.prems(1,3,4,5) j Cons.prems(7)] by blast
  note r = receive_segment_ok [OF Cons.prems(1) plain_segment_fits [OF Cons.prems(5) j] u(1) Cons.prems(2)]
  have pf: "parts_fit u n part" "currently_rendering_id u < k" using Cons.prems(3,5) r(4,5) by (simp_all add: parts_fit_def)
  have sub: "set js \<subseteq> {..<n}" "insert j seen \<subseteq> {..<n}" using Cons.prems(6,7) by auto
  from Cons.IH [OF r(1,2) pf(2) u(2) pf(1) sub] u(1) r(5) show ?case by auto
qed auto

text \<open>A frame that has all its segments is ready.\<close>

lemma holding_ready:
  assumes inv: "rb_inv ok rb" and k: "0 \<le> k" "currently_rendering_id rb < k" and h: "holding rb k n part {..<n}"
    and i: "i = nat k mod ring_buffer_size rb"
  shows "\<exists>pb. get_frame_at_id rb k = Some i \<and> frame_id (receiving_frames rb ! i) = k \<and> frame_buffer (receiving_frames rb ! i) = Some pb \<and>
    is_ready_to_render rb k = Some (rb, True) \<and>
    frame_buffer_size (receiving_frames rb ! i) = (\<Sum>j<n. length (part j)) \<and>
    (\<forall>j<n. mem_read (j * MAX_PACKET_SEGMENT_SIZE) (length (part j)) (block_bytes (packet_buffer_allocator rb) pb) = part j)"
proof -
  from h i obtain pb where h: "get_frame_at_id rb k = Some i" "frame_id (receiving_frames rb ! i) = k"
    "num_original_packets (receiving_frames rb ! i) = n" "num_fec_packets (receiving_frames rb ! i) = 0"
    "packet_buffer (receiving_frames rb ! i) = Some pb" "\<forall>l. received_indices (receiving_frames rb ! i) l \<longleftrightarrow> l \<in> {..<n}"
    "frame_buffer_size (receiving_frames rb ! i) = (\<Sum>l<n. length (part l))"
    "\<forall>l\<in>{..<n}. mem_read (l * MAX_PACKET_SEGMENT_SIZE) (length (part l)) (block_bytes (packet_buffer_allocator rb) pb) = part l"
    by (rule holdingE)
  have fok: "frame_ok (ring_buffer_size rb) (currently_rendering_id rb) (last_rendered_id rb) i (receiving_frames rb ! i)"
    using rb_invD(4) [OF inv] get_frame_at_idD [OF h(1)] by simp
  have "received_originals (receiving_frames rb ! i) = n" using h(3,6) by (simp add: received_originals_def)
  then have fb: "frame_buffer (receiving_frames rb ! i) = Some pb"
    using fok k(2) h(2-5) by (simp add: frame_ok_def get_framebuffer_def)
  have "is_ready_to_render rb k = Some (rb, True)"
    using is_ready_id [OF inv k] h(1,2) fb by (auto simp: ready_id_def)
  then show ?thesis using h fb by (intro exI [of _ pb]) simp
qed

section \<open>Properties\<close>

text \<open>A ring buffer for the witnesses, as the client makes it for a stream of small video frames.\<close>

definition demo_ring :: RingBuffer where
  "demo_ring = the (init_ring_buffer plain_os zero_frame PACKET_VIDEO 5000 4 0)"

lemma fits_plain_os: "m < 2 ^ 32 \<Longrightarrow> fits_in_region plain_os (of_nat m)"
  by (simp add: fits_in_region_def plain_os_def unat_of_nat take_bit_nat_eq_self)

lemma demo_ring:
  "init_ring_buffer plain_os zero_frame PACKET_VIDEO 5000 4 0 = Some demo_ring"
  "rb_inv (\<lambda>_. True) demo_ring" "ring_buffer_size demo_ring = 4" "largest_frame_size demo_ring = 5015"
  "last_rendered_id demo_ring = -1" "currently_rendering_id demo_ring = -1"
  "receiving_frames demo_ring = replicate 4 zero_frame" "rb_reach lib stg plain_os demo_ring"
proof -
  have hdr: "PACKET_HEADER_SIZE = 15"
    by (simp add: PACKET_HEADER_SIZE_def MAX_PACKET_SEGMENT_SIZE_def MAX_PAYLOAD_SIZE_def)
  have fit: "fits_in_region plain_os (of_nat (PACKET_HEADER_SIZE + 5000))" by (rule fits_plain_os) (simp add: hdr)
  have "PACKET_HEADER_SIZE + 5000 < 2 ^ 64" "0 < (4 :: nat)" "4 \<le> MAX_RING_BUFFER_SIZE"
    by (simp_all add: hdr MAX_RING_BUFFER_SIZE_def)
  note r = init_ring_buffer_ok [OF plain_os_ok(1) fit this, of zero_frame PACKET_VIDEO 0]
  then show init: "init_ring_buffer plain_os zero_frame PACKET_VIDEO 5000 4 0 = Some demo_ring"
    by (auto simp: demo_ring_def)
  have ok: "mmap_ok plain_os = (\<lambda>_. True)" by (simp add: plain_os_def)
  from r init show "rb_inv (\<lambda>_. True) demo_ring" "ring_buffer_size demo_ring = 4" "largest_frame_size demo_ring = 5015"
    "last_rendered_id demo_ring = -1" "currently_rendering_id demo_ring = -1"
    "receiving_frames demo_ring = replicate 4 zero_frame" by (auto simp: ok hdr)
  show "rb_reach lib stg plain_os demo_ring"
    by (rule rb_reach.init [OF init _ fit]) (simp_all add: hdr)
qed



text \<open>
  C2: In every reachable state in which the renderer is not ahead of the stream, the count of pending
  frames is returned, with or without the self-check: the maintained counter is the number of frames
  that have a frame buffer, and the recount over the ids from \<open>min_id\<close> to \<open>max_id\<close> agrees with it.
\<close>

theorem ring_buffer_self_check:
  assumes "os_ok s" "rb_reach lib stg s rb" "currently_rendering_id rb \<le> last_rendered_id rb"
  shows "get_num_pending_ready_frames check rb =
    Some (rb, int (length (filter (\<lambda>f. frame_buffer f \<noteq> None) (receiving_frames rb))))"
  using get_num_pending_ok [of "mmap_ok s" rb check] rb_reach_inv [OF assms(1,2)] assms(3)
  by (simp add: rb_synced_def ready_count_def)

theorem ring_buffer_self_check_witness:
  "get_num_pending_ready_frames True demo_ring =
    Some (demo_ring, int (length (filter (\<lambda>f. frame_buffer f \<noteq> None) (receiving_frames demo_ring))))"
  by (rule ring_buffer_self_check [OF plain_os_ok(1) demo_ring(8) [of sum_lib rs_initial_settings]]) (simp add: demo_ring)

text \<open>
  C3: No block is lost or freed twice: from every reachable state the destruction of the ring buffer
  returns, which includes the check of the allocator that all its blocks have come back.
\<close>

theorem ring_buffer_destroy_returns:
  assumes "os_ok s" "rb_reach lib stg s rb"
  shows "\<exists>s'. destroy_ring_buffer rb = Some s'"
  using rb_reach_inv [OF assms] destroy_ring_buffer_ok by blast

theorem ring_buffer_destroy_returns_witness:
  "\<exists>s'. destroy_ring_buffer demo_ring = Some s'"
  by (rule ring_buffer_destroy_returns [OF plain_os_ok(1) demo_ring(8) [of sum_lib rs_initial_settings]])

text \<open>
  C4: Nacking. In every reachable state in which a segment has arrived and the renderer is not ahead of the
  stream, a round of nacking returns. It sends at most as many requests as the burst and the average
  limit leave; each request is for an id after the last rendered one and up to the newest, and
  either for the whole of a frame of which nothing has arrived or for an original packet that is
  missing from an incomplete frame.
\<close>

theorem try_nacking_sound:
  assumes "os_ok s" "rb_reach lib stg s rb" "currently_rendering_id rb \<le> last_rendered_id rb"
    and "min_id rb \<noteq> -1" "0 \<le> max_unordered"
  shows "\<exists>rb' r sent. try_nacking now latency max_unordered stgs rb = Some (rb', r) \<and>
    sent_nacks rb' = sent_nacks rb @ sent \<and> int (length sent) \<le> nack_limit now stgs rb \<and>
    (\<forall>(k, j) \<in> set sent. last_rendered_id rb < k \<and> k \<le> max_id rb \<and> wanted rb (k, j))"
proof -
  have "rb_synced (mmap_ok s) rb" using rb_reach_inv [OF assms(1,2)] assms(3) by (simp add: rb_synced_def)
  from try_nacking_ok [OF this assms(4,5)] show ?thesis by blast
qed

text \<open>A state in which the second of two segments has arrived.\<close>

definition demo_part :: "nat \<Rightarrow> byte list" where
  "demo_part j = replicate (10 + j) (of_nat j)"

definition demo_half :: RingBuffer where
  "demo_half = fst (the (ring_buffer_receive_segment sum_lib rs_initial_settings 0 demo_ring (plain_segment 3 2 demo_part 1)))"

lemma demo_half:
  "ring_buffer_receive_segment sum_lib rs_initial_settings 0 demo_ring (plain_segment 3 2 demo_part 1) = Some (demo_half, True)"
  "holding demo_half 3 2 demo_part {1}" "rb_reach sum_lib rs_initial_settings plain_os demo_half"
  "currently_rendering_id demo_half = -1" "last_rendered_id demo_half = -1" "min_id demo_half \<noteq> -1"
  "ring_buffer_size demo_half = 4" "largest_frame_size demo_half = 5015"
proof -
  have fit: "parts_fit demo_ring 2 demo_part"
    by (simp add: parts_fit_def demo_ring MAX_PACKETS_def MAX_PACKET_SEGMENT_SIZE_def demo_part_def)
  have "\<exists>rb'. ring_buffer_receive_segment sum_lib rs_initial_settings 0 demo_ring (plain_segment 3 2 demo_part 1) = Some (rb', True) \<and>
    holding rb' 3 2 demo_part {1}"
    by (rule receive_first_holding [OF demo_ring(2)]) (use fit in \<open>simp_all add: demo_ring zero_frame_def\<close>)
  then show run: "ring_buffer_receive_segment sum_lib rs_initial_settings 0 demo_ring (plain_segment 3 2 demo_part 1) = Some (demo_half, True)"
    and h: "holding demo_half 3 2 demo_part {1}" by (auto simp: demo_half_def)
  have sf: "seg_fits demo_ring (plain_segment 3 2 demo_part 1)" by (rule plain_segment_fits [OF fit]) simp
  show reach: "rb_reach sum_lib rs_initial_settings plain_os demo_half" by (rule rb_reach.receive [OF demo_ring(8) sf run])
  have ids: "ids_ok demo_ring" using rb_reach_inv [OF plain_os_ok(1) demo_ring(8)] by blast
  note r = receive_segment_ok [OF demo_ring(2) sf run ids]
  from r(3-6) show "currently_rendering_id demo_half = -1" "last_rendered_id demo_half = -1" "ring_buffer_size demo_half = 4"
    "largest_frame_size demo_half = 5015" by (simp_all add: demo_ring)
  from h obtain i where i: "get_frame_at_id demo_half 3 = Some i" "packet_buffer (receiving_frames demo_half ! i) \<noteq> None"
    unfolding holding_def by auto
  show "min_id demo_half \<noteq> -1"
    using ids_okD(2) [OF r(2), of i] i(2) get_frame_at_idD [OF i(1)] rb_invD(3) [OF r(1)] by simp
qed

theorem try_nacking_sound_witness:
  "\<exists>rb' r sent. try_nacking 1 0 0 sample_settings demo_half = Some (rb', r) \<and>
    sent_nacks rb' = sent_nacks demo_half @ sent \<and>
    int (length sent) \<le> nack_limit 1 sample_settings demo_half \<and>
    (\<forall>(k, j) \<in> set sent. last_rendered_id demo_half < k \<and> k \<le> max_id demo_half \<and> wanted demo_half (k, j))"
  by (rule try_nacking_sound [OF plain_os_ok(1) demo_half(3)]) (simp_all add: demo_half)

text \<open>
  C5: Frames are rendered in order: whenever \<^verbatim>\<open>set_rendering\<close> returns for the frame after the last rendered
  one, that frame was ready in its slot, its id is greater than that of the frame rendered before it (also
  when the buffer overflowed in between), and the renderer gets that frame.
\<close>

theorem ring_buffer_renders_in_order:
  assumes "os_ok s" "rb_reach lib stg s rb" "set_rendering rb (last_rendered_id rb + 1) = Some rb'"
  shows "currently_rendering_id rb < currently_rendering_id rb' \<and>
    (\<exists>i. get_frame_at_id rb (currently_rendering_id rb') = Some i \<and> currently_rendering_frame rb' = receiving_frames rb ! i \<and>
       frame_id (receiving_frames rb ! i) = currently_rendering_id rb' \<and> frame_buffer (currently_rendering_frame rb') \<noteq> None)"
proof -
  let ?k = "last_rendered_id rb + 1"
  have inv: "rb_inv (mmap_ok s) rb" using rb_reach_inv [OF assms(1,2)] by blast
  from set_rendering_SomeD [OF inv assms(3)] obtain i where i: "currently_rendering_id rb < ?k"
    "get_frame_at_id rb ?k = Some i" "frame_id (receiving_frames rb ! i) = ?k"
    "frame_buffer (receiving_frames rb ! i) \<noteq> None" by blast
  from set_rendering_ok [OF inv refl i(1,2) refl i(3,4)] assms(3) i show ?thesis by auto
qed

definition demo_full :: RingBuffer where
  "demo_full = fst (the (ring_buffer_receive_segment sum_lib rs_initial_settings 0 demo_half (plain_segment 3 2 demo_part 0)))"

definition demo_skipped :: RingBuffer where
  "demo_skipped = the (reset_stream demo_full 3)"

definition demo_shown :: RingBuffer where
  "demo_shown = the (set_rendering demo_skipped 3)"

lemma demo_shown:
  "rb_reach sum_lib rs_initial_settings plain_os demo_skipped" "last_rendered_id demo_skipped = 2"
  "set_rendering demo_skipped 3 = Some demo_shown"
proof -
  have ok: "mmap_ok plain_os = (\<lambda>_. True)" by (simp add: plain_os_def)
  have inv: "rb_inv (\<lambda>_. True) demo_half" "ids_ok demo_half"
    using rb_reach_inv [OF plain_os_ok(1) demo_half(3)] ok by auto
  have fit: "parts_fit demo_half 2 demo_part"
    by (simp add: parts_fit_def demo_half MAX_PACKETS_def MAX_PACKET_SEGMENT_SIZE_def demo_part_def)
  have "\<exists>rb'. ring_buffer_receive_segment sum_lib rs_initial_settings 0 demo_half (plain_segment 3 2 demo_part 0) = Some (rb', True) \<and>
    holding rb' 3 2 demo_part {0, 1}"
    by (rule receive_next_holding [OF inv(1) _ demo_half(2) fit]) (simp_all add: demo_half)
  then have run: "ring_buffer_receive_segment sum_lib rs_initial_settings 0 demo_half (plain_segment 3 2 demo_part 0) = Some (demo_full, True)"
    and h: "holding demo_full 3 2 demo_part {0, 1}" by (auto simp: demo_full_def)
  have sf: "seg_fits demo_half (plain_segment 3 2 demo_part 0)" by (rule plain_segment_fits [OF fit]) simp
  have full: "rb_reach sum_lib rs_initial_settings plain_os demo_full" by (rule rb_reach.receive [OF demo_half(3) sf run])
  note r = receive_segment_ok [OF inv(1) sf run inv(2)]
  have "{0, 1} = {..<2 :: nat}" by auto
  then have h2: "holding demo_full 3 2 demo_part {..<2}" using h by simp
  define i where "i = nat 3 mod ring_buffer_size demo_full"
  have "currently_rendering_id demo_full < 3" using r(5) by (simp add: demo_half)
  from holding_ready [OF r(1) _ this h2 i_def] obtain pb where fi: "get_frame_at_id demo_full 3 = Some i"
    "frame_id (receiving_frames demo_full ! i) = 3" "frame_buffer (receiving_frames demo_full ! i) = Some pb" by auto
  have il: "i < ring_buffer_size demo_full" using get_frame_at_idD [OF fi(1)] by simp
  obtain rb' where sk: "reset_stream demo_full 3 = Some rb'" "rb_inv (\<lambda>_. True) rb'"
    "last_rendered_id rb' = max (3 - 1) (last_rendered_id demo_full)" "ring_buffer_size rb' = ring_buffer_size demo_full"
    "currently_rendering_id rb' = currently_rendering_id demo_full"
    "receiving_frames rb' ! i = receiving_frames demo_full ! i"
    using reset_stream_ok [OF r(1), of 3] il fi(2) by (auto simp: Let_def)
  have eq: "rb' = demo_skipped" using sk(1) by (simp add: demo_skipped_def)
  note sk = sk [unfolded eq]
  show reach: "rb_reach sum_lib rs_initial_settings plain_os demo_skipped" by (rule rb_reach.skip [OF full sk(1)])
  show lst: "last_rendered_id demo_skipped = 2" using sk(3) r(6) by (simp add: demo_half)
  have "get_frame_at_id demo_skipped 3 = Some i" using fi(1) sk(4) by (simp add: get_frame_at_id_def)
  from set_rendering_ok [OF sk(2) _ _ this refl] lst sk(5,6) fi r(5) show "set_rendering demo_skipped 3 = Some demo_shown"
    by (auto simp: demo_shown_def demo_half)
qed

theorem ring_buffer_renders_in_order_witness:
  "currently_rendering_id demo_skipped < currently_rendering_id demo_shown \<and>
    (\<exists>i. get_frame_at_id demo_skipped (currently_rendering_id demo_shown) = Some i \<and>
       currently_rendering_frame demo_shown = receiving_frames demo_skipped ! i \<and>
       frame_id (receiving_frames demo_skipped ! i) = currently_rendering_id demo_shown \<and>
       frame_buffer (currently_rendering_frame demo_shown) \<noteq> None)"
  by (rule ring_buffer_renders_in_order [OF plain_os_ok(1) demo_shown(1)]) (simp add: demo_shown(2,3))

text \<open>
  C28: A late segment of a skipped frame stops the program. Let a segment of frame \<open>k\<close> arrive, then
  let the stream be skipped to \<open>k + 1\<close>, before any frame from \<open>k\<close> on is rendered. When now another segment of frame \<open>k\<close>
  arrives, the assertion that the frame has a packet buffer fails.
\<close>

theorem ring_buffer_late_segment_aborts:
  assumes "os_ok s" "mmap_ok s = (\<lambda>_. True)" "rb_reach lib stg s rb"
    and "0 \<le> k" "currently_rendering_id rb < k" "last_rendered_id rb < k"
    and "packet_buffer (receiving_frames rb ! (nat k mod ring_buffer_size rb)) = None"
    and "frame_id (receiving_frames rb ! (nat k mod ring_buffer_size rb)) < k"
    and "parts_fit rb n part" "j < n" "j' < n" "j' \<noteq> j"
  shows "\<exists>rb1 rb2. ring_buffer_receive_segment lib stg now rb (plain_segment k n part j) = Some (rb1, True) \<and>
    reset_stream rb1 (k + 1) = Some rb2 \<and>
    ring_buffer_receive_segment lib stg now rb2 (plain_segment k n part j') = None"
proof -
  have inv: "rb_inv (\<lambda>_. True) rb" "ids_ok rb" using rb_reach_inv [OF assms(1,3)] assms(2) by auto
  obtain u where u: "ring_buffer_receive_segment lib stg now rb (plain_segment k n part j) = Some (u, True)"
    "holding u k n part {j}" using receive_first_holding [OF inv(1) assms(5,6,4,7,8,9,10)] by blast
  note r = receive_segment_ok [OF inv(1) plain_segment_fits [OF assms(9,10)] u(1) inv(2)]
  define i where "i = nat k mod ring_buffer_size u"
  from u(2) i_def obtain pb where h: "get_frame_at_id u k = Some i" "frame_id (receiving_frames u ! i) = k"
    "num_original_packets (receiving_frames u ! i) = n" "num_fec_packets (receiving_frames u ! i) = 0"
    "packet_buffer (receiving_frames u ! i) = Some pb" "\<forall>l. received_indices (receiving_frames u ! i) l \<longleftrightarrow> l \<in> {j}"
    by (rule holdingE)
  have "1 \<le> k + 1" using assms(4) by simp
  from reset_stream_ok [OF r(1) this] obtain v where v: "reset_stream u (k + 1) = Some v" "rb_inv (\<lambda>_. True) v"
    "ring_buffer_size v = ring_buffer_size u" "currently_rendering_id v = currently_rendering_id u"
    "largest_frame_size v = largest_frame_size u" "receiving_frames v ! i = cleared (receiving_frames u ! i)"
    using get_frame_at_idD [OF h(1)] h(2,5) assms(6) r(6) by (auto simp: Let_def)
  let ?f = "receiving_frames v ! i" and ?seg = "plain_segment k n part j'" and ?c = "count_segment now v i (plain_segment k n part j')"
  have f: "frame_id ?f = k" "num_original_packets ?f = n" "num_fec_packets ?f = 0" "packet_buffer ?f = None"
    "\<not> received_indices ?f j'"
    using h assms(12) by (simp_all add: v(6) cleared_def)
  have gi: "get_frame_at_id v k = Some i" using h(1) v(3) by (simp add: get_frame_at_id_def)
  have il: "i < length (receiving_frames v)" using get_frame_at_idD [OF gi] rb_invD(3) [OF v(2)] by simp
  obtain g where c: "receiving_frames ?c = (receiving_frames v)[i := g]" "same_data ?f g" "same_rest v ?c"
      "currently_rendering_frame ?c = currently_rendering_frame v"
      "num_pending_ready_frames ?c = num_pending_ready_frames v"
      "packet_buffer_allocator ?c = packet_buffer_allocator v" using count_segment_ok by blast
  have g: "frame_id g = k" "num_fec_packets g = 0" "packet_buffer g = None" "num_original_packets g = n" "\<not> received_indices g j'"
    using f c(2) by (simp_all add: same_data_def)
  have invc: "rb_inv (\<lambda>_. True) ?c"
    using rb_inv_same_data [OF v(2) _ c(2,1,3-6)] get_frame_at_idD [OF gi] by simp
  have gc: "get_frame_at_id ?c k = Some i" using gi c(3) by (simp add: get_frame_at_id_def same_rest_def)
  have "store_segment lib ?c i ?seg = None"
  proof (rule ccontr)
    assume "store_segment lib ?c i ?seg \<noteq> None"
    then obtain w where w: "store_segment lib ?c i ?seg = Some w" by blast
    have seg: "seg_id ?seg = k" "seg_index ?seg = j'" "segment_bytes ?seg = length (part j')" by (simp_all add: plain_segment_def)
    have gs: "get_frame_at_id ?c (seg_id ?seg) = Some i" "frame_id (receiving_frames ?c ! i) = seg_id ?seg"
      using gc c(1) il g(1) seg(1) by simp_all
    from invc gs(1) refl gs(2) w show False
    proof (cases rule: store_segment_cases)
      case (marked m)
      then show ?thesis using part_in_room(1) [OF assms(9,11)] assms(5) r(4,5) v(4,5) c(3)
        by (simp add: seg same_rest_def)
    next
      case (stored pb')
      then show ?thesis using c(1) il g(3) by simp
    qed
  qed
  then have "accept_segment lib now v i ?seg = None"
    using f c(1) il g(5) by (simp add: accept_segment_def Let_def) (simp add: plain_segment_def)
  then have "ring_buffer_receive_segment lib stg now v ?seg = None"
    using gi f(1) by (simp add: ring_buffer_receive_segment_def Let_def plain_segment_def)
  with u(1) v(1) show ?thesis by blast
qed

theorem ring_buffer_late_segment_aborts_witness:
  "\<exists>rb1 rb2. ring_buffer_receive_segment sum_lib rs_initial_settings 0 demo_ring (plain_segment 3 2 demo_part 1) = Some (rb1, True) \<and>
    reset_stream rb1 (3 + 1) = Some rb2 \<and>
    ring_buffer_receive_segment sum_lib rs_initial_settings 0 rb2 (plain_segment 3 2 demo_part 0) = None"
proof (rule ring_buffer_late_segment_aborts [OF plain_os_ok(1) _ demo_ring(8)])
  show "parts_fit demo_ring 2 demo_part"
    by (simp add: parts_fit_def demo_ring MAX_PACKETS_def MAX_PACKET_SEGMENT_SIZE_def demo_part_def)
qed (simp_all add: demo_ring zero_frame_def plain_os_def)

end
