(* ===== verification/Ltr.thy ===== *)
theory Ltr
  imports Whist_Prelude "HOL-Library.Multiset"
begin

text \<open>
  Long-term references, \<^verbatim>\<open>protocol/whist/video/ltr.c\<close>: which type of frame the encoder makes next, given
  which frames the client has acknowledged or reported lost.

  The three linked lists are sequences of frames, as the contract of \<open>Linked_List\<close> allows; a
  \<^verbatim>\<open>LTRFrame*\<close> is the frame's counter, which is unique. The 64-bit counters go up by one per frame and are
  natural numbers. \<open>None\<close> is a failed assertion, or the removal of an item from a list that it is not in. The
  recursion of the nack walks lists that it changes; it is modelled with fuel, and the fuel
  that the callers give is shown to be enough in every reachable state.
\<close>

section \<open>Data\<close>

datatype VideoFrameType = NORMAL_FRAME | INTRA_FRAME | CREATE_LONG_TERM | REFER_LONG_TERM

record LTRAction =
  frame_type :: VideoFrameType
  long_term_frame_index :: int

record LTRFrame =
  action :: LTRAction
  counter :: nat
  reference_frame_counter :: nat
  ltr_frame_id :: "32 word"
  sent :: bool
  ack :: bool
  nack :: bool

record LTRState =
  pending_list :: "LTRFrame list"
  inflight_list :: "LTRFrame list"
  done_list :: "LTRFrame list"
  frame_counter :: nat
  intra_frame_needed :: bool
  last_frame_is_bad :: bool
  refer_long_term_outstanding :: bool
  create_long_term_outstanding :: bool
  have_good_long_term_frame :: bool
  good_long_term_frame_index :: int
  intra_frame_counter :: nat
  refer_long_term_frame_counter :: nat
  create_long_term_frame_counter :: nat
  good_long_term_frame_counter :: nat

definition LTR_NEW_INTRA_FRAME_DELAY :: nat where "LTR_NEW_INTRA_FRAME_DELAY = 60"
definition LTR_MAX_INFLIGHT_FRAMES :: nat where "LTR_MAX_INFLIGHT_FRAMES = 60"
definition LTR_MAX_DONE_FRAMES :: nat where "LTR_MAX_DONE_FRAMES = 60"

definition ltr_create :: LTRState where
  "ltr_create = \<lparr>pending_list = [], inflight_list = [], done_list = [], frame_counter = 0,
     intra_frame_needed = False, last_frame_is_bad = False, refer_long_term_outstanding = False,
     create_long_term_outstanding = False, have_good_long_term_frame = False,
     good_long_term_frame_index = 0, intra_frame_counter = 0, refer_long_term_frame_counter = 0,
     create_long_term_frame_counter = 0, good_long_term_frame_counter = 0\<rparr>"

section \<open>Choosing the next frame\<close>

text \<open>Two loops, each of which takes frames off the head of a list until it is short enough.\<close>

fun trim_inflight :: "LTRFrame list \<Rightarrow> LTRFrame list \<Rightarrow> LTRFrame list \<times> LTRFrame list" where
  "trim_inflight [] d = ([], d)"
| "trim_inflight (f # fs) d =
     (if length (f # fs) > LTR_MAX_INFLIGHT_FRAMES then trim_inflight fs (d @ [f]) else (f # fs, d))"

fun trim_done :: "LTRFrame list \<Rightarrow> LTRFrame list" where
  "trim_done [] = []"
| "trim_done (f # fs) = (if length (f # fs) > LTR_MAX_DONE_FRAMES then trim_done fs else f # fs)"

definition ltr_clear_old_frames :: "LTRState \<Rightarrow> LTRState" where
  "ltr_clear_old_frames ltr =
     (let (i, d) = trim_inflight (inflight_list ltr) (done_list ltr)
      in ltr\<lparr>inflight_list := i, done_list := trim_done d\<rparr>)"

text \<open>The type of the next frame, the frame it refers to, and the flag that is consumed by the choice.
  \<^verbatim>\<open>!index\<close> is 1 for 0 and 0 for everything else.\<close>

definition choose_action :: "LTRState \<Rightarrow> LTRState \<times> LTRAction \<times> nat" where
  "choose_action ltr =
     (if frame_counter ltr = 0 \<or> intra_frame_needed ltr \<or>
         (\<not> have_good_long_term_frame ltr \<and>
          frame_counter ltr + 1 - intra_frame_counter ltr \<ge> LTR_NEW_INTRA_FRAME_DELAY) \<or>
         (last_frame_is_bad ltr \<and> \<not> have_good_long_term_frame ltr)
      then (ltr\<lparr>intra_frame_needed := False, last_frame_is_bad := False\<rparr>,
            \<lparr>frame_type = INTRA_FRAME, long_term_frame_index = 0\<rparr>, 0)
      else if last_frame_is_bad ltr
      then (ltr\<lparr>last_frame_is_bad := False\<rparr>,
            \<lparr>frame_type = REFER_LONG_TERM, long_term_frame_index = good_long_term_frame_index ltr\<rparr>,
            good_long_term_frame_counter ltr)
      else if have_good_long_term_frame ltr \<and> \<not> refer_long_term_outstanding ltr \<and>
              \<not> create_long_term_outstanding ltr
      then (ltr, \<lparr>frame_type = CREATE_LONG_TERM,
                  long_term_frame_index = (if good_long_term_frame_index ltr = 0 then 1 else 0)\<rparr>,
            frame_counter ltr)
      else (ltr, \<lparr>frame_type = NORMAL_FRAME, long_term_frame_index = 0\<rparr>, frame_counter ltr))"

definition note_action :: "LTRState \<Rightarrow> LTRFrame \<Rightarrow> LTRState" where
  "note_action ltr frame =
     (case frame_type (action frame) of
        INTRA_FRAME \<Rightarrow> ltr\<lparr>intra_frame_counter := counter frame, refer_long_term_outstanding := False,
                           create_long_term_outstanding := False, have_good_long_term_frame := False\<rparr>
      | REFER_LONG_TERM \<Rightarrow> ltr\<lparr>refer_long_term_frame_counter := counter frame,
                               refer_long_term_outstanding := True, create_long_term_outstanding := False\<rparr>
      | CREATE_LONG_TERM \<Rightarrow> ltr\<lparr>create_long_term_frame_counter := counter frame,
                                create_long_term_outstanding := True\<rparr>
      | NORMAL_FRAME \<Rightarrow> ltr)"

definition ltr_pick_next_action :: "LTRState \<Rightarrow> LTRState \<times> LTRAction" where
  "ltr_pick_next_action ltr =
     (let ltr = ltr_clear_old_frames ltr;
          (ltr, act, ref) = choose_action ltr;
          ltr = ltr\<lparr>frame_counter := frame_counter ltr + 1\<rparr>;
          frame = \<lparr>action = act, counter = frame_counter ltr, reference_frame_counter = ref,
                   ltr_frame_id = 0, sent = False, ack = False, nack = False\<rparr>;
          ltr = ltr\<lparr>pending_list := pending_list ltr @ [frame]\<rparr>
      in (note_action ltr frame, act))"

definition ltr_mark_frame_sent :: "LTRState \<Rightarrow> 32 word \<Rightarrow> LTRState \<times> int" where
  "ltr_mark_frame_sent ltr fid =
     (case pending_list ltr of
        [] \<Rightarrow> (ltr, -1)
      | frame # fs \<Rightarrow>
          (ltr\<lparr>pending_list := fs, inflight_list := inflight_list ltr @ [frame\<lparr>ltr_frame_id := fid, sent := True\<rparr>]\<rparr>, 0))"

definition ltr_get_next_action :: "LTRState \<Rightarrow> 32 word \<Rightarrow> LTRState \<times> LTRAction \<times> int" where
  "ltr_get_next_action ltr fid =
     (let (ltr, act) = ltr_pick_next_action ltr;
          (ltr, r) = ltr_mark_frame_sent ltr fid
      in (ltr, act, r))"

section \<open>Acknowledgements\<close>

definition all_frames :: "LTRState \<Rightarrow> LTRFrame list" where
  "all_frames ltr = pending_list ltr @ inflight_list ltr @ done_list ltr"

definition find_frame :: "LTRState \<Rightarrow> nat \<Rightarrow> LTRFrame option" where
  "find_frame ltr c = find (\<lambda>f. counter f = c) (all_frames ltr)"

definition update_frame :: "nat \<Rightarrow> (LTRFrame \<Rightarrow> LTRFrame) \<Rightarrow> LTRState \<Rightarrow> LTRState" where
  "update_frame c u ltr =
     (let up = map (\<lambda>f. if counter f = c then u f else f)
      in ltr\<lparr>pending_list := up (pending_list ltr), inflight_list := up (inflight_list ltr),
             done_list := up (done_list ltr)\<rparr>)"

text \<open>Move a frame from the in-flight list to the end of the done list.\<close>

definition move_to_done :: "LTRState \<Rightarrow> nat \<Rightarrow> LTRState option" where
  "move_to_done ltr c = do {
     f \<leftarrow> find (\<lambda>f. counter f = c) (inflight_list ltr);
     Some (ltr\<lparr>inflight_list := filter (\<lambda>g. counter g \<noteq> c) (inflight_list ltr),
               done_list := done_list ltr @ [f]\<rparr>) }"

text \<open>What an acknowledged frame tells about the stream.\<close>

definition ack_flags :: "LTRFrame \<Rightarrow> LTRState \<Rightarrow> LTRState" where
  "ack_flags f ltr =
     (if counter f \<ge> intra_frame_counter ltr then
        (case frame_type (action f) of
           REFER_LONG_TERM \<Rightarrow>
             (if counter f = refer_long_term_frame_counter ltr
              then ltr\<lparr>refer_long_term_outstanding := False\<rparr> else ltr)
         | INTRA_FRAME \<Rightarrow>
             ltr\<lparr>have_good_long_term_frame := True,
                 good_long_term_frame_index := long_term_frame_index (action f),
                 good_long_term_frame_counter := counter f\<rparr>
         | CREATE_LONG_TERM \<Rightarrow>
             (if counter f = create_long_term_frame_counter ltr
              then ltr\<lparr>have_good_long_term_frame := True,
                       good_long_term_frame_index := long_term_frame_index (action f),
                       good_long_term_frame_counter := counter f,
                       create_long_term_outstanding := False\<rparr> else ltr)
         | NORMAL_FRAME \<Rightarrow> ltr)
      else ltr)"

text \<open>\<open>preds\<close> are the frames in front of the frame in its list, nearest first; the in-flight list
  does not change until the reference has been acknowledged.\<close>

function ltr_ack_frame_internal :: "LTRState \<Rightarrow> nat \<Rightarrow> nat list \<Rightarrow> LTRState option" where
  "ltr_ack_frame_internal ltr c preds = do {
     f \<leftarrow> find_frame ltr c;
     fatal_assert (\<not> nack f);
     if ack f then Some ltr
     else do {
       let ltr = ack_flags f (update_frame c (\<lambda>f. f\<lparr>ack := True\<rparr>) ltr);
       ltr \<leftarrow> (case dropWhile (\<lambda>r. r \<noteq> reference_frame_counter f) preds of
                [] \<Rightarrow> Some ltr
              | r # rest \<Rightarrow> ltr_ack_frame_internal ltr r rest);
       move_to_done ltr c } }"
  by pat_completeness auto
termination
proof (relation "measure (\<lambda>(ltr, c, preds). length preds)")
  fix ltr :: LTRState and c :: nat and preds :: "nat list" and f :: LTRFrame and u x r rest
  assume "dropWhile (\<lambda>r. r \<noteq> reference_frame_counter f) preds = r # rest"
  then have "length (r # rest) \<le> length preds" by (metis length_dropWhile_le)
  then show "((x, r, rest), (ltr, c, preds)) \<in> measure (\<lambda>(ltr, c, preds). length preds)" by simp
qed simp

definition ltr_find_frame_by_id :: "LTRState \<Rightarrow> 32 word \<Rightarrow> nat option" where
  "ltr_find_frame_by_id ltr fid = map_option counter (find (\<lambda>f. ltr_frame_id f = fid) (inflight_list ltr))"

definition predecessors :: "LTRState \<Rightarrow> nat \<Rightarrow> nat list" where
  "predecessors ltr c = rev (takeWhile (\<lambda>d. d \<noteq> c) (map counter (inflight_list ltr)))"

definition ltr_mark_frame_received :: "LTRState \<Rightarrow> 32 word \<Rightarrow> (LTRState \<times> int) option" where
  "ltr_mark_frame_received ltr fid =
     (case ltr_find_frame_by_id ltr fid of
        None \<Rightarrow> Some (ltr, -1)
      | Some c \<Rightarrow> do {
          ltr \<leftarrow> ltr_ack_frame_internal ltr c (predecessors ltr c);
          Some (ltr, 0) })"

section \<open>Losses\<close>

fun succ_in :: "LTRFrame list \<Rightarrow> nat \<Rightarrow> nat option" where
  "succ_in [] c = None"
| "succ_in (f # fs) c =
     (if counter f = c then (case fs of [] \<Rightarrow> None | g # _ \<Rightarrow> Some (counter g)) else succ_in fs c)"

text \<open>\<^verbatim>\<open>linked_list_next\<close>: the next item of whichever list the frame is in.\<close>

definition next_frame :: "LTRState \<Rightarrow> nat \<Rightarrow> nat option" where
  "next_frame ltr c =
     (if c \<in> counter ` set (pending_list ltr) then succ_in (pending_list ltr) c
      else if c \<in> counter ` set (inflight_list ltr) then succ_in (inflight_list ltr) c
      else succ_in (done_list ltr) c)"

definition nack_flags :: "LTRFrame \<Rightarrow> LTRState \<Rightarrow> LTRState" where
  "nack_flags f ltr =
     (let ltr = (if frame_counter ltr = counter f then ltr\<lparr>last_frame_is_bad := True\<rparr> else ltr)
      in if counter f \<ge> intra_frame_counter ltr then
           (case frame_type (action f) of
              REFER_LONG_TERM \<Rightarrow> ltr\<lparr>refer_long_term_outstanding := False\<rparr>
            | CREATE_LONG_TERM \<Rightarrow> ltr\<lparr>create_long_term_outstanding := False\<rparr>
            | _ \<Rightarrow> ltr)
         else ltr)"

text \<open>The loops hold on to pointers while the calls in their bodies move frames to the done list, so
  that a walk can end up there. \<open>nack_pending\<close> is the walk over the pending list.\<close>

fun ltr_nack_frame_internal :: "nat \<Rightarrow> LTRState \<Rightarrow> nat \<Rightarrow> bool \<Rightarrow> LTRState option"
  and nack_dependents :: "nat \<Rightarrow> LTRState \<Rightarrow> nat \<Rightarrow> nat option \<Rightarrow> LTRState option"
  and nack_pending :: "nat \<Rightarrow> LTRState \<Rightarrow> nat \<Rightarrow> nat option \<Rightarrow> LTRState option" where
  "ltr_nack_frame_internal 0 ltr c pending = None"
| "ltr_nack_frame_internal (Suc fuel) ltr c pending = do {
     f \<leftarrow> find_frame ltr c;
     fatal_assert (\<not> ack f);
     if nack f then Some ltr
     else do {
       let ltr = nack_flags f (update_frame c (\<lambda>f. f\<lparr>nack := True\<rparr>) ltr);
       let nxt = next_frame ltr c;
       ltr \<leftarrow> move_to_done ltr c;
       ltr \<leftarrow> nack_dependents fuel ltr c nxt;
       if pending then Some ltr
       else nack_pending fuel ltr c (map_option counter (first_of (pending_list ltr) None)) } }"
| "nack_dependents fuel ltr c None = Some ltr"
| "nack_dependents 0 ltr c (Some r) = None"
| "nack_dependents (Suc fuel) ltr c (Some r) = do {
     let nxt = next_frame ltr r;
     f \<leftarrow> find_frame ltr r;
     ltr \<leftarrow> (if reference_frame_counter f = c then ltr_nack_frame_internal fuel ltr r False else Some ltr);
     nack_dependents fuel ltr c nxt }"
| "nack_pending fuel ltr c None = Some ltr"
| "nack_pending 0 ltr c (Some r) = None"
| "nack_pending (Suc fuel) ltr c (Some r) = do {
     let nxt = next_frame ltr r;
     f \<leftarrow> find_frame ltr r;
     ltr \<leftarrow> (if reference_frame_counter f = c then ltr_nack_frame_internal fuel ltr r True else Some ltr);
     nack_pending fuel ltr c nxt }"

definition nack_fuel :: "LTRState \<Rightarrow> nat" where
  "nack_fuel ltr = 3 * length (all_frames ltr) + 3"

definition ltr_mark_frame_not_received :: "LTRState \<Rightarrow> 32 word \<Rightarrow> (LTRState \<times> int) option" where
  "ltr_mark_frame_not_received ltr fid =
     (case ltr_find_frame_by_id ltr fid of
        None \<Rightarrow> Some (ltr, -1)
      | Some c \<Rightarrow> do {
          ltr \<leftarrow> ltr_nack_frame_internal (nack_fuel ltr) ltr c False;
          Some (ltr, 0) })"

definition ltr_mark_stream_broken :: "LTRState \<Rightarrow> LTRState option" where
  "ltr_mark_stream_broken ltr =
     (case last_of (inflight_list ltr) None of
        None \<Rightarrow> Some (ltr\<lparr>intra_frame_needed := True\<rparr>)
      | Some f \<Rightarrow> ltr_nack_frame_internal (nack_fuel ltr) ltr (counter f) False)"

definition ltr_force_intra :: "LTRState \<Rightarrow> LTRState" where
  "ltr_force_intra ltr = ltr\<lparr>intra_frame_needed := True\<rparr>"

section \<open>Well-formed states\<close>

text \<open>Between calls no frame is pending, the frames in flight are in the order of their counters and
  undecided, and a counter belongs to one frame.\<close>

definition ltr_wf :: "LTRState \<Rightarrow> bool" where
  "ltr_wf ltr \<longleftrightarrow> pending_list ltr = [] \<and> sorted_wrt (<) (map counter (inflight_list ltr)) \<and>
     distinct (map counter (inflight_list ltr @ done_list ltr)) \<and>
     (\<forall>f \<in> set (inflight_list ltr @ done_list ltr). 1 \<le> counter f \<and> counter f \<le> frame_counter ltr) \<and>
     (\<forall>f \<in> set (inflight_list ltr). \<not> ack f \<and> \<not> nack f)"

lemma find_unique:
  "distinct (map counter fs) \<Longrightarrow> f \<in> set fs \<Longrightarrow> find (\<lambda>g. counter g = counter f) fs = Some f"
  by (induction fs) (auto simp: image_iff)

lemma find_frame_eq:
  assumes "pending_list ltr = []" "distinct (map counter (inflight_list ltr @ done_list ltr))"
    and "f \<in> set (inflight_list ltr @ done_list ltr)"
  shows "find_frame ltr (counter f) = Some f"
  using assms find_unique [OF assms(2,3)] by (simp add: find_frame_def all_frames_def)

abbreviation head_ptr :: "LTRFrame list \<Rightarrow> nat option" where
  "head_ptr fs \<equiv> map_option counter (first_of fs None)"

lemma succ_in_mid:
  "distinct (map counter (P @ f # S)) \<Longrightarrow> succ_in (P @ f # S) (counter f) = head_ptr S"
  by (induction P) (auto split: list.split)

lemma next_frame_inflight:
  assumes "pending_list ltr = []" "inflight_list ltr = P @ f # S" "distinct (map counter (inflight_list ltr @ done_list ltr))"
  shows "next_frame ltr (counter f) = head_ptr S"
proof -
  have "distinct (map counter (P @ f # S))" using assms(2,3) by auto
  from succ_in_mid [OF this] show ?thesis using assms(1,2) by (simp add: next_frame_def)
qed

lemma next_frame_done:
  assumes "pending_list ltr = []" "done_list ltr = P @ f # S" "distinct (map counter (inflight_list ltr @ done_list ltr))"
  shows "next_frame ltr (counter f) = head_ptr S"
proof -
  have "counter f \<notin> counter ` set (inflight_list ltr)" using assms(2,3) by auto
  then show ?thesis using assms succ_in_mid [of P f S] by (simp add: next_frame_def)
qed

lemma move_to_done_eq:
  assumes "inflight_list ltr = A @ f # B" "distinct (map counter (inflight_list ltr))"
  shows "move_to_done ltr (counter f) = Some (ltr\<lparr>inflight_list := A @ B, done_list := done_list ltr @ [f]\<rparr>)"
proof -
  have "find (\<lambda>g. counter g = counter f) (inflight_list ltr) = Some f"
    using find_unique [OF assms(2), of f] assms(1) by simp
  moreover have "filter (\<lambda>g. counter g \<noteq> counter f) (inflight_list ltr) = A @ B"
  proof -
    have keep: "filter (\<lambda>g. counter g \<noteq> counter f) xs = xs" if "counter f \<notin> counter ` set xs" for xs
      using that by (induction xs) auto
    have "counter f \<notin> counter ` set A" "counter f \<notin> counter ` set B" using assms by auto
    from keep [OF this(1)] keep [OF this(2)] show ?thesis using assms(1) by simp
  qed
  ultimately show ?thesis by (simp add: move_to_done_def)
qed

lemma inflight_distinct:
  "distinct (map counter (inflight_list ltr @ done_list ltr)) \<Longrightarrow> distinct (map counter (inflight_list ltr))"
  by simp

text \<open>A walk that meets no dependent changes nothing, in whichever list it is.\<close>

lemma nack_walk:
  assumes "pending_list ltr = []" "distinct (map counter (inflight_list ltr @ done_list ltr))"
    and "inflight_list ltr = P @ S \<or> done_list ltr = P @ S" "\<forall>g \<in> set S. reference_frame_counter g \<noteq> c" "length S \<le> fuel"
  shows "nack_dependents fuel ltr c (head_ptr S) = Some ltr"
  using assms(3-5)
proof (induction S arbitrary: P fuel)
  case (Cons g S)
  obtain n where n: "fuel = Suc n" "length S \<le> n" using Cons.prems(3) by (cases fuel) auto
  have "g \<in> set (inflight_list ltr @ done_list ltr)" using Cons.prems(1) by auto
  note fg = find_frame_eq [OF assms(1,2) this]
  have nx: "next_frame ltr (counter g) = head_ptr S"
    using Cons.prems(1) next_frame_inflight [OF assms(1) _ assms(2)] next_frame_done [OF assms(1) _ assms(2)] by blast
  have "nack_dependents n ltr c (head_ptr S) = Some ltr"
    using Cons.IH [of "P @ [g]" n] Cons.prems n(2) by simp
  then show ?case using fg nx Cons.prems(2) n(1) by simp
qed simp

fun ref_chain :: "nat \<Rightarrow> LTRFrame list \<Rightarrow> bool" where
  "ref_chain c [] = True"
| "ref_chain c (f # fs) = (reference_frame_counter f = c \<and> ref_chain (counter f) fs)"

lemma ref_chain_refs:
  "ref_chain c fs \<Longrightarrow> g \<in> set fs \<Longrightarrow> reference_frame_counter g \<in> insert c (counter ` set fs)"
  by (induction fs arbitrary: c) auto

lemma nack_flags_lists [simp]:
  "nack_flags f (ltr\<lparr>inflight_list := x\<rparr>) = (nack_flags f ltr)\<lparr>inflight_list := x\<rparr>"
  "nack_flags f (ltr\<lparr>done_list := x\<rparr>) = (nack_flags f ltr)\<lparr>done_list := x\<rparr>"
  "pending_list (nack_flags f ltr) = pending_list ltr"
  "inflight_list (nack_flags f ltr) = inflight_list ltr"
  "done_list (nack_flags f ltr) = done_list ltr"
  "frame_counter (nack_flags f ltr) = frame_counter ltr"
  by (auto simp: nack_flags_def Let_def split: VideoFrameType.splits)

definition nacked :: "LTRFrame \<Rightarrow> LTRFrame" where
  "nacked f = f\<lparr>nack := True\<rparr>"

lemma nacked_simps [simp]:
  "counter (nacked f) = counter f" "reference_frame_counter (nacked f) = reference_frame_counter f"
  "action (nacked f) = action f" "nack (nacked f)" "ack (nacked f) = ack f"
  by (simp_all add: nacked_def)

lemma update_frame_mid:
  assumes "pending_list ltr = []" "inflight_list ltr = A @ f # B" "distinct (map counter (inflight_list ltr @ done_list ltr))"
  shows "update_frame (counter f) u ltr = ltr\<lparr>inflight_list := A @ u f # B\<rparr>"
proof -
  have "map (\<lambda>g. if counter g = counter f then u g else g) xs = xs" if "counter f \<notin> counter ` set xs" for xs
    using that by (induction xs) auto
  moreover have "counter f \<notin> counter ` set A" "counter f \<notin> counter ` set B" "counter f \<notin> counter ` set (done_list ltr)"
    using assms(2,3) by auto
  ultimately show ?thesis using assms(1,2) by (simp add: update_frame_def Let_def)
qed

text \<open>The whole of a nack: the frame and the run of frames that depend on it are marked and moved.\<close>

lemma nack_run:
  assumes "pending_list ltr = []" "inflight_list ltr = A @ f # R @ B"
    and "distinct (map counter (inflight_list ltr @ done_list ltr))" "\<forall>g \<in> set (f # R). \<not> ack g \<and> \<not> nack g"
    and "ref_chain (counter f) R" "\<forall>b \<in> set B. reference_frame_counter b \<notin> counter ` set (f # R)"
    and "3 * length R + length B + 2 \<le> fuel"
  shows "ltr_nack_frame_internal fuel ltr (counter f) False =
    Some ((fold nack_flags (f # R) ltr)\<lparr>inflight_list := A @ B, done_list := done_list ltr @ map nacked (f # R)\<rparr>)"
  using assms
proof (induction R arbitrary: ltr f fuel)
  case Nil
  then obtain n where n: "fuel = Suc n" "length B \<le> n" by (cases fuel) auto
  note d = Nil.prems(3)
  have ff: "find_frame ltr (counter f) = Some f" using find_frame_eq [OF Nil.prems(1) d, of f] Nil.prems(2) by simp
  define u where "u = (nack_flags f ltr)\<lparr>inflight_list := A @ nacked f # B\<rparr>"
  have uf: "nack_flags f (update_frame (counter f) (\<lambda>f. f\<lparr>nack := True\<rparr>) ltr) = u"
    using update_frame_mid [OF Nil.prems(1) _ d, of A f B] Nil.prems(2) by (simp add: u_def nacked_def)
  have du: "distinct (map counter (inflight_list u @ done_list u))" using d Nil.prems(2) by (simp add: u_def)
  have nx: "next_frame u (counter f) = head_ptr B"
    using next_frame_inflight [of u A "nacked f" B] du Nil.prems(1) by (simp add: u_def)
  define v where "v = u\<lparr>inflight_list := A @ B, done_list := done_list ltr @ [nacked f]\<rparr>"
  have mv: "move_to_done u (counter f) = Some v"
    using move_to_done_eq [OF _ inflight_distinct [OF du], of A "nacked f" B] by (simp add: u_def v_def)
  have "nack_dependents n v (counter f) (head_ptr B) = Some v"
    using nack_walk [of v A B "counter f" n] Nil.prems n(2) by (simp add: v_def u_def)
  then show ?case
    using n(1) ff uf nx mv Nil.prems(1,4) by (simp add: Let_def) (simp add: v_def u_def)
next
  case (Cons g R)
  obtain n where n: "fuel = Suc (Suc n)" "3 * length R + length B + 3 \<le> n" using Cons.prems(7) by (cases fuel; cases "fuel - 1") auto
  note d = Cons.prems(3)
  have ff: "find_frame ltr (counter f) = Some f" using find_frame_eq [OF Cons.prems(1) d, of f] Cons.prems(2) by simp
  define u where "u = (nack_flags f ltr)\<lparr>inflight_list := A @ nacked f # g # R @ B\<rparr>"
  have uf: "nack_flags f (update_frame (counter f) (\<lambda>f. f\<lparr>nack := True\<rparr>) ltr) = u"
    using update_frame_mid [OF Cons.prems(1) _ d, of A f "g # R @ B"] Cons.prems(2) by (simp add: u_def nacked_def)
  have du: "distinct (map counter (inflight_list u @ done_list u))" using d Cons.prems(2) by (simp add: u_def)
  have nx: "next_frame u (counter f) = Some (counter g)"
    using next_frame_inflight [of u A "nacked f" "g # R @ B"] du Cons.prems(1) by (simp add: u_def)
  define v where "v = u\<lparr>inflight_list := A @ g # R @ B, done_list := done_list ltr @ [nacked f]\<rparr>"
  have mv: "move_to_done u (counter f) = Some v"
    using move_to_done_eq [OF _ inflight_distinct [OF du], of A "nacked f" "g # R @ B"] by (simp add: u_def v_def)
  have dv: "distinct (map counter (inflight_list v @ done_list v))" and pv: "pending_list v = []"
    using d Cons.prems(1,2) by (auto simp: v_def u_def)
  define w where "w = (fold nack_flags (g # R) v)\<lparr>inflight_list := A @ B, done_list := done_list v @ map nacked (g # R)\<rparr>"
  have IH: "ltr_nack_frame_internal n v (counter g) False = Some w"
    unfolding w_def
  proof (rule Cons.IH)
    show "inflight_list v = A @ g # R @ B" by (simp add: v_def)
    show "\<forall>b \<in> set B. reference_frame_counter b \<notin> counter ` set (g # R)" using Cons.prems(6) by auto
  qed (use Cons.prems dv pv n(2) in auto)
  have ng: "next_frame v (counter g) = head_ptr (R @ B)" "find_frame v (counter g) = Some g"
    using next_frame_inflight [OF pv _ dv, of A g "R @ B"] find_frame_eq [OF pv dv, of g] by (simp_all add: v_def)
  have dw: "distinct (map counter (inflight_list w @ done_list w))" and pw: "pending_list w = []"
  proof -
    have fl: "pending_list (fold nack_flags fs x) = pending_list x" for fs x by (induction fs arbitrary: x) auto
    show "pending_list w = []" using pv by (simp add: w_def fl del: fold_simps)
    have "done_list v = done_list ltr @ [nacked f]" by (simp add: v_def)
    then have wl: "inflight_list w = A @ B" "done_list w = (done_list ltr @ [nacked f]) @ map nacked (g # R)"
      by (simp_all add: w_def del: fold_simps)
    have "mset (map counter (inflight_list w @ done_list w)) = mset (map counter (inflight_list ltr @ done_list ltr))"
      unfolding wl Cons.prems(2) by (simp add: comp_def)
    from mset_eq_imp_distinct_iff [OF this] d show "distinct (map counter (inflight_list w @ done_list w))" by blast
  qed
  have refs: "\<forall>h \<in> set R. reference_frame_counter h \<noteq> counter f"
  proof
    fix h assume "h \<in> set R"
    then have "reference_frame_counter h \<in> insert (counter g) (counter ` set R)"
      using ref_chain_refs [of "counter g" R h] Cons.prems(5) by simp
    moreover have "counter f \<notin> insert (counter g) (counter ` set R)"
      using inflight_distinct [OF d] unfolding Cons.prems(2) by simp
    ultimately show "reference_frame_counter h \<noteq> counter f" by (elim contrapos_nn) simp
  qed
  have "nack_dependents n w (counter f) (head_ptr (R @ B)) = Some w"
  proof (cases R)
    case Nil
    then show ?thesis using nack_walk [OF pw dw, of A B "counter f" n] Cons.prems(6) n(2) by (simp add: w_def)
  next
    case (Cons h R')
    have "done_list w = (done_list v @ [nacked g]) @ map nacked R" by (simp add: w_def)
    moreover have "\<forall>x \<in> set (map nacked R). reference_frame_counter x \<noteq> counter f" using refs by auto
    ultimately have "nack_dependents n w (counter f) (head_ptr (map nacked R)) = Some w"
      using nack_walk [OF pw dw, of _ "map nacked R" "counter f" n] n(2) by auto
    then show ?thesis using Cons by simp
  qed
  then have "nack_dependents (Suc n) v (counter f) (Some (counter g)) = Some w"
    using ng IH Cons.prems(5) by simp
  then have run: "ltr_nack_frame_internal fuel ltr (counter f) False = Some w"
    using n(1) ff uf nx mv Cons.prems(1,4) pw by (simp add: Let_def del: nack_dependents.simps)
  have fl: "fold nack_flags fs (x\<lparr>inflight_list := a, done_list := b\<rparr>) = (fold nack_flags fs x)\<lparr>inflight_list := a, done_list := b\<rparr>" for fs x a b
    by (induction fs arbitrary: x) auto
  have "w = (fold nack_flags (f # g # R) ltr)\<lparr>inflight_list := A @ B, done_list := done_list ltr @ map nacked (f # g # R)\<rparr>"
  proof -
    have v: "v = (nack_flags f ltr)\<lparr>inflight_list := A @ g # R @ B, done_list := done_list ltr @ [nacked f]\<rparr>"
      by (simp add: v_def u_def)
    show ?thesis unfolding w_def v fl by simp
  qed
  with run show ?case by simp
qed


section \<open>An acknowledgement as a walk along the references\<close>

text \<open>The frames that an acknowledgement reaches, from the frame itself backwards.\<close>

function ack_chain :: "LTRFrame \<Rightarrow> LTRFrame list \<Rightarrow> LTRFrame list" where
  "ack_chain f P = f # (case dropWhile (\<lambda>r. counter r \<noteq> reference_frame_counter f) P of
                          [] \<Rightarrow> [] | r # rest \<Rightarrow> ack_chain r rest)"
  by pat_completeness auto
termination
proof (relation "measure (\<lambda>(f, P). length P)")
  fix f r :: LTRFrame and P rest :: "LTRFrame list"
  assume "dropWhile (\<lambda>r. counter r \<noteq> reference_frame_counter f) P = r # rest"
  then have "length (r # rest) \<le> length P" by (metis length_dropWhile_le)
  then show "((r, rest), (f, P)) \<in> measure (\<lambda>(f, P). length P)" by simp
qed simp

declare ack_chain.simps [simp del] ltr_ack_frame_internal.simps [simp del]

definition acked :: "LTRFrame \<Rightarrow> LTRFrame" where
  "acked f = f\<lparr>ack := True\<rparr>"

lemma acked_simps [simp]:
  "counter (acked f) = counter f" "ack (acked f)" "nack (acked f) = nack f"
  by (simp_all add: acked_def)

lemma ack_flags_lists [simp]:
  "ack_flags f (ltr\<lparr>inflight_list := x\<rparr>) = (ack_flags f ltr)\<lparr>inflight_list := x\<rparr>"
  "ack_flags f (ltr\<lparr>done_list := x\<rparr>) = (ack_flags f ltr)\<lparr>done_list := x\<rparr>"
  "pending_list (ack_flags f ltr) = pending_list ltr"
  "inflight_list (ack_flags f ltr) = inflight_list ltr"
  "done_list (ack_flags f ltr) = done_list ltr"
  "frame_counter (ack_flags f ltr) = frame_counter ltr"
  "last_frame_is_bad (ack_flags f ltr) = last_frame_is_bad ltr"
  by (auto simp: ack_flags_def split: VideoFrameType.splits)

lemma fold_ack_flags:
  "fold ack_flags fs (ltr\<lparr>inflight_list := a\<rparr>) = (fold ack_flags fs ltr)\<lparr>inflight_list := a\<rparr>"
  "pending_list (fold ack_flags fs ltr) = pending_list ltr"
  "inflight_list (fold ack_flags fs ltr) = inflight_list ltr"
  "done_list (fold ack_flags fs ltr) = done_list ltr"
  "frame_counter (fold ack_flags fs ltr) = frame_counter ltr"
  "last_frame_is_bad (fold ack_flags fs ltr) = last_frame_is_bad ltr"
  by (induction fs arbitrary: ltr) auto

definition mark_ack :: "nat \<Rightarrow> LTRFrame list \<Rightarrow> LTRFrame list" where
  "mark_ack c = map (\<lambda>g. if counter g = c then acked g else g)"

lemma mark_ack_simps [simp]:
  "map counter (mark_ack c fs) = map counter fs"
  "filter (\<lambda>g. counter g \<notin> insert c D) (mark_ack c fs) = filter (\<lambda>g. counter g \<notin> insert c D) fs"
  by (induction fs) (auto simp: mark_ack_def)

lemma mark_ack_other: "g \<in> set fs \<Longrightarrow> counter g \<noteq> c \<Longrightarrow> g \<in> set (mark_ack c fs)"
  by (force simp: mark_ack_def)

lemma mark_ack_self: "f \<in> set fs \<Longrightarrow> acked f \<in> set (mark_ack (counter f) fs)"
  by (force simp: mark_ack_def)

lemma update_frame_ack:
  assumes "pending_list ltr = []" "distinct (map counter (inflight_list ltr @ done_list ltr))" "f \<in> set (inflight_list ltr)"
  shows "update_frame (counter f) (\<lambda>f. f\<lparr>ack := True\<rparr>) ltr = ltr\<lparr>inflight_list := mark_ack (counter f) (inflight_list ltr)\<rparr>"
proof -
  have "map (\<lambda>g. if counter g = counter f then u g else g) xs = xs" if "counter f \<notin> counter ` set xs" for xs :: "LTRFrame list" and u
    using that by (induction xs) auto
  moreover have "counter f \<notin> counter ` set (done_list ltr)" using assms(2,3) by auto
  ultimately show ?thesis using assms(1) by (simp add: update_frame_def mark_ack_def acked_def Let_def)
qed

lemma ack_chain_cases:
  "dropWhile (\<lambda>r. counter r \<noteq> reference_frame_counter f) P = [] \<Longrightarrow> ack_chain f P = [f]"
  "dropWhile (\<lambda>r. counter r \<noteq> reference_frame_counter f) P = r # rest \<Longrightarrow> ack_chain f P = f # ack_chain r rest"
  by (simp_all only: ack_chain.simps [of f P] list.case)

lemma drop_to_ref:
  assumes "dropWhile (\<lambda>r. counter r \<noteq> c) P = r # rest"
  shows "P = takeWhile (\<lambda>r. counter r \<noteq> c) P @ r # rest" "counter r = c"
proof -
  show "P = takeWhile (\<lambda>r. counter r \<noteq> c) P @ r # rest"
    using takeWhile_dropWhile_id [of "\<lambda>r. counter r \<noteq> c" P] assms by simp
  show "counter r = c" using hd_dropWhile [of "\<lambda>r. counter r \<noteq> c" P] assms by simp
qed

lemma ack_chain_set: "set (ack_chain f P) \<subseteq> insert f (set P)"
proof (induction f P rule: ack_chain.induct)
  case (1 f P)
  show ?case
  proof (cases "dropWhile (\<lambda>r. counter r \<noteq> reference_frame_counter f) P")
    case (Cons r rest)
    have "insert r (set rest) \<subseteq> set P" using arg_cong [OF drop_to_ref(1) [OF Cons], of set] by auto
    with 1 [OF Cons] show ?thesis unfolding ack_chain_cases(2) [OF Cons] by auto
  qed (simp add: ack_chain_cases(1))
qed

lemma drop_counters:
  "dropWhile (\<lambda>r. r \<noteq> c) (map counter P) = map counter (dropWhile (\<lambda>r. counter r \<noteq> c) P)"
  by (simp add: dropWhile_map comp_def)

text \<open>The whole of an acknowledgement: the chain is marked and moved, the oldest frame first.\<close>

lemma ack_run:
  assumes "pending_list ltr = []" "distinct (map counter (inflight_list ltr @ done_list ltr))"
    and "set (f # P) \<subseteq> set (inflight_list ltr)" "distinct (map counter (f # P))" "\<forall>g \<in> set (f # P). \<not> ack g \<and> \<not> nack g"
  shows "ltr_ack_frame_internal ltr (counter f) (map counter P) =
    Some ((fold ack_flags (ack_chain f P) ltr)
      \<lparr>inflight_list := filter (\<lambda>g. counter g \<notin> counter ` set (ack_chain f P)) (inflight_list ltr),
       done_list := done_list ltr @ rev (map acked (ack_chain f P))\<rparr>)"
  using assms
proof (induction f P arbitrary: ltr rule: ack_chain.induct)
  case (1 f P)
  let ?c = "counter f"
  note d = 1(3)
  have fin: "f \<in> set (inflight_list ltr)" using 1(4) by simp
  have ff: "find_frame ltr ?c = Some f" using find_frame_eq [OF 1(2) d, of f] fin by simp
  define v where "v = (ack_flags f ltr)\<lparr>inflight_list := mark_ack ?c (inflight_list ltr)\<rparr>"
  have up: "ack_flags f (update_frame ?c (\<lambda>f. f\<lparr>ack := True\<rparr>) ltr) = v"
    using update_frame_ack [OF 1(2) d fin] by (simp add: v_def)
  have vl: "pending_list v = []" "distinct (map counter (inflight_list v @ done_list v))" "done_list v = done_list ltr"
    "inflight_list v = mark_ack ?c (inflight_list ltr)"
    using 1(2) d by (simp_all add: v_def)
  have dv: "distinct (map counter (inflight_list v))" using vl(2) by simp
  have one: "find (\<lambda>g. counter g = ?c) (filter (\<lambda>g. counter g \<notin> D) (inflight_list v)) = Some (acked f)" if "?c \<notin> D" for D
    using find_unique [of "filter (\<lambda>g. counter g \<notin> D) (inflight_list v)" "acked f"] distinct_map_filter [OF dv]
      mark_ack_self [OF fin] that by (simp add: vl(4))
  show ?case
  proof (cases "dropWhile (\<lambda>r. counter r \<noteq> reference_frame_counter f) P")
    case Nil
    have "move_to_done v ?c = Some (v\<lparr>inflight_list := filter (\<lambda>g. counter g \<notin> {?c}) (inflight_list ltr), done_list := done_list ltr @ [acked f]\<rparr>)"
      using one [of "{}"] mark_ack_simps(2) [of ?c "{}" "inflight_list ltr"] by (simp add: move_to_done_def vl)
    moreover have "dropWhile (\<lambda>r. r \<noteq> reference_frame_counter f) (map counter P) = []"
      by (simp only: drop_counters Nil list.map)
    ultimately show ?thesis
      using ff up 1(6) unfolding ack_chain_cases(1) [OF Nil]
      by (simp add: ltr_ack_frame_internal.simps [of ltr ?c] Let_def del: dropWhile_eq_Nil_conv) (simp add: v_def)
  next
    case (Cons r rest)
    have P: "P = takeWhile (\<lambda>r. counter r \<noteq> reference_frame_counter f) P @ r # rest" by (rule drop_to_ref(1) [OF Cons])
    let ?C = "ack_chain r rest"
    have sub: "set (r # rest) \<subseteq> set P" "distinct (map counter (r # rest))"
      using arg_cong [OF P, of set] arg_cong [OF P, of "\<lambda>p. distinct (map counter p)"] 1(5) by auto
    have nf: "?c \<notin> counter ` set (r # rest)" using 1(5) sub(1) by auto
    have "set (r # rest) \<subseteq> set (inflight_list v)"
    proof
      fix g assume g: "g \<in> set (r # rest)"
      then have "g \<in> set (inflight_list ltr)" "counter g \<noteq> ?c" using sub(1) 1(4) nf by (auto simp: image_iff)
      then show "g \<in> set (inflight_list v)" by (simp add: vl(4) mark_ack_other)
    qed
    from 1(1) [OF Cons vl(1,2) this sub(2)] 1(6) sub(1)
    have IH: "ltr_ack_frame_internal v (counter r) (map counter rest) = Some ((fold ack_flags ?C v)
      \<lparr>inflight_list := filter (\<lambda>g. counter g \<notin> counter ` set ?C) (inflight_list v),
       done_list := done_list ltr @ rev (map acked ?C)\<rparr>)" (is "_ = Some ?w") using vl(3) by auto
    have nC: "?c \<notin> counter ` set ?C" using nf ack_chain_set [of r rest] by auto
    have "filter (\<lambda>g. counter g \<noteq> ?c \<and> counter g \<notin> counter ` set ?C) (inflight_list v) =
      filter (\<lambda>g. counter g \<noteq> ?c \<and> counter g \<notin> counter ` set ?C) (inflight_list ltr)"
      using mark_ack_simps(2) [of ?c "counter ` set ?C" "inflight_list ltr"] by (simp add: vl(4))
    then have "move_to_done ?w ?c = Some (?w\<lparr>inflight_list := filter (\<lambda>g. counter g \<noteq> ?c \<and> counter g \<notin> counter ` set ?C) (inflight_list ltr),
      done_list := done_list ltr @ rev (map acked ?C) @ [acked f]\<rparr>)"
      using one [OF nC] by (simp add: move_to_done_def conj_commute)
    moreover have "fold ack_flags ?C v = (fold ack_flags (f # ?C) ltr)\<lparr>inflight_list := mark_ack ?c (inflight_list ltr)\<rparr>"
      by (simp add: v_def fold_ack_flags)
    ultimately show ?thesis
      using ff up Cons IH 1(6) unfolding ack_chain_cases(2) [OF Cons]
      by (simp add: ltr_ack_frame_internal.simps [of ltr ?c] drop_counters Let_def)
  qed
qed

end
