(* ===== verification/Ltr_Reach.thy ===== *)
theory Ltr_Reach
  imports Ltr
begin

text \<open>
  The long-term reference state along every sequence of calls. A ghost record keeps what the C
  program does not: which frame each frame was encoded against, what the decoder's long-term slots hold (by the
  documentation of \<^verbatim>\<open>VideoFrameType\<close> in \<^verbatim>\<open>protocol/whist/video/video.h\<close>), and which reports the client sent. The
  invariant relates these to the flags and lists, and every call preserves it.
\<close>

section \<open>The history of a stream\<close>

record ltr_world =
  w_state :: LTRState
  w_slots :: "int \<Rightarrow> nat"
  w_refs :: "nat \<Rightarrow> nat"
  w_received :: "nat set"
  w_lost :: "nat set"

text \<open>A frame depends on itself and on whatever its reference depends on; 0 is no reference.\<close>

inductive depends :: "(nat \<Rightarrow> nat) \<Rightarrow> nat \<Rightarrow> nat \<Rightarrow> bool" for refs where
  refl: "depends refs c c"
| step: "refs c \<noteq> 0 \<Longrightarrow> depends refs (refs c) d \<Longrightarrow> depends refs c d"

definition confirmed :: "ltr_world \<Rightarrow> nat set" where
  "confirmed w = {a. \<exists>b \<in> w_received w. depends (w_refs w) b a}"

definition dead :: "ltr_world \<Rightarrow> nat set" where
  "dead w = {c. \<exists>b \<in> w_lost w. depends (w_refs w) c b}"

definition store_slots :: "LTRAction \<Rightarrow> nat \<Rightarrow> (int \<Rightarrow> nat) \<Rightarrow> int \<Rightarrow> nat" where
  "store_slots act n slots =
     (case frame_type act of
        INTRA_FRAME \<Rightarrow> (\<lambda>i. if i = 0 then n else 0)
      | CREATE_LONG_TERM \<Rightarrow> slots(long_term_frame_index act := n)
      | _ \<Rightarrow> slots)"

definition world_create :: ltr_world where
  "world_create = \<lparr>w_state = ltr_create, w_slots = (\<lambda>_. 0), w_refs = (\<lambda>_. 0), w_received = {}, w_lost = {}\<rparr>"

inductive ltr_step :: "ltr_world \<Rightarrow> ltr_world \<Rightarrow> bool" where
  next_action:
    "ltr_get_next_action (w_state w) fid = (s, act, 0) \<Longrightarrow>
     ltr_step w (w\<lparr>w_state := s, w_slots := store_slots act (frame_counter s) (w_slots w),
       w_refs := (w_refs w)(frame_counter s := reference_frame_counter (last (inflight_list s)))\<rparr>)"
| received:
    "ltr_find_frame_by_id (w_state w) fid = Some c \<Longrightarrow> ltr_mark_frame_received (w_state w) fid = Some (s, 0) \<Longrightarrow>
     ltr_step w (w\<lparr>w_state := s, w_received := insert c (w_received w)\<rparr>)"
| not_received:
    "ltr_find_frame_by_id (w_state w) fid = Some c \<Longrightarrow> ltr_mark_frame_not_received (w_state w) fid = Some (s, 0) \<Longrightarrow>
     ltr_step w (w\<lparr>w_state := s, w_lost := insert c (w_lost w)\<rparr>)"
| broken:
    "inflight_list (w_state w) \<noteq> [] \<Longrightarrow> ltr_mark_stream_broken (w_state w) = Some s \<Longrightarrow>
     ltr_step w (w\<lparr>w_state := s, w_lost := insert (counter (last (inflight_list (w_state w)))) (w_lost w)\<rparr>)"
| broken_idle:
    "inflight_list (w_state w) = [] \<Longrightarrow> ltr_mark_stream_broken (w_state w) = Some s \<Longrightarrow>
     ltr_step w (w\<lparr>w_state := s\<rparr>)"
| force_intra: "ltr_step w (w\<lparr>w_state := ltr_force_intra (w_state w)\<rparr>)"

inductive ltr_reach :: "ltr_world \<Rightarrow> bool" where
  start: "ltr_reach world_create"
| call: "ltr_reach w \<Longrightarrow> ltr_step w w' \<Longrightarrow> ltr_reach w'"

section \<open>The invariant\<close>

text \<open>References as they are made: none, the previous frame, or a confirmed frame.\<close>

definition frame_ok :: "nat set \<Rightarrow> (nat \<Rightarrow> nat) \<Rightarrow> LTRFrame \<Rightarrow> bool" where
  "frame_ok A refs f \<longleftrightarrow> refs (counter f) = reference_frame_counter f \<and>
     (case frame_type (action f) of
        INTRA_FRAME \<Rightarrow> reference_frame_counter f = 0
      | REFER_LONG_TERM \<Rightarrow> reference_frame_counter f \<in> A
      | _ \<Rightarrow> reference_frame_counter f = counter f - 1)"

text \<open>What the flags say about the long-term slots, for a set \<open>S\<close> of frames in flight and a set \<open>A\<close> of confirmed ones.\<close>

definition flags_ok :: "nat set \<Rightarrow> (int \<Rightarrow> nat) \<Rightarrow> LTRFrame set \<Rightarrow> LTRState \<Rightarrow> bool" where
  "flags_ok A slots S ltr \<longleftrightarrow>
     (have_good_long_term_frame ltr \<longrightarrow>
        good_long_term_frame_counter ltr \<in> A \<and> good_long_term_frame_index ltr \<in> {0, 1} \<and>
        slots (good_long_term_frame_index ltr) = good_long_term_frame_counter ltr) \<and>
     (\<forall>f \<in> S. intra_frame_counter ltr \<le> counter f \<and> frame_type (action f) = INTRA_FRAME \<longrightarrow>
        \<not> have_good_long_term_frame ltr \<and> long_term_frame_index (action f) = 0 \<and> slots 0 = counter f) \<and>
     (\<forall>f \<in> S. intra_frame_counter ltr \<le> counter f \<and> frame_type (action f) = CREATE_LONG_TERM \<longrightarrow>
        have_good_long_term_frame ltr \<and>
        (counter f = create_long_term_frame_counter ltr \<longrightarrow>
           long_term_frame_index (action f) = (if good_long_term_frame_index ltr = 0 then 1 else 0) \<and>
           slots (long_term_frame_index (action f)) = counter f))"

definition flying :: "ltr_world \<Rightarrow> nat set" where
  "flying w = counter ` set (inflight_list (w_state w))"

definition refs_down :: "nat \<Rightarrow> (nat \<Rightarrow> nat) \<Rightarrow> bool" where
  "refs_down n refs \<longleftrightarrow> (\<forall>c. refs c = 0 \<or> (refs c < c \<and> c \<le> n))"

definition ltr_inv :: "ltr_world \<Rightarrow> bool" where
  "ltr_inv w \<longleftrightarrow> ltr_wf (w_state w) \<and> refs_down (frame_counter (w_state w)) (w_refs w) \<and>
     w_received w \<union> w_lost w \<subseteq> {1..frame_counter (w_state w)} \<and>
     (\<forall>f \<in> set (inflight_list (w_state w)). frame_ok (confirmed w) (w_refs w) f) \<and>
     flying w \<inter> dead w = {} \<and> confirmed w \<inter> flying w = {} \<and> confirmed w \<inter> dead w = {} \<and>
     (frame_counter (w_state w) \<in> dead w \<longrightarrow> last_frame_is_bad (w_state w)) \<and>
     (\<forall>d \<le> frame_counter (w_state w). \<forall>c \<in> flying w. depends (w_refs w) d c \<longrightarrow> d \<in> flying w \<or> d \<in> dead w) \<and>
     intra_frame_counter (w_state w) \<le> frame_counter (w_state w) \<and>
     create_long_term_frame_counter (w_state w) \<le> frame_counter (w_state w) \<and>
     flags_ok (confirmed w) (w_slots w) (set (inflight_list (w_state w))) (w_state w)"

section \<open>Dependence\<close>

lemma refs_downD: "refs_down n refs \<Longrightarrow> refs c \<noteq> 0 \<Longrightarrow> refs c < c \<and> c \<le> n"
  unfolding refs_down_def by metis

lemma depends_le: "depends refs c d \<Longrightarrow> refs_down n refs \<Longrightarrow> d \<le> c"
proof (induction rule: depends.induct)
  case (step c d)
  then show ?case using refs_downD [of n refs c] by simp
qed simp

lemma depends_pos: "depends refs c d \<Longrightarrow> 0 < c \<Longrightarrow> 0 < d"
  by (induction rule: depends.induct) auto

lemma depends_trans: "depends refs c d \<Longrightarrow> depends refs d e \<Longrightarrow> depends refs c e"
  by (induction rule: depends.induct) (auto intro: depends.step)

lemma depends_unfold: "depends refs c d \<longleftrightarrow> c = d \<or> refs c \<noteq> 0 \<and> depends refs (refs c) d"
  by (auto intro: depends.intros elim: depends.cases)

lemma dead_step: "w_refs w c \<noteq> 0 \<Longrightarrow> w_refs w c \<in> dead w \<Longrightarrow> c \<in> dead w"
  by (auto simp: dead_def intro: depends.step)

lemma depends_agree:
  assumes "depends refs c d" "refs_down n refs" "\<forall>c \<le> n. refs' c = refs c" "c \<le> n"
  shows "depends refs' c d"
  using assms
proof (induction rule: depends.induct)
  case (step c d)
  then have "refs' c = refs c" "refs c \<le> n" using refs_downD [of n refs c] by simp_all
  with step have "refs' c \<noteq> 0" "depends refs' (refs' c) d" by simp_all
  then show ?case by (rule depends.step)
qed (rule depends.refl)

lemma depends_agree_back:
  assumes "depends refs' c d" "refs_down n refs" "\<forall>c \<le> n. refs' c = refs c" "c \<le> n"
  shows "depends refs c d"
  using assms
proof (induction rule: depends.induct)
  case (step c d)
  then have eq: "refs' c = refs c" by simp
  then have "refs c \<noteq> 0" using step.hyps(1) by simp
  with refs_downD [OF step.prems(1) this] step.prems(3) have "refs c \<le> n" by simp
  then have "depends refs (refs c) d" using step.IH step.prems eq by simp
  with \<open>refs c \<noteq> 0\<close> show ?case by (rule depends.step)
qed (rule depends.refl)

lemma depends_upd:
  assumes "refs_down n refs" "c \<le> n"
  shows "depends (refs(Suc n := r)) c d = depends refs c d"
proof -
  have "\<forall>c \<le> n. (refs(Suc n := r)) c = refs c" by simp
  then show ?thesis using depends_agree [OF _ assms(1) _ assms(2)] depends_agree_back [OF _ assms(1) _ assms(2)] by blast
qed

section \<open>Making a frame\<close>

lemma trim_inflight_eq:
  "trim_inflight fs d = (drop (length fs - LTR_MAX_INFLIGHT_FRAMES) fs, d @ take (length fs - LTR_MAX_INFLIGHT_FRAMES) fs)"
  by (induction fs arbitrary: d) (auto simp: Suc_diff_le)

lemma trim_done_eq: "trim_done fs = drop (length fs - LTR_MAX_DONE_FRAMES) fs"
  by (induction fs) (auto simp: Suc_diff_le)

definition trimmed :: "LTRState \<Rightarrow> LTRState" where
  "trimmed ltr = ltr\<lparr>inflight_list := drop (length (inflight_list ltr) - LTR_MAX_INFLIGHT_FRAMES) (inflight_list ltr),
     done_list := trim_done (done_list ltr @ take (length (inflight_list ltr) - LTR_MAX_INFLIGHT_FRAMES) (inflight_list ltr))\<rparr>"

lemma clear_old: "ltr_clear_old_frames ltr = trimmed ltr"
  by (simp add: ltr_clear_old_frames_def trim_inflight_eq trimmed_def)

lemma trimmed_flags [simp]:
  "frame_counter (trimmed ltr) = frame_counter ltr" "pending_list (trimmed ltr) = pending_list ltr"
  "intra_frame_counter (trimmed ltr) = intra_frame_counter ltr"
  "create_long_term_frame_counter (trimmed ltr) = create_long_term_frame_counter ltr"
  "last_frame_is_bad (trimmed ltr) = last_frame_is_bad ltr"
  "have_good_long_term_frame (trimmed ltr) = have_good_long_term_frame ltr"
  "good_long_term_frame_counter (trimmed ltr) = good_long_term_frame_counter ltr"
  "good_long_term_frame_index (trimmed ltr) = good_long_term_frame_index ltr"
  by (simp_all add: trimmed_def)

lemma distinct_append_drop: "distinct (xs @ ys) \<Longrightarrow> distinct (xs @ drop k ys)"
  using set_drop_subset [of k ys] by (auto simp: distinct_drop)

lemma trimmed_lists:
  assumes "ltr_wf ltr"
  shows "ltr_wf (trimmed ltr)" "set (inflight_list (trimmed ltr)) \<subseteq> set (inflight_list ltr)"
    and "f \<in> set (inflight_list ltr) \<Longrightarrow> g \<in> set (inflight_list (trimmed ltr)) \<Longrightarrow> counter g \<le> counter f \<Longrightarrow>
      f \<in> set (inflight_list (trimmed ltr))"
proof -
  let ?k = "length (inflight_list ltr) - LTR_MAX_INFLIGHT_FRAMES"
  let ?I = "inflight_list ltr" and ?D = "done_list ltr"
  have spl: "?I = take ?k ?I @ drop ?k ?I" by simp
  have srt: "sorted_wrt (<) (map counter (take ?k ?I @ drop ?k ?I))" using assms by (simp add: ltr_wf_def)
  show sub: "set (inflight_list (trimmed ltr)) \<subseteq> set (inflight_list ltr)" by (simp add: trimmed_def set_drop_subset)
  have subd: "set (done_list (trimmed ltr)) \<subseteq> set ?D \<union> set ?I"
    using set_drop_subset set_take_subset by (fastforce simp: trimmed_def trim_done_eq)
  have "distinct (map counter (drop ?k ?I @ trim_done (?D @ take ?k ?I)))"
  proof -
    have "mset (map counter (drop ?k ?I @ ?D @ take ?k ?I)) = mset (map counter (?I @ ?D))"
      by (subst (4) spl) (simp only: map_append mset_append ac_simps)
    then have "distinct (map counter (drop ?k ?I) @ map counter (?D @ take ?k ?I))"
      using assms mset_eq_imp_distinct_iff unfolding ltr_wf_def map_append by blast
    from distinct_append_drop [OF this] show ?thesis
      unfolding trim_done_eq by (simp only: map_append drop_map [symmetric])
  qed
  then have dist: "distinct (map counter (inflight_list (trimmed ltr) @ done_list (trimmed ltr)))" by (simp add: trimmed_def)
  have "sorted_wrt (<) (map counter (inflight_list (trimmed ltr)))"
    using srt unfolding map_append sorted_wrt_append by (simp add: trimmed_def)
  then show "ltr_wf (trimmed ltr)"
    using assms dist sub subd unfolding ltr_wf_def by (simp only: trimmed_flags set_append) blast
  show "f \<in> set (inflight_list (trimmed ltr))" if f: "f \<in> set ?I" and g: "g \<in> set (inflight_list (trimmed ltr))" "counter g \<le> counter f"
  proof (rule ccontr)
    assume "f \<notin> set (inflight_list (trimmed ltr))"
    with f have "f \<in> set (take ?k ?I)" by (metis Un_iff set_append spl trimmed_def LTRState.select_convs(2) LTRState.update_convs(2,3) LTRState.surjective)
    with g(1) srt have "counter f < counter g" unfolding map_append sorted_wrt_append by (simp add: trimmed_def)
    with g(2) show False by simp
  qed
qed


text \<open>What a call of \<^verbatim>\<open>ltr_get_next_action\<close> does, by the type of the frame that it chooses.\<close>

definition next_effect :: "LTRState \<Rightarrow> LTRState \<Rightarrow> LTRAction \<Rightarrow> LTRFrame \<Rightarrow> bool" where
  "next_effect s s' act n \<longleftrightarrow>
     counter n = Suc (frame_counter s) \<and> \<not> ack n \<and> \<not> nack n \<and> action n = act \<and>
     inflight_list s' = inflight_list (trimmed s) @ [n] \<and> done_list s' = done_list (trimmed s) \<and>
     pending_list s' = [] \<and> frame_counter s' = Suc (frame_counter s) \<and> \<not> last_frame_is_bad s' \<and>
     (case frame_type act of
        INTRA_FRAME \<Rightarrow> long_term_frame_index act = 0 \<and> reference_frame_counter n = 0 \<and>
          intra_frame_counter s' = Suc (frame_counter s) \<and> \<not> have_good_long_term_frame s'
      | REFER_LONG_TERM \<Rightarrow> have_good_long_term_frame s \<and> long_term_frame_index act = good_long_term_frame_index s \<and>
          reference_frame_counter n = good_long_term_frame_counter s
      | CREATE_LONG_TERM \<Rightarrow> have_good_long_term_frame s \<and> \<not> last_frame_is_bad s \<and>
          long_term_frame_index act = (if good_long_term_frame_index s = 0 then 1 else 0) \<and>
          reference_frame_counter n = frame_counter s
      | NORMAL_FRAME \<Rightarrow> \<not> last_frame_is_bad s \<and> reference_frame_counter n = frame_counter s) \<and>
     (frame_type act \<noteq> INTRA_FRAME \<longrightarrow> frame_counter s \<noteq> 0 \<and> intra_frame_counter s' = intra_frame_counter s \<and>
        have_good_long_term_frame s' = have_good_long_term_frame s \<and>
        good_long_term_frame_index s' = good_long_term_frame_index s \<and>
        good_long_term_frame_counter s' = good_long_term_frame_counter s) \<and>
     create_long_term_frame_counter s' =
       (if frame_type act = CREATE_LONG_TERM then Suc (frame_counter s) else create_long_term_frame_counter s)"

definition sent_frame :: "LTRAction \<Rightarrow> nat \<Rightarrow> nat \<Rightarrow> 32 word \<Rightarrow> LTRFrame" where
  "sent_frame act c ref fid = \<lparr>action = act, counter = c, reference_frame_counter = ref,
     ltr_frame_id = fid, sent = True, ack = False, nack = False\<rparr>"

lemma sent_frame_simps [simp]:
  "action (sent_frame act c ref fid) = act" "counter (sent_frame act c ref fid) = c"
  "reference_frame_counter (sent_frame act c ref fid) = ref" "\<not> ack (sent_frame act c ref fid)"
  "\<not> nack (sent_frame act c ref fid)"
  by (simp_all add: sent_frame_def)

lemma get_next_eq:
  assumes "pending_list s = []" "choose_action (trimmed s) = (u, act, ref)"
  shows "ltr_get_next_action s fid =
    ((note_action (u\<lparr>frame_counter := frame_counter u + 1\<rparr>) (sent_frame act (frame_counter u + 1) ref fid))
       \<lparr>pending_list := [], inflight_list := inflight_list u @ [sent_frame act (frame_counter u + 1) ref fid]\<rparr>, act, 0)"
proof -
  have "pending_list u = []" using assms by (auto simp: choose_action_def split: if_splits)
  then show ?thesis
    by (cases "frame_type act") (simp_all add: ltr_get_next_action_def ltr_pick_next_action_def clear_old Let_def assms(2)
        ltr_mark_frame_sent_def note_action_def sent_frame_def)
qed

lemma choose_action_cases:
  assumes "choose_action t = (u, a, ref)"
  obtains "u = t\<lparr>intra_frame_needed := False, last_frame_is_bad := False\<rparr>" "ref = 0"
      "a = \<lparr>frame_type = INTRA_FRAME, long_term_frame_index = 0\<rparr>"
    | "frame_counter t \<noteq> 0" "have_good_long_term_frame t" "u = t\<lparr>last_frame_is_bad := False\<rparr>" "ref = good_long_term_frame_counter t"
      "a = \<lparr>frame_type = REFER_LONG_TERM, long_term_frame_index = good_long_term_frame_index t\<rparr>"
    | "frame_counter t \<noteq> 0" "have_good_long_term_frame t" "\<not> last_frame_is_bad t" "u = t" "ref = frame_counter t"
      "a = \<lparr>frame_type = CREATE_LONG_TERM, long_term_frame_index = (if good_long_term_frame_index t = 0 then 1 else 0)\<rparr>"
    | "frame_counter t \<noteq> 0" "\<not> last_frame_is_bad t" "u = t" "ref = frame_counter t"
      "a = \<lparr>frame_type = NORMAL_FRAME, long_term_frame_index = 0\<rparr>"
proof -
  let ?intra = "frame_counter t = 0 \<or> intra_frame_needed t \<or>
     (\<not> have_good_long_term_frame t \<and> frame_counter t + 1 - intra_frame_counter t \<ge> LTR_NEW_INTRA_FRAME_DELAY) \<or>
     (last_frame_is_bad t \<and> \<not> have_good_long_term_frame t)"
  let ?create = "have_good_long_term_frame t \<and> \<not> refer_long_term_outstanding t \<and> \<not> create_long_term_outstanding t"
  consider ?intra | "\<not> ?intra" "last_frame_is_bad t" | "\<not> ?intra" "\<not> last_frame_is_bad t" ?create
    | "\<not> ?intra" "\<not> last_frame_is_bad t" "\<not> ?create" by blast
  then show thesis
  proof cases
    case 1
    then show thesis using that(1) assms unfolding choose_action_def if_P [OF 1] by (simp only: prod.inject)
  next
    case 2
    then show thesis using that(2) assms unfolding choose_action_def if_not_P [OF 2(1)] by auto
  next
    case 3
    then show thesis using that(3) assms unfolding choose_action_def if_not_P [OF 3(1)] by auto
  next
    case 4
    then show thesis using that(4) assms unfolding choose_action_def if_not_P [OF 4(1)] by auto
  qed
qed

lemma next_action_effect:
  assumes "pending_list s = []" "ltr_get_next_action s fid = (s', act, r)"
  shows "r = 0" "next_effect s s' act (last (inflight_list s'))"
proof -
  obtain u a ref where c: "choose_action (trimmed s) = (u, a, ref)" by (cases "choose_action (trimmed s)")
  note eq = get_next_eq [OF assms(1) c, of fid, unfolded assms(2)]
  show "r = 0" using eq by simp
  have act: "act = a" using eq by simp
  have s': "s' = (note_action (u\<lparr>frame_counter := frame_counter u + 1\<rparr>) (sent_frame a (frame_counter u + 1) ref fid))
       \<lparr>pending_list := [], inflight_list := inflight_list u @ [sent_frame a (frame_counter u + 1) ref fid]\<rparr>" using eq by simp
  from c show "next_effect s s' act (last (inflight_list s'))"
    by (cases rule: choose_action_cases) (simp_all add: next_effect_def note_action_def act s')
qed


lemma confirmed_upd:
  assumes "refs_down n (w_refs w)" "w_received w \<subseteq> {1..n}"
  shows "confirmed (w\<lparr>w_state := s, w_slots := sl, w_refs := (w_refs w)(Suc n := r)\<rparr>) = confirmed w"
  using assms depends_upd [OF assms(1)] by (fastforce simp: confirmed_def)

lemma dead_upd:
  assumes "refs_down n (w_refs w)" "w_lost w \<subseteq> {1..n}" "r \<le> n" "r = 0 \<or> r \<notin> dead w"
  shows "dead (w\<lparr>w_state := s, w_slots := sl, w_refs := (w_refs w)(Suc n := r)\<rparr>) = dead w"
proof -
  let ?refs = "(w_refs w)(Suc n := r)"
  have "depends ?refs c b = depends (w_refs w) c b" if b: "b \<in> w_lost w" for c b
  proof -
    consider "c \<le> n" | "c = Suc n" | "c > Suc n" by linarith
    then show ?thesis
    proof cases
      case 2
      have "\<not> depends (w_refs w) (Suc n) b" "b \<noteq> Suc n"
        using refs_downD [OF assms(1), of "Suc n"] b assms(2) by (auto simp: depends_unfold [of _ "Suc n"])
      moreover have "\<not> depends ?refs (Suc n) b"
        using depends_upd [OF assms(1,3)] assms(4) b \<open>b \<noteq> Suc n\<close> unfolding depends_unfold [of ?refs "Suc n"]
        by (auto simp: dead_def)
      ultimately show ?thesis using 2 by simp
    next
      case 3
      then have "w_refs w c = 0" "?refs c = 0" using refs_downD [OF assms(1), of c] by auto
      then show ?thesis by (simp only: depends_unfold [of _ c]) simp
    qed (rule depends_upd [OF assms(1)])
  qed
  then show ?thesis by (auto simp: dead_def)
qed

lemma frame_ok_upd:
  "counter f \<le> n \<Longrightarrow> frame_ok A (refs(Suc n := r)) f = frame_ok A refs f"
  by (simp add: frame_ok_def)

lemma flags_ok_mono:
  "flags_ok A slots S ltr \<Longrightarrow> S' \<subseteq> S \<Longrightarrow> A \<subseteq> A' \<Longrightarrow> flags_ok A' slots S' ltr"
  unfolding flags_ok_def by blast

lemma refs_down_upd:
  assumes "refs_down n refs" "r \<le> n"
  shows "refs_down (Suc n) (refs(Suc n := r))"
  unfolding refs_down_def
proof
  fix c
  show "(refs(Suc n := r)) c = 0 \<or> (refs(Suc n := r)) c < c \<and> c \<le> Suc n"
    using assms refs_downD [OF assms(1), of c] by auto
qed

text \<open>The flags describe the slots after a new frame has been put into them.\<close>

lemma flags_ok_next:
  assumes eff: "next_effect s s' act n" and ok: "flags_ok A slots (set (inflight_list (trimmed s))) s"
    and old: "\<forall>f \<in> set (inflight_list (trimmed s)). counter f \<le> frame_counter s"
    and cr: "create_long_term_frame_counter s \<le> frame_counter s"
  shows "flags_ok A (store_slots act (Suc (frame_counter s)) slots) (set (inflight_list s')) s'"
proof -
  let ?S = "set (inflight_list (trimmed s))"
  have S: "set (inflight_list s') = insert n ?S" using eff by (simp add: next_effect_def)
  have n: "counter n = Suc (frame_counter s)" "action n = act" using eff by (simp_all add: next_effect_def)
  note e = eff [unfolded next_effect_def]
  show ?thesis
  proof (cases "frame_type act")
    case INTRA_FRAME
    then have i: "intra_frame_counter s' = Suc (frame_counter s)" "\<not> have_good_long_term_frame s'" "long_term_frame_index act = 0"
      using e by simp_all
    have "\<not> intra_frame_counter s' \<le> counter f" if "f \<in> ?S" for f using old that i(1) by fastforce
    then show ?thesis using INTRA_FRAME i n unfolding flags_ok_def S by (auto simp: store_slots_def)
  next
    case CREATE_LONG_TERM
    then have i: "intra_frame_counter s' = intra_frame_counter s" "have_good_long_term_frame s" "have_good_long_term_frame s'"
        "good_long_term_frame_index s' = good_long_term_frame_index s" "good_long_term_frame_counter s' = good_long_term_frame_counter s"
        "long_term_frame_index act = (if good_long_term_frame_index s = 0 then 1 else 0)"
        "create_long_term_frame_counter s' = Suc (frame_counter s)"
      using e by simp_all
    have "counter f \<noteq> Suc (frame_counter s)" if "f \<in> ?S" for f using old that by fastforce
    then show ?thesis using CREATE_LONG_TERM i n ok unfolding flags_ok_def S by (auto simp: store_slots_def)
  next
    case NORMAL_FRAME
    then have i: "intra_frame_counter s' = intra_frame_counter s" "have_good_long_term_frame s' = have_good_long_term_frame s"
        "good_long_term_frame_index s' = good_long_term_frame_index s" "good_long_term_frame_counter s' = good_long_term_frame_counter s"
        "create_long_term_frame_counter s' = create_long_term_frame_counter s"
      using e by simp_all
    then show ?thesis using NORMAL_FRAME n ok unfolding flags_ok_def S by (auto simp: store_slots_def)
  next
    case REFER_LONG_TERM
    then have i: "intra_frame_counter s' = intra_frame_counter s" "have_good_long_term_frame s' = have_good_long_term_frame s"
        "good_long_term_frame_index s' = good_long_term_frame_index s" "good_long_term_frame_counter s' = good_long_term_frame_counter s"
        "create_long_term_frame_counter s' = create_long_term_frame_counter s"
      using e by simp_all
    then show ?thesis using REFER_LONG_TERM n ok unfolding flags_ok_def S by (auto simp: store_slots_def)
  qed
qed


lemma ltr_invD:
  assumes "ltr_inv w"
  shows "ltr_wf (w_state w)" "refs_down (frame_counter (w_state w)) (w_refs w)"
    "w_received w \<subseteq> {1..frame_counter (w_state w)}" "w_lost w \<subseteq> {1..frame_counter (w_state w)}"
    "\<forall>f \<in> set (inflight_list (w_state w)). frame_ok (confirmed w) (w_refs w) f"
    "flying w \<inter> dead w = {}" "confirmed w \<inter> flying w = {}" "confirmed w \<inter> dead w = {}"
    "frame_counter (w_state w) \<in> dead w \<Longrightarrow> last_frame_is_bad (w_state w)"
    "\<And>d c. d \<le> frame_counter (w_state w) \<Longrightarrow> c \<in> flying w \<Longrightarrow> depends (w_refs w) d c \<Longrightarrow> d \<in> flying w \<or> d \<in> dead w"
    "intra_frame_counter (w_state w) \<le> frame_counter (w_state w)"
    "create_long_term_frame_counter (w_state w) \<le> frame_counter (w_state w)"
    "flags_ok (confirmed w) (w_slots w) (set (inflight_list (w_state w))) (w_state w)"
  using assms unfolding ltr_inv_def by (simp_all only: Un_subset_iff) blast

lemma wf_counters:
  "ltr_wf s \<Longrightarrow> f \<in> set (inflight_list s @ done_list s) \<Longrightarrow> 1 \<le> counter f \<and> counter f \<le> frame_counter s"
  unfolding ltr_wf_def by blast

lemma wf_append:
  assumes "ltr_wf t" "inflight_list s = inflight_list t @ [n]" "done_list s = done_list t" "pending_list s = []"
    and "frame_counter s = Suc (frame_counter t)" "counter n = Suc (frame_counter t)" "\<not> ack n" "\<not> nack n"
  shows "ltr_wf s"
proof -
  have lt: "counter f < counter n" if "f \<in> set (inflight_list t) \<union> set (done_list t)" for f
    using wf_counters [OF assms(1), of f] that assms(6) by simp
  have "sorted_wrt (<) (map counter (inflight_list s))" using assms(1) lt by (simp add: assms(2) sorted_wrt_append ltr_wf_def)
  moreover have "distinct (map counter (inflight_list s @ done_list s))"
  proof -
    have "counter n \<notin> counter ` (set (inflight_list t) \<union> set (done_list t))" using lt by fastforce
    then show ?thesis using assms(1) by (simp add: assms(2,3) ltr_wf_def image_Un)
  qed
  moreover have "\<forall>f \<in> set (inflight_list s @ done_list s). 1 \<le> counter f \<and> counter f \<le> frame_counter s"
    using wf_counters [OF assms(1)] assms(5,6) by (auto simp: assms(2,3) le_Suc_eq)
  moreover have "\<forall>f \<in> set (inflight_list s). \<not> ack f \<and> \<not> nack f" using assms(1,7,8) by (simp add: assms(2) ltr_wf_def)
  ultimately show ?thesis using assms(4) by (simp add: ltr_wf_def)
qed

lemma confirmed_bound:
  assumes "ltr_inv w" "a \<in> confirmed w"
  shows "1 \<le> a" "a \<le> frame_counter (w_state w)"
proof -
  obtain b where b: "b \<in> w_received w" "depends (w_refs w) b a" using assms(2) by (auto simp: confirmed_def)
  then have "1 \<le> b" "b \<le> frame_counter (w_state w)" using ltr_invD(3) [OF assms(1)] by auto
  then show "1 \<le> a" "a \<le> frame_counter (w_state w)"
    using depends_le [OF b(2) ltr_invD(2) [OF assms(1)]] depends_pos [OF b(2)] by auto
qed

text \<open>A frame never refers to a frame that is known to be undecodable.\<close>

lemma next_reference:
  assumes inv: "ltr_inv w" and eff: "next_effect (w_state w) s' act n"
  shows "reference_frame_counter n \<le> frame_counter (w_state w)"
    and "reference_frame_counter n = 0 \<or> reference_frame_counter n \<notin> dead w"
    and "frame_ok (confirmed w) ((w_refs w)(Suc (frame_counter (w_state w)) := reference_frame_counter n)) n"
proof -
  let ?s = "w_state w"
  have good: "good_long_term_frame_counter ?s \<in> confirmed w" if "have_good_long_term_frame ?s"
    using ltr_invD(13) [OF inv] that by (simp add: flags_ok_def)
  have n: "counter n = Suc (frame_counter ?s)" "action n = act" using eff by (simp_all add: next_effect_def)
  show "reference_frame_counter n \<le> frame_counter ?s"
    using eff confirmed_bound(2) [OF inv good] by (cases "frame_type act") (simp_all add: next_effect_def)
  show "reference_frame_counter n = 0 \<or> reference_frame_counter n \<notin> dead w"
    using eff good ltr_invD(8,9) [OF inv] by (cases "frame_type act") (auto simp: next_effect_def)
  show "frame_ok (confirmed w) ((w_refs w)(Suc (frame_counter ?s) := reference_frame_counter n)) n"
    using eff good n by (cases "frame_type act") (simp_all add: next_effect_def frame_ok_def)
qed

lemma inv_next:
  assumes inv: "ltr_inv w" and call: "ltr_get_next_action (w_state w) fid = (s', act, r)"
  shows "ltr_inv (w\<lparr>w_state := s', w_slots := store_slots act (frame_counter s') (w_slots w),
       w_refs := (w_refs w)(frame_counter s' := reference_frame_counter (last (inflight_list s')))\<rparr>)"
proof -
  obtain n where n: "last (inflight_list s') = n" by blast
  let ?s = "w_state w"
  let ?fc = "frame_counter (w_state w)"
  note i = ltr_invD [OF inv]
  have "pending_list ?s = []" using i(1) by (simp add: ltr_wf_def)
  note eff = next_action_effect(2) [OF this call, unfolded n]
  have e: "counter n = Suc ?fc" "\<not> ack n" "\<not> nack n" "inflight_list s' = inflight_list (trimmed ?s) @ [n]"
      "done_list s' = done_list (trimmed ?s)" "pending_list s' = []" "frame_counter s' = Suc ?fc" "\<not> last_frame_is_bad s'"
    using eff by (simp_all add: next_effect_def)
  let ?r = "reference_frame_counter n"
  let ?w = "w\<lparr>w_state := s', w_slots := store_slots act (Suc ?fc) (w_slots w), w_refs := (w_refs w)(Suc ?fc := ?r)\<rparr>"
  note nr = next_reference [OF inv eff]
  have conf: "confirmed ?w = confirmed w" by (rule confirmed_upd [OF i(2,3)])
  have dead: "dead ?w = dead w" by (rule dead_upd [OF i(2,4) nr(1,2)])
  note tr = trimmed_lists [OF i(1)]
  have old: "counter f \<le> ?fc \<and> 1 \<le> counter f" if "f \<in> set (inflight_list (trimmed ?s) @ done_list (trimmed ?s))" for f
    using wf_counters [OF tr(1) that] by simp
  have fly: "flying ?w = insert (Suc ?fc) (counter ` set (inflight_list (trimmed ?s)))" using e(1) by (subst flying_def) (simp add: e(4))
  have flysub: "counter ` set (inflight_list (trimmed ?s)) \<subseteq> flying w" using tr(2) by (auto simp: flying_def)
  have lost_le: "c \<le> ?fc" if "c \<in> dead w" for c
  proof (rule ccontr)
    assume "\<not> c \<le> ?fc"
    then have "w_refs w c = 0" using refs_downD [OF i(2), of c] by auto
    with that have "c \<in> w_lost w" by (auto simp: dead_def depends_unfold [of _ c])
    with i(4) \<open>\<not> c \<le> ?fc\<close> show False by auto
  qed
  have "ltr_wf s'" using wf_append [OF tr(1) e(4,5,6) _ _ e(2,3)] e(1,7) by simp
  moreover have "flying ?w \<inter> dead w = {}" using flysub i(6) lost_le unfolding fly by fastforce
  moreover have "confirmed w \<inter> flying ?w = {}" using flysub i(7) confirmed_bound(2) [OF inv] unfolding fly by fastforce
  moreover have "\<forall>f \<in> set (inflight_list s'). frame_ok (confirmed w) ((w_refs w)(Suc ?fc := ?r)) f"
    using i(5) tr(2) nr(3) old unfolding e(4) by (auto simp: frame_ok_upd)
  moreover have "d \<in> flying ?w \<or> d \<in> dead w"
    if d: "d \<le> Suc ?fc" "c \<in> flying ?w" "depends ((w_refs w)(Suc ?fc := ?r)) d c" for d c
  proof (cases "d = Suc ?fc")
    case False
    with d(1) have le: "d \<le> ?fc" by simp
    with d(3) have dep: "depends (w_refs w) d c" using depends_upd [OF i(2) le] by simp
    have "c \<le> d" by (rule depends_le [OF dep i(2)])
    with d(2) le obtain g where g: "g \<in> set (inflight_list (trimmed ?s))" "counter g = c" unfolding fly by auto
    then have "c \<in> flying w" using flysub by auto
    from i(10) [OF le this dep] show ?thesis
    proof
      assume "d \<in> flying w"
      then obtain f where f: "f \<in> set (inflight_list ?s)" "counter f = d" by (auto simp: flying_def)
      with tr(3) [OF f(1) g(1)] g(2) \<open>c \<le> d\<close> show ?thesis unfolding fly by auto
    qed simp
  qed (simp add: fly)
  moreover have "flags_ok (confirmed w) (store_slots act (Suc ?fc) (w_slots w)) (set (inflight_list s')) s'"
    using old by (intro flags_ok_next [OF eff flags_ok_mono [OF i(13) tr(2)] _ i(12)]) auto
  moreover have "intra_frame_counter s' \<le> Suc ?fc" "create_long_term_frame_counter s' \<le> Suc ?fc"
    using eff i(11,12) by (cases "frame_type act"; simp add: next_effect_def)+
  moreover have "Suc ?fc \<notin> dead w" using lost_le by fastforce
  ultimately have "ltr_inv ?w"
    unfolding ltr_inv_def conf dead using i(3,4,8) refs_down_upd [OF i(2) nr(1)] e(7) by auto
  then show ?thesis unfolding n e(7) .
qed


section \<open>Losing a frame\<close>

lemma run_split:
  assumes "sorted_wrt (<) (map counter (f # fs))"
    and "\<forall>b \<in> set fs. reference_frame_counter b = counter b - 1 \<or> reference_frame_counter b \<notin> counter ` set (f # fs)"
  shows "\<exists>R B. fs = R @ B \<and> ref_chain (counter f) R \<and> (\<forall>b \<in> set B. reference_frame_counter b \<notin> counter ` set (f # R))"
  using assms
proof (induction fs arbitrary: f)
  case (Cons g fs)
  have later: "reference_frame_counter b \<noteq> counter f" if "b \<in> set fs" for b
  proof -
    have "counter f < counter g" "counter g < counter b" using Cons.prems(1) that by auto
    with Cons.prems(2) that show ?thesis by force
  qed
  show ?case
  proof (cases "reference_frame_counter g = counter f")
    case True
    have "\<forall>b \<in> set fs. reference_frame_counter b = counter b - 1 \<or> reference_frame_counter b \<notin> counter ` set (g # fs)"
      using Cons.prems(2) by auto
    then obtain R B where RB: "fs = R @ B" "ref_chain (counter g) R"
      "\<forall>b \<in> set B. reference_frame_counter b \<notin> counter ` set (g # R)" using Cons.IH [of g] Cons.prems(1) by auto
    then show ?thesis using True later by (intro exI [of _ "g # R"] exI [of _ B]) auto
  next
    case False
    then show ?thesis using later by (intro exI [of _ "[]"] exI [of _ "g # fs"]) auto
  qed
qed simp

lemma fold_nack_flags:
  "pending_list (fold nack_flags fs s) = pending_list s" "frame_counter (fold nack_flags fs s) = frame_counter s"
  "intra_frame_counter (fold nack_flags fs s) = intra_frame_counter s"
  "create_long_term_frame_counter (fold nack_flags fs s) = create_long_term_frame_counter s"
  "have_good_long_term_frame (fold nack_flags fs s) = have_good_long_term_frame s"
  "good_long_term_frame_index (fold nack_flags fs s) = good_long_term_frame_index s"
  "good_long_term_frame_counter (fold nack_flags fs s) = good_long_term_frame_counter s"
  "last_frame_is_bad (fold nack_flags fs s) = (last_frame_is_bad s \<or> frame_counter s \<in> counter ` set fs)"
  by (induction fs arbitrary: s) (auto simp: nack_flags_def Let_def split: VideoFrameType.splits)

lemmas nack_flags_keep = fold_nack_flags [of "[f]" for f, simplified]

lemma flags_ok_cong:
  assumes "have_good_long_term_frame s = have_good_long_term_frame t" "good_long_term_frame_index s = good_long_term_frame_index t"
    "good_long_term_frame_counter s = good_long_term_frame_counter t" "intra_frame_counter s = intra_frame_counter t"
    "create_long_term_frame_counter s = create_long_term_frame_counter t"
  shows "flags_ok A slots S s = flags_ok A slots S t"
  by (simp only: flags_ok_def assms)

definition nack_effect :: "LTRState \<Rightarrow> LTRState \<Rightarrow> LTRFrame list \<Rightarrow> LTRFrame list \<Rightarrow> LTRFrame list \<Rightarrow> bool" where
  "nack_effect s s' A X B \<longleftrightarrow> inflight_list s = A @ X @ B \<and> inflight_list s' = A @ B \<and>
     done_list s' = done_list s @ map nacked X \<and> pending_list s' = [] \<and> frame_counter s' = frame_counter s \<and>
     last_frame_is_bad s' = (last_frame_is_bad s \<or> frame_counter s \<in> counter ` set X) \<and>
     intra_frame_counter s' = intra_frame_counter s \<and>
     create_long_term_frame_counter s' = create_long_term_frame_counter s \<and>
     (\<forall>Y slots S. flags_ok Y slots S s' = flags_ok Y slots S s)"

lemma nack_total:
  assumes wf: "ltr_wf s" and f: "f \<in> set (inflight_list s)"
    and refs: "\<forall>b \<in> set (inflight_list s). reference_frame_counter b = counter b - 1 \<or>
      reference_frame_counter b \<notin> counter ` set (inflight_list s)"
  shows "\<exists>s' A R B. ltr_nack_frame_internal (nack_fuel s) s (counter f) False = Some s' \<and> nack_effect s s' A (f # R) B \<and>
     ref_chain (counter f) R \<and> (\<forall>b \<in> set B. reference_frame_counter b \<notin> counter ` set (f # R))"
proof -
  obtain A fs where I: "inflight_list s = A @ f # fs" using f by (auto dest: split_list)
  have srt: "sorted_wrt (<) (map counter (f # fs))" using wf by (simp add: ltr_wf_def I sorted_wrt_append)
  have "\<forall>b \<in> set fs. reference_frame_counter b = counter b - 1 \<or> reference_frame_counter b \<notin> counter ` set (f # fs)"
    using refs by (auto simp: I)
  from run_split [OF srt this] obtain R B where RB: "fs = R @ B" "ref_chain (counter f) R"
    "\<forall>b \<in> set B. reference_frame_counter b \<notin> counter ` set (f # R)" by blast
  let ?t = "(fold nack_flags (f # R) s)\<lparr>inflight_list := A @ B, done_list := done_list s @ map nacked (f # R)\<rparr>"
  have "ltr_nack_frame_internal (nack_fuel s) s (counter f) False = Some ?t"
  proof (rule nack_run)
    show "pending_list s = []" "distinct (map counter (inflight_list s @ done_list s))" using wf by (simp_all only: ltr_wf_def)
    show "inflight_list s = A @ f # R @ B" using I RB(1) by simp
    show "\<forall>g \<in> set (f # R). \<not> ack g \<and> \<not> nack g" using wf I RB(1) by (simp add: ltr_wf_def)
    show "3 * length R + length B + 2 \<le> nack_fuel s" using I RB(1) by (simp add: nack_fuel_def all_frames_def)
  qed (use RB in simp_all)
  moreover have "nack_effect s ?t A (f # R) B"
  proof -
    have "pending_list s = []" using wf by (simp add: ltr_wf_def)
    moreover have "flags_ok Y slots S ?t = flags_ok Y slots S s" for Y slots S
      by (rule flags_ok_cong) (simp_all add: fold_nack_flags nack_flags_keep)
    ultimately show ?thesis
      unfolding nack_effect_def by (intro conjI allI) (simp_all add: I RB(1) fold_nack_flags nack_flags_keep disj_assoc)
  qed
  ultimately show ?thesis using RB by blast
qed


lemma inv_references:
  assumes "ltr_inv w" "b \<in> set (inflight_list (w_state w))"
  shows "reference_frame_counter b = counter b - 1 \<or> reference_frame_counter b \<notin> counter ` set (inflight_list (w_state w))"
proof -
  have ok: "frame_ok (confirmed w) (w_refs w) b" using ltr_invD(5) [OF assms(1)] assms(2) by blast
  have "0 \<notin> counter ` set (inflight_list (w_state w))" using wf_counters [OF ltr_invD(1) [OF assms(1)]] by fastforce
  then show ?thesis
    using ok ltr_invD(7) [OF assms(1)] by (auto simp: frame_ok_def flying_def split: VideoFrameType.splits)
qed

lemma ref_chain_depends:
  assumes "ref_chain c R" "\<forall>g \<in> set R. refs (counter g) = reference_frame_counter g \<and> reference_frame_counter g \<noteq> 0" "g \<in> set R"
  shows "depends refs (counter g) c"
  using assms
proof (induction R arbitrary: c)
  case (Cons h R)
  have h: "depends refs (counter h) c"
    using depends.step [of refs "counter h" c] depends.refl [of refs c] Cons.prems by simp
  show ?case
  proof (cases "g = h")
    case False
    then have "depends refs (counter g) (counter h)" using Cons by auto
    then show ?thesis using h by (rule depends_trans)
  qed (simp add: h)
qed simp

lemma wf_nack:
  assumes wf: "ltr_wf s" and e: "nack_effect s s' A X B"
  shows "ltr_wf s'"
proof -
  have l: "inflight_list s = A @ X @ B" "inflight_list s' = A @ B" "done_list s' = done_list s @ map nacked X"
    "pending_list s' = []" "frame_counter s' = frame_counter s" using e by (simp_all add: nack_effect_def)
  have "mset (map counter (inflight_list s' @ done_list s')) = mset (map counter (inflight_list s @ done_list s))"
    by (simp add: l comp_def)
  then have "distinct (map counter (inflight_list s' @ done_list s'))"
    using wf mset_eq_imp_distinct_iff unfolding ltr_wf_def by blast
  moreover have "sorted_wrt (<) (map counter (inflight_list s'))" using wf by (auto simp: ltr_wf_def l sorted_wrt_append)
  moreover have "\<forall>f \<in> set (inflight_list s'). \<not> ack f \<and> \<not> nack f"
    using wf unfolding ltr_wf_def l by auto
  moreover have "\<forall>f \<in> set (inflight_list s' @ done_list s'). 1 \<le> counter f \<and> counter f \<le> frame_counter s'"
    using wf_counters [OF wf] by (auto simp: l)
  ultimately show ?thesis using l(4) by (simp add: ltr_wf_def)
qed

text \<open>The frames that a nack removes are those in flight that depend on the lost one.\<close>

lemma nack_exact:
  assumes inv: "ltr_inv w" and I: "inflight_list (w_state w) = A @ f # R @ B"
    and ch: "ref_chain (counter f) R" and B: "\<forall>b \<in> set B. reference_frame_counter b \<notin> counter ` set (f # R)"
  shows "counter ` set (f # R) = {c \<in> flying w. depends (w_refs w) c (counter f)}"
proof -
  let ?fc = "frame_counter (w_state w)" and ?dep = "depends (w_refs w)" and ?X = "counter ` set (f # R)"
  note i = ltr_invD [OF inv]
  have srt: "sorted_wrt (<) (map counter (A @ f # R @ B))" using i(1) by (simp add: ltr_wf_def I)
  have fly: "flying w = counter ` set A \<union> ?X \<union> counter ` set B" by (auto simp: flying_def I)
  have f: "counter f \<in> flying w" "counter f \<in> ?X" by (auto simp: fly)
  have refs: "w_refs w (counter g) = reference_frame_counter g" if "g \<in> set (A @ f # R @ B)" for g
    using i(5) that by (auto simp: I frame_ok_def)
  have fdep: "c \<in> ?X" if "?dep c (counter f)" "c \<in> flying w" for c
    using that
  proof (induction c "counter f" rule: depends.induct)
    case (step c)
    have up: "counter f \<le> w_refs w c" by (rule depends_le [OF step.hyps(2) i(2)])
    have ref: "w_refs w c \<in> ?X"
    proof (rule step.hyps(3))
      have "w_refs w c \<notin> dead w" using dead_step [OF step.hyps(1)] step.prems i(6) by blast
      moreover have "w_refs w c \<le> ?fc" using refs_downD [OF i(2) step.hyps(1)] by simp
      ultimately show "w_refs w c \<in> flying w" using i(10) [OF _ f(1) step.hyps(2)] by blast
    qed
    obtain g where g: "g \<in> set (A @ f # R @ B)" "counter g = c" using step.prems by (auto simp: fly)
    have "g \<notin> set B" using B ref refs [OF g(1)] g(2) by auto
    moreover have "g \<notin> set A"
    proof
      assume "g \<in> set A"
      then have "c < counter f" using srt g(2) by (auto simp: sorted_wrt_append)
      with up refs_downD [OF i(2) step.hyps(1)] show False by simp
    qed
    ultimately show ?case using g by auto
  qed (simp add: f)
  have "\<forall>g \<in> set R. w_refs w (counter g) = reference_frame_counter g \<and> reference_frame_counter g \<noteq> 0"
  proof
    fix g assume g: "g \<in> set R"
    have "reference_frame_counter g \<in> ?X" using ref_chain_refs [OF ch g] by simp
    then have "reference_frame_counter g \<noteq> 0" using wf_counters [OF i(1)] by (fastforce simp: I)
    then show "w_refs w (counter g) = reference_frame_counter g \<and> reference_frame_counter g \<noteq> 0" using refs [of g] g by simp
  qed
  from ref_chain_depends [OF ch this] have "?dep c (counter f)" if "c \<in> ?X" for c using that by (auto intro: depends.refl)
  with fdep show ?thesis by (auto simp: fly)
qed

lemma inv_nack:
  assumes inv: "ltr_inv w" and e: "nack_effect (w_state w) s' A (f # R) B"
    and ch: "ref_chain (counter f) R" and B: "\<forall>b \<in> set B. reference_frame_counter b \<notin> counter ` set (f # R)"
  shows "ltr_inv (w\<lparr>w_state := s', w_lost := insert (counter f) (w_lost w)\<rparr>)"
proof -
  let ?w = "w\<lparr>w_state := s', w_lost := insert (counter f) (w_lost w)\<rparr>" and ?fc = "frame_counter (w_state w)"
  let ?dep = "depends (w_refs w)" and ?X = "counter ` set (f # R)"
  note i = ltr_invD [OF inv]
  have l: "inflight_list (w_state w) = A @ f # R @ B" "inflight_list s' = A @ B" "frame_counter s' = ?fc"
      "last_frame_is_bad s' = (last_frame_is_bad (w_state w) \<or> ?fc \<in> ?X)"
      "intra_frame_counter s' = intra_frame_counter (w_state w)"
      "create_long_term_frame_counter s' = create_long_term_frame_counter (w_state w)"
    using e by (simp_all add: nack_effect_def)
  have flags: "flags_ok Y sl S s' = flags_ok Y sl S (w_state w)" for Y sl S using e by (simp add: nack_effect_def)
  have fly: "flying w = counter ` set A \<union> ?X \<union> counter ` set B" "flying ?w = counter ` set A \<union> counter ` set B"
    by (auto simp: flying_def l)
  have disj: "flying ?w \<inter> ?X = {}"
  proof -
    have "distinct (map counter (inflight_list (w_state w)))" using i(1) by (simp add: ltr_wf_def)
    then have "distinct (map counter A @ map counter (f # R) @ map counter B)" by (simp add: l(1))
    then show ?thesis unfolding fly distinct_append set_append set_map by blast
  qed
  have conf: "confirmed ?w = confirmed w" by (simp add: confirmed_def)
  have dead: "dead ?w = dead w \<union> {c. ?dep c (counter f)}" by (auto simp: dead_def)
  have f: "counter f \<in> flying w" by (auto simp: fly)
  have X: "?X = {c \<in> flying w. ?dep c (counter f)}" by (rule nack_exact [OF inv l(1) ch B])
  have "flying ?w \<inter> (dead w \<union> {c. ?dep c (counter f)}) = {}" using i(6) X disj unfolding fly by blast
  moreover have "confirmed w \<inter> {c. ?dep c (counter f)} = {}"
    using i(7,8) i(10) [OF _ f] confirmed_bound(2) [OF inv] by blast
  moreover have "last_frame_is_bad s'" if "?fc \<in> dead w \<or> ?dep ?fc (counter f)"
    using that i(9) i(10) [OF order_refl f] X unfolding l(4) by blast
  moreover have "d \<in> flying ?w \<or> d \<in> dead w \<or> ?dep d (counter f)"
    if "d \<le> ?fc" "c \<in> flying ?w" "?dep d c" for d c
  proof -
    have "c \<in> flying w" using that(2) by (auto simp: fly)
    from i(10) [OF that(1) this that(3)] show ?thesis using X unfolding fly by blast
  qed
  moreover have "flags_ok (confirmed w) (w_slots w) (set (A @ B)) (w_state w)"
    using flags_ok_mono [OF i(13), of "set (A @ B)" "confirmed w"] l(1) by auto
  moreover have "counter f \<in> {1..?fc}" using wf_counters [OF i(1), of f] l(1) by simp
  ultimately show ?thesis
    unfolding ltr_inv_def conf dead using wf_nack [OF i(1) e] i(2-5,7,8,11,12) by (auto simp: l flags fly)
qed

section \<open>Receiving a frame\<close>

lemma flags_ok_ack:
  assumes ok: "flags_ok A slots S s" and f: "f \<in> S" "counter f \<in> A" and inj: "inj_on counter S"
  shows "flags_ok A slots (S - {f}) (ack_flags f s)"
proof (cases "intra_frame_counter s \<le> counter f")
  case True
  have other: "\<forall>g \<in> S. counter g = counter f \<longrightarrow> g = f" using f(1) inj by (auto dest: inj_onD)
  show ?thesis
  proof (cases "frame_type (action f)")
    case INTRA_FRAME
    have "\<not> have_good_long_term_frame s" "long_term_frame_index (action f) = 0" "slots 0 = counter f"
      using ok f(1) True INTRA_FRAME unfolding flags_ok_def by blast+
    then show ?thesis using ok True INTRA_FRAME f(2) other unfolding flags_ok_def by (auto simp: ack_flags_def)
  next
    case CREATE_LONG_TERM
    have good: "have_good_long_term_frame s" using ok f(1) True CREATE_LONG_TERM unfolding flags_ok_def by blast
    show ?thesis
    proof (cases "counter f = create_long_term_frame_counter s")
      case now: True
      have "long_term_frame_index (action f) = (if good_long_term_frame_index s = 0 then 1 else 0)"
        "slots (long_term_frame_index (action f)) = counter f"
        using ok f(1) True CREATE_LONG_TERM now unfolding flags_ok_def by blast+
      then show ?thesis using ok True CREATE_LONG_TERM now f(2) good other unfolding flags_ok_def by (auto simp: ack_flags_def)
    next
      case False
      then have "ack_flags f s = s" using CREATE_LONG_TERM by (simp add: ack_flags_def)
      then show ?thesis using flags_ok_mono [OF ok, of "S - {f}" A] by auto
    qed
  next
    case NORMAL_FRAME
    then have "ack_flags f s = s" by (simp add: ack_flags_def)
    then show ?thesis using flags_ok_mono [OF ok, of "S - {f}" A] by auto
  next
    case REFER_LONG_TERM
    then have "flags_ok A slots (S - {f}) (ack_flags f s) = flags_ok A slots (S - {f}) s"
      by (intro flags_ok_cong) (simp_all add: ack_flags_def)
    then show ?thesis using flags_ok_mono [OF ok, of "S - {f}" A] by auto
  qed
next
  case False
  then have "ack_flags f s = s" by (simp add: ack_flags_def)
  then show ?thesis using flags_ok_mono [OF ok, of "S - {f}" A] by auto
qed

lemma ack_flags_counters:
  "intra_frame_counter (ack_flags f s) = intra_frame_counter s"
  "create_long_term_frame_counter (ack_flags f s) = create_long_term_frame_counter s"
  by (simp_all add: ack_flags_def split: VideoFrameType.splits)

lemma fold_ack_counters:
  "intra_frame_counter (fold ack_flags C s) = intra_frame_counter s"
  "create_long_term_frame_counter (fold ack_flags C s) = create_long_term_frame_counter s"
  by (induction C arbitrary: s) (simp_all add: ack_flags_counters)

lemma flags_ok_acks:
  assumes "flags_ok A slots S s" "set C \<subseteq> S" "counter ` set C \<subseteq> A" "inj_on counter S" "distinct C"
  shows "flags_ok A slots (S - set C) (fold ack_flags C s)"
  using assms
proof (induction C arbitrary: s S)
  case (Cons f C)
  have "flags_ok A slots (S - {f}) (ack_flags f s)" using Cons.prems by (intro flags_ok_ack) auto
  moreover have "set C \<subseteq> S - {f}" using Cons.prems by auto
  moreover have "inj_on counter (S - {f})" using Cons.prems(4) by (auto intro: inj_on_subset)
  ultimately have "flags_ok A slots (S - {f} - set C) (fold ack_flags C (ack_flags f s))" using Cons.IH Cons.prems by simp
  then show ?case by (simp add: Diff_insert2 [symmetric] insert_commute)
qed simp

lemma ack_chain_depends:
  assumes "\<forall>g \<in> set (f # P). refs (counter g) = reference_frame_counter g \<and> 1 \<le> counter g"
    and "g \<in> set (ack_chain f P)"
  shows "depends refs (counter f) (counter g)"
  using assms
proof (induction f P rule: ack_chain.induct)
  case (1 f P)
  show ?case
  proof (cases "dropWhile (\<lambda>r. counter r \<noteq> reference_frame_counter f) P")
    case Nil
    then show ?thesis using 1(3) ack_chain_cases(1) [OF Nil] by (simp add: depends.refl)
  next
    case (Cons r rest)
    note P = drop_to_ref [OF Cons]
    have sub: "set (r # rest) \<subseteq> set P" using arg_cong [OF P(1), of set] by auto
    have IH: "depends refs (counter r) (counter g)" if "g \<in> set (ack_chain r rest)"
      using 1(1) [OF Cons _ that] 1(2) sub by auto
    have "refs (counter f) = counter r" "refs (counter f) \<noteq> 0" using 1(2) P(2) sub by auto
    then show ?thesis using 1(3) IH depends.step [of refs "counter f" "counter g"] unfolding ack_chain_cases(2) [OF Cons]
      by (auto simp: depends.refl)
  qed
qed

lemma ack_chain_complete:
  assumes "sorted_wrt (>) (map counter (f # P))" "\<forall>g \<in> set (f # P). refs (counter g) = reference_frame_counter g"
    and "\<forall>u \<in> U. u < counter f \<longrightarrow> u \<in> counter ` set P"
    and "\<forall>x \<in> set (f # P). \<forall>u \<in> U. refs (counter x) \<noteq> 0 \<and> depends refs (refs (counter x)) u \<longrightarrow> refs (counter x) \<in> U"
    and "refs_down n refs" "u \<in> U" "depends refs (counter f) u"
  shows "u \<in> counter ` set (ack_chain f P)"
  using assms
proof (induction f P rule: ack_chain.induct)
  case (1 f P)
  show ?case
  proof (cases "u = counter f")
    case False
    then have r: "refs (counter f) \<noteq> 0" "depends refs (refs (counter f)) u" using 1(8) depends_unfold [of refs "counter f" u] by auto
    then have "refs (counter f) \<in> U" "refs (counter f) < counter f" using 1(5,7) refs_downD [OF 1(6) r(1)] by auto
    then have "reference_frame_counter f \<in> counter ` set P" using 1(3,4) by auto
    then obtain q rest where Q: "dropWhile (\<lambda>r. counter r \<noteq> reference_frame_counter f) P = q # rest"
      by (cases "dropWhile (\<lambda>r. counter r \<noteq> reference_frame_counter f) P") auto
    note P = drop_to_ref [OF Q]
    have srt: "sorted_wrt (>) (map counter (takeWhile (\<lambda>r. counter r \<noteq> reference_frame_counter f) P) @ map counter (q # rest))"
      using 1(2) by (subst map_append [symmetric], subst P(1) [symmetric]) simp
    have sub: "set (q # rest) \<subseteq> set P" using arg_cong [OF P(1), of set] by auto
    have q: "refs (counter f) = counter q" "counter q < counter f" using 1(3) P(2) \<open>refs (counter f) < counter f\<close> by auto
    have "u \<in> counter ` set (ack_chain q rest)"
    proof (rule 1(1) [OF Q])
      show "sorted_wrt (>) (map counter (q # rest))" using srt unfolding sorted_wrt_append by blast
      show "\<forall>v \<in> U. v < counter q \<longrightarrow> v \<in> counter ` set rest"
      proof (intro ballI impI)
        fix v assume v: "v \<in> U" "v < counter q"
        then have "v \<in> counter ` set P" using 1(4) q(2) by auto
        then have "v \<in> set (map counter (takeWhile (\<lambda>r. counter r \<noteq> reference_frame_counter f) P) @ map counter (q # rest))"
          by (subst map_append [symmetric], subst P(1) [symmetric]) simp
        then show "v \<in> counter ` set rest" using srt v(2) unfolding sorted_wrt_append by fastforce
      qed
      show "depends refs (counter q) u" using r(2) q(1) by simp
      show "\<forall>x \<in> set (q # rest). \<forall>u \<in> U. refs (counter x) \<noteq> 0 \<and> depends refs (refs (counter x)) u \<longrightarrow> refs (counter x) \<in> U"
        using 1(5) sub by (meson list.set_intros(2) subsetD)
    qed (use 1(3,6,7) sub in auto)
    then show ?thesis unfolding ack_chain_cases(2) [OF Q] by simp
  qed (auto simp: ack_chain.simps [of f P])
qed


lemma predecessors_eq:
  assumes "inflight_list s = A @ f # B" "distinct (map counter (inflight_list s))"
  shows "predecessors s (counter f) = map counter (rev A)"
proof -
  have "counter f \<notin> counter ` set A" using assms by auto
  then have "takeWhile (\<lambda>d. d \<noteq> counter f) (map counter A @ counter f # map counter B) = map counter A"
    by (induction A) auto
  then show ?thesis by (simp add: predecessors_def assms(1) rev_map)
qed

lemma ack_chain_distinct: "distinct (map counter (f # P)) \<Longrightarrow> distinct (ack_chain f P)"
proof (induction f P rule: ack_chain.induct)
  case (1 f P)
  show ?case
  proof (cases "dropWhile (\<lambda>r. counter r \<noteq> reference_frame_counter f) P")
    case Nil
    then show ?thesis by (simp add: ack_chain_cases(1) [OF Nil])
  next
    case (Cons r rest)
    note P = drop_to_ref(1) [OF Cons]
    have sub: "set (r # rest) \<subseteq> set P" using arg_cong [OF P, of set] by auto
    have "distinct (map counter (r # rest))" using 1(2) arg_cong [OF P, of "\<lambda>p. distinct (map counter p)"] by simp
    moreover have "f \<notin> set P" using 1(2) by auto
    ultimately show ?thesis
      using 1(1) [OF Cons] ack_chain_set [of r rest] sub unfolding ack_chain_cases(2) [OF Cons] by auto
  qed
qed

definition ack_result :: "LTRState \<Rightarrow> LTRFrame list \<Rightarrow> LTRState" where
  "ack_result s C = (fold ack_flags C s)
     \<lparr>inflight_list := filter (\<lambda>g. counter g \<notin> counter ` set C) (inflight_list s), done_list := done_list s @ rev (map acked C)\<rparr>"

lemma ack_total:
  assumes wf: "ltr_wf s" and I: "inflight_list s = A @ f # B"
  shows "ltr_ack_frame_internal s (counter f) (predecessors s (counter f)) = Some (ack_result s (ack_chain f (rev A)))"
proof -
  have d: "distinct (map counter (inflight_list s))" using wf by (simp add: ltr_wf_def)
  show ?thesis
    unfolding predecessors_eq [OF I d] ack_result_def
  proof (rule ack_run)
    show "pending_list s = []" "distinct (map counter (inflight_list s @ done_list s))" using wf by (simp_all only: ltr_wf_def)
    show "set (f # rev A) \<subseteq> set (inflight_list s)" by (auto simp: I)
    show "distinct (map counter (f # rev A))" using d by (simp add: I rev_map [symmetric])
    show "\<forall>g \<in> set (f # rev A). \<not> ack g \<and> \<not> nack g" using wf unfolding ltr_wf_def I by auto
  qed
qed

lemma wf_ack:
  assumes wf: "ltr_wf s" and C: "set C \<subseteq> set (inflight_list s)" "distinct C"
  shows "ltr_wf (ack_result s C)"
proof -
  let ?I = "inflight_list s" and ?F = "filter (\<lambda>g. counter g \<notin> counter ` set C) (inflight_list s)"
  have inj: "inj_on counter (set ?I)" and dI: "distinct (map counter ?I)" and dD: "distinct (map counter (done_list s))"
    and dis: "counter ` set ?I \<inter> counter ` set (done_list s) = {}"
    using wf by (simp_all add: ltr_wf_def distinct_map)
  have "distinct (map counter C)" using C inj by (simp add: distinct_map inj_on_subset)
  then have dC: "distinct (rev (map counter C))" by simp
  have cC: "counter ` set C \<subseteq> counter ` set ?I" "counter ` set ?F \<subseteq> counter ` set ?I" "counter ` set ?F \<inter> counter ` set C = {}"
    using C(1) by auto
  have "distinct (map counter ?F @ map counter (done_list s) @ rev (map counter C))"
    unfolding distinct_append set_append set_rev set_map using dC dD distinct_map_filter [OF dI] cC dis by blast
  moreover have "map counter (done_list s @ rev (map acked C)) = map counter (done_list s) @ rev (map counter C)"
    by (simp add: rev_map comp_def)
  ultimately have "distinct (map counter (?F @ done_list s @ rev (map acked C)))" by (simp only: map_append)
  moreover have "sorted_wrt (<) (map counter ?F)" using wf by (simp add: ltr_wf_def sorted_wrt_map sorted_wrt_filter)
  moreover have "1 \<le> counter f \<and> counter f \<le> frame_counter s" if "f \<in> set (?F @ done_list s @ rev (map acked C))" for f
  proof -
    have "counter f \<in> counter ` set (?I @ done_list s)" using that cC by auto
    then show ?thesis using wf_counters [OF wf] by auto
  qed
  moreover have "\<not> ack f \<and> \<not> nack f" if "f \<in> set ?F" for f using wf that by (simp add: ltr_wf_def)
  moreover have "pending_list s = []" using wf by (simp add: ltr_wf_def)
  ultimately show ?thesis unfolding ltr_wf_def by (simp only: ack_result_def fold_ack_flags) (simp add: fold_ack_flags)
qed

lemma frame_ok_mono: "frame_ok A refs f \<Longrightarrow> A \<subseteq> A' \<Longrightarrow> frame_ok A' refs f"
  by (auto simp: frame_ok_def split: VideoFrameType.splits)

text \<open>The frames that an acknowledgement removes are those in flight that the frame depends on.\<close>

lemma ack_exact:
  assumes inv: "ltr_inv w" and I: "inflight_list (w_state w) = A @ f # B"
  shows "counter ` set (ack_chain f (rev A)) = {c \<in> flying w. depends (w_refs w) (counter f) c}"
proof -
  let ?s = "w_state w" and ?dep = "depends (w_refs w)"
  note i = ltr_invD [OF inv]
  have refs: "w_refs w (counter g) = reference_frame_counter g" "1 \<le> counter g" if "g \<in> set (inflight_list ?s)" for g
    using i(5) that wf_counters [OF i(1), of g] by (auto simp: frame_ok_def)
  have sub: "set (f # rev A) \<subseteq> set (inflight_list ?s)" by (auto simp: I)
  have "sorted_wrt (<) (map counter (A @ f # B))" using i(1) by (simp add: ltr_wf_def I)
  then have srt: "sorted_wrt (>) (map counter (f # rev A))" "\<forall>b \<in> set B. counter f < counter b"
    by (auto simp: sorted_wrt_append sorted_wrt_rev rev_map [symmetric])
  have "?dep (counter f) c \<and> c \<in> flying w" if c: "c \<in> counter ` set (ack_chain f (rev A))" for c
  proof -
    obtain g where g: "g \<in> set (ack_chain f (rev A))" "c = counter g" using c by auto
    moreover have "\<forall>g \<in> set (f # rev A). w_refs w (counter g) = reference_frame_counter g \<and> 1 \<le> counter g"
      using refs sub by blast
    ultimately have "?dep (counter f) c" using ack_chain_depends [of f "rev A" "w_refs w" g] by simp
    moreover have "g \<in> set (inflight_list ?s)" using ack_chain_set [of f "rev A"] g(1) sub by auto
    ultimately show ?thesis by (simp add: flying_def g(2))
  qed
  moreover have "c \<in> counter ` set (ack_chain f (rev A))" if "c \<in> flying w" "?dep (counter f) c" for c
  proof (rule ack_chain_complete [OF srt(1) _ _ _ i(2) that])
    show "\<forall>u \<in> flying w. u < counter f \<longrightarrow> u \<in> counter ` set (rev A)" using srt(2) by (auto simp: flying_def I)
    show "\<forall>x \<in> set (f # rev A). \<forall>u \<in> flying w. w_refs w (counter x) \<noteq> 0 \<and> ?dep (w_refs w (counter x)) u \<longrightarrow> w_refs w (counter x) \<in> flying w"
    proof (intro ballI impI)
      fix x u assume x: "x \<in> set (f # rev A)" "u \<in> flying w" "w_refs w (counter x) \<noteq> 0 \<and> ?dep (w_refs w (counter x)) u"
      have fx: "counter x \<in> flying w" using x(1) sub by (auto simp: flying_def)
      have "w_refs w (counter x) \<notin> dead w" using dead_step [of w "counter x"] x(3) fx i(6) by blast
      moreover have "w_refs w (counter x) \<le> frame_counter ?s" using x(3) refs_downD [OF i(2), of "counter x"] by simp
      ultimately show "w_refs w (counter x) \<in> flying w" using i(10) [OF _ x(2)] x(3) by blast
    qed
  qed (use refs sub in auto)
  ultimately show ?thesis by blast
qed

lemma inv_ack:
  assumes inv: "ltr_inv w" and I: "inflight_list (w_state w) = A @ f # B"
  shows "ltr_inv (w\<lparr>w_state := ack_result (w_state w) (ack_chain f (rev A)), w_received := insert (counter f) (w_received w)\<rparr>)"
proof -
  let ?s = "w_state w"
  define C where "C = ack_chain f (rev A)"
  define s' where "s' = ack_result ?s C"
  let ?w = "w\<lparr>w_state := s', w_received := insert (counter f) (w_received w)\<rparr>"
  let ?fc = "frame_counter ?s" and ?dep = "depends (w_refs w)" and ?X = "counter ` set C"
  note i = ltr_invD [OF inv]
  have X: "?X = {c \<in> flying w. ?dep (counter f) c}" unfolding C_def by (rule ack_exact [OF inv I])
  have dI: "distinct (map counter (inflight_list ?s))" using i(1) by (simp add: ltr_wf_def)
  have dist: "distinct (map counter (f # rev A))" "inj_on counter (set (inflight_list ?s))"
    subgoal using dI by (simp add: I rev_map [symmetric])
    subgoal using dI by (simp only: distinct_map)
    done
  have CI: "set C \<subseteq> set (inflight_list ?s)" "distinct C"
    using ack_chain_set [of f "rev A"] ack_chain_distinct [OF dist(1)] by (auto simp: C_def I)
  have dead: "dead ?w = dead w" by (simp add: dead_def)
  have conf: "confirmed ?w = confirmed w \<union> {a. ?dep (counter f) a}" by (auto simp: confirmed_def)
  have ff: "counter f \<in> flying w" by (simp add: flying_def I)
  have l: "inflight_list s' = filter (\<lambda>g. counter g \<notin> ?X) (inflight_list ?s)" "frame_counter s' = ?fc"
    "last_frame_is_bad s' = last_frame_is_bad ?s" "intra_frame_counter s' = intra_frame_counter ?s"
    "create_long_term_frame_counter s' = create_long_term_frame_counter ?s"
    by (simp_all add: s'_def ack_result_def fold_ack_flags fold_ack_counters)
  have fly: "flying ?w = flying w - ?X" by (auto simp: flying_def l)
  have "confirmed ?w \<inter> flying ?w = {}" using i(7) X unfolding conf fly by blast
  moreover have "confirmed ?w \<inter> dead w = {}"
    using i(6,8) ff depends_trans [of "w_refs w" "counter f"] unfolding conf dead_def by blast
  moreover have "\<forall>g \<in> set (inflight_list s'). frame_ok (confirmed ?w) (w_refs w) g"
    using i(5) frame_ok_mono [of "confirmed w"] unfolding l conf by auto
  moreover have "d \<in> flying ?w \<or> d \<in> dead w" if d: "d \<le> ?fc" "c \<in> flying ?w" "?dep d c" for d c
  proof -
    have "d \<notin> ?X" using d(2,3) X depends_trans [of "w_refs w" "counter f" d c] unfolding fly by blast
    then show ?thesis using i(10) [OF d(1) _ d(3)] d(2) unfolding fly by blast
  qed
  moreover have "flags_ok (confirmed ?w) (w_slots w) (set (inflight_list s')) s'"
  proof -
    have "flags_ok (confirmed ?w) (w_slots w) (set (inflight_list ?s)) ?s" using flags_ok_mono [OF i(13)] conf by blast
    from flags_ok_acks [OF this CI(1) _ dist(2) CI(2)] X
    have "flags_ok (confirmed ?w) (w_slots w) (set (inflight_list ?s) - set C) (fold ack_flags C ?s)" unfolding conf by blast
    moreover have "set (inflight_list s') = set (inflight_list ?s) - set C"
      using CI(1) dist(2) unfolding l by (auto dest: inj_onD)
    moreover have "flags_ok Y sl S s' = flags_ok Y sl S (fold ack_flags C ?s)" for Y sl S
      by (rule flags_ok_cong) (simp_all add: s'_def ack_result_def)
    ultimately show ?thesis by simp
  qed
  moreover have "ltr_wf s'" unfolding s'_def by (rule wf_ack [OF i(1) CI])
  moreover have "counter f \<in> {1..?fc}" using wf_counters [OF i(1), of f] by (simp add: I)
  ultimately have "ltr_inv ?w"
    unfolding ltr_inv_def dead using i(2-4,6,9,11,12) fly by (auto simp: l)
  then show ?thesis unfolding s'_def C_def .
qed

section \<open>Every call\<close>

lemma find_by_id:
  assumes "ltr_find_frame_by_id s fid = Some c"
  obtains A f B where "inflight_list s = A @ f # B" "counter f = c" "ltr_frame_id f = fid"
  using assms by (auto simp: ltr_find_frame_by_id_def find_Some_iff dest!: split_list [OF nth_mem])

lemma inv_received:
  assumes "ltr_inv w" "ltr_find_frame_by_id (w_state w) fid = Some c"
  shows "\<exists>s. ltr_mark_frame_received (w_state w) fid = Some (s, 0) \<and>
     ltr_inv (w\<lparr>w_state := s, w_received := insert c (w_received w)\<rparr>)"
proof -
  obtain A f B where I: "inflight_list (w_state w) = A @ f # B" "counter f = c" by (rule find_by_id [OF assms(2)])
  show ?thesis
    using ack_total [OF ltr_invD(1) [OF assms(1)] I(1)] inv_ack [OF assms(1) I(1)] assms(2) I(2)
    by (simp add: ltr_mark_frame_received_def)
qed

lemma inv_nack_frame:
  assumes "ltr_inv w" "f \<in> set (inflight_list (w_state w))"
  shows "\<exists>s. ltr_nack_frame_internal (nack_fuel (w_state w)) (w_state w) (counter f) False = Some s \<and>
     ltr_inv (w\<lparr>w_state := s, w_lost := insert (counter f) (w_lost w)\<rparr>)"
proof -
  have "\<forall>b \<in> set (inflight_list (w_state w)). reference_frame_counter b = counter b - 1 \<or>
      reference_frame_counter b \<notin> counter ` set (inflight_list (w_state w))" using inv_references [OF assms(1)] by blast
  from nack_total [OF ltr_invD(1) [OF assms(1)] assms(2) this] show ?thesis using inv_nack [OF assms(1)] by blast
qed

lemma inv_not_received:
  assumes "ltr_inv w" "ltr_find_frame_by_id (w_state w) fid = Some c"
  shows "\<exists>s. ltr_mark_frame_not_received (w_state w) fid = Some (s, 0) \<and>
     ltr_inv (w\<lparr>w_state := s, w_lost := insert c (w_lost w)\<rparr>)"
proof -
  obtain A f B where I: "inflight_list (w_state w) = A @ f # B" "counter f = c" by (rule find_by_id [OF assms(2)])
  then have "f \<in> set (inflight_list (w_state w))" by simp
  from inv_nack_frame [OF assms(1) this] assms(2) I(2) show ?thesis by (auto simp: ltr_mark_frame_not_received_def)
qed

lemma last_of_last: "xs \<noteq> [] \<Longrightarrow> last_of xs None = Some (last xs)"
  by (induction xs rule: rev_induct) simp_all

lemma inv_broken:
  assumes "ltr_inv w" "inflight_list (w_state w) \<noteq> []"
  shows "\<exists>s. ltr_mark_stream_broken (w_state w) = Some s \<and>
     ltr_inv (w\<lparr>w_state := s, w_lost := insert (counter (last (inflight_list (w_state w)))) (w_lost w)\<rparr>)"
  using inv_nack_frame [OF assms(1) last_in_set [OF assms(2)]] assms(2)
  by (simp add: ltr_mark_stream_broken_def last_of_last)

lemma inv_force_intra:
  assumes "ltr_inv w"
  shows "ltr_inv (w\<lparr>w_state := (w_state w)\<lparr>intra_frame_needed := True\<rparr>\<rparr>)"
proof -
  have "flags_ok Y sl S ((w_state w)\<lparr>intra_frame_needed := True\<rparr>) = flags_ok Y sl S (w_state w)" for Y sl S
    by (rule flags_ok_cong) simp_all
  with assms show ?thesis unfolding ltr_inv_def ltr_wf_def flying_def dead_def confirmed_def by simp
qed

lemma inv_step: "ltr_step w w' \<Longrightarrow> ltr_inv w \<Longrightarrow> ltr_inv w'"
proof (induction rule: ltr_step.induct)
  case (next_action w fid s act)
  then show ?case using inv_next by blast
next
  case (received w fid c s)
  then show ?case using inv_received [of w fid c] by auto
next
  case (not_received w fid c s)
  then show ?case using inv_not_received [of w fid c] by auto
next
  case (broken w s)
  then show ?case using inv_broken [of w] by auto
next
  case (broken_idle w s)
  then show ?case using inv_force_intra by (auto simp: ltr_mark_stream_broken_def)
next
  case (force_intra w)
  then show ?case using inv_force_intra by (simp add: ltr_force_intra_def)
qed

lemma inv_create: "ltr_inv world_create"
  by (simp add: ltr_inv_def world_create_def ltr_create_def ltr_wf_def refs_down_def flags_ok_def flying_def dead_def confirmed_def)

lemma reach_inv: "ltr_reach w \<Longrightarrow> ltr_inv w"
  by (induction rule: ltr_reach.induct) (auto intro: inv_create inv_step)

text \<open>The lists stay short.\<close>

definition lengths_ok :: "LTRState \<Rightarrow> bool" where
  "lengths_ok s \<longleftrightarrow> length (inflight_list s) \<le> LTR_MAX_INFLIGHT_FRAMES + 1 \<and>
     length (inflight_list s) + length (done_list s) \<le> LTR_MAX_INFLIGHT_FRAMES + LTR_MAX_DONE_FRAMES + 1"

lemma lengths_next:
  assumes "next_effect s s' act n"
  shows "lengths_ok s'"
proof -
  have "length (inflight_list s') \<le> LTR_MAX_INFLIGHT_FRAMES + 1" "length (done_list s') \<le> LTR_MAX_DONE_FRAMES"
    using assms by (simp_all add: next_effect_def trimmed_def trim_done_eq)
  then show ?thesis by (simp add: lengths_ok_def)
qed

lemma lengths_ack:
  assumes "set C \<subseteq> set (inflight_list s)" "distinct C" "lengths_ok s" "distinct (map counter (inflight_list s))"
  shows "lengths_ok (ack_result s C)"
proof -
  have "{g \<in> set (inflight_list s). counter g \<notin> counter ` set C} = set (inflight_list s) - set C"
    using assms(1,4) by (auto simp: distinct_map dest: inj_onD)
  then have "length (filter (\<lambda>g. counter g \<notin> counter ` set C) (inflight_list s)) + length C = length (inflight_list s)"
    using assms by (simp add: distinct_card [symmetric] distinct_map card_Diff_subset card_mono le_add_diff_inverse2)
  then show ?thesis using assms(3) by (simp add: lengths_ok_def ack_result_def)
qed

lemma lengths_nack: "nack_effect s s' A X B \<Longrightarrow> lengths_ok s \<Longrightarrow> lengths_ok s'"
  by (simp add: nack_effect_def lengths_ok_def)


lemma lengths_step: "ltr_step w w' \<Longrightarrow> ltr_inv w \<Longrightarrow> lengths_ok (w_state w) \<Longrightarrow> lengths_ok (w_state w')"
proof (induction rule: ltr_step.induct)
  case (next_action w fid s act)
  then show ?case
    using lengths_next next_action_effect(2) [of "w_state w" fid s act 0] ltr_invD(1) [of w] by (auto simp: ltr_wf_def)
next
  case (received w fid c s)
  note wf = ltr_invD(1) [OF received.prems(1)]
  have d: "distinct (map counter (inflight_list (w_state w)))" using wf by (simp add: ltr_wf_def)
  obtain A f B where I: "inflight_list (w_state w) = A @ f # B" "counter f = c" by (rule find_by_id [OF received.hyps(1)])
  have "distinct (map counter (f # rev A))" using d by (simp add: I(1) rev_map [symmetric])
  then have "lengths_ok (ack_result (w_state w) (ack_chain f (rev A)))"
    using ack_chain_set [of f "rev A"] by (intro lengths_ack ack_chain_distinct received.prems d) (auto simp: I(1))
  then show ?case using received.hyps ack_total [OF wf I(1)] I(2) by (auto simp: ltr_mark_frame_received_def)
next
  case (not_received w fid c s)
  obtain A f B where I: "inflight_list (w_state w) = A @ f # B" "counter f = c" by (rule find_by_id [OF not_received.hyps(1)])
  have "\<exists>s' A R B. ltr_nack_frame_internal (nack_fuel (w_state w)) (w_state w) (counter f) False = Some s' \<and> nack_effect (w_state w) s' A (f # R) B"
    using nack_total [OF ltr_invD(1) [OF not_received.prems(1)], of f] inv_references [OF not_received.prems(1)] I(1) by fastforce
  then show ?case using not_received I(2) lengths_nack by (auto simp: ltr_mark_frame_not_received_def)
next
  case (broken w s)
  let ?f = "last (inflight_list (w_state w))"
  have "\<exists>s' A R B. ltr_nack_frame_internal (nack_fuel (w_state w)) (w_state w) (counter ?f) False = Some s' \<and> nack_effect (w_state w) s' A (?f # R) B"
    using nack_total [OF ltr_invD(1) [OF broken.prems(1)] last_in_set [OF broken.hyps(1)]] inv_references [OF broken.prems(1)] by fastforce
  then show ?case using broken lengths_nack by (auto simp: ltr_mark_stream_broken_def last_of_last)
qed (auto simp: ltr_mark_stream_broken_def ltr_force_intra_def lengths_ok_def)

lemma reach_lengths: "ltr_reach w \<Longrightarrow> lengths_ok (w_state w)"
proof (induction rule: ltr_reach.induct)
  case (call w w')
  then show ?case using lengths_step reach_inv by blast
qed (simp add: world_create_def ltr_create_def lengths_ok_def)

section \<open>Properties\<close>

text \<open>A stream whose first frame, an intra frame, has been reported lost.\<close>

definition first_frame :: LTRFrame where
  "first_frame = \<lparr>action = \<lparr>frame_type = INTRA_FRAME, long_term_frame_index = 0\<rparr>, counter = 1, reference_frame_counter = 0,
     ltr_frame_id = 7, sent = True, ack = False, nack = False\<rparr>"

definition world_sent :: ltr_world where
  "world_sent = \<lparr>w_state = ltr_create\<lparr>inflight_list := [first_frame], frame_counter := 1, intra_frame_counter := 1\<rparr>,
     w_slots = (\<lambda>i. if i = 0 then Suc 0 else 0), w_refs = (\<lambda>_. 0), w_received = {}, w_lost = {}\<rparr>"

definition world_broken :: ltr_world where
  "world_broken = world_sent\<lparr>w_state := ltr_create\<lparr>done_list := [nacked first_frame], frame_counter := 1,
     intra_frame_counter := 1, last_frame_is_bad := True\<rparr>, w_lost := {1}\<rparr>"

lemma reach_sent: "ltr_reach world_sent"
proof -
  have "ltr_get_next_action (w_state world_create) 7 = (w_state world_sent, action first_frame, 0)"
    by (simp add: world_create_def world_sent_def first_frame_def ltr_create_def ltr_get_next_action_def ltr_pick_next_action_def
      ltr_clear_old_frames_def choose_action_def note_action_def ltr_mark_frame_sent_def Let_def)
  from call [OF start next_action [OF this]] show ?thesis
    by (simp add: world_create_def world_sent_def store_slots_def first_frame_def fun_upd_idem)
qed

lemma reach_broken: "ltr_reach world_broken"
proof -
  have "ltr_find_frame_by_id (w_state world_sent) 7 = Some 1"
    by (simp add: world_sent_def first_frame_def ltr_find_frame_by_id_def)
  moreover from this have "ltr_mark_frame_not_received (w_state world_sent) 7 = Some (w_state world_broken, 0)"
    by (simp add: ltr_mark_frame_not_received_def nack_fuel_def all_frames_def world_broken_def world_sent_def first_frame_def
      ltr_create_def numeral_eq_Suc find_frame_def update_frame_def nack_flags_def next_frame_def move_to_done_def nacked_def Let_def)
  ultimately show ?thesis using call [OF reach_sent not_received] by (auto simp: world_broken_def world_sent_def)
qed


text \<open>C8: a report is an operation on the graph of references. A frame reported as received takes with it exactly
  the frames in flight that it depends on, directly or not; a frame reported as lost takes with it exactly those that
  depend on it. The others stay in flight, in their order.\<close>

theorem ltr_reports_exact:
  assumes "ltr_reach w" "ltr_find_frame_by_id (w_state w) fid = Some c"
  shows "(\<exists>s. ltr_mark_frame_received (w_state w) fid = Some (s, 0) \<and>
      inflight_list s = filter (\<lambda>g. \<not> depends (w_refs w) c (counter g)) (inflight_list (w_state w))) \<and>
    (\<exists>s. ltr_mark_frame_not_received (w_state w) fid = Some (s, 0) \<and>
      inflight_list s = filter (\<lambda>g. \<not> depends (w_refs w) (counter g) c) (inflight_list (w_state w)))"
proof
  note inv = reach_inv [OF assms(1)]
  note wf = ltr_invD(1) [OF inv]
  obtain A f B where I: "inflight_list (w_state w) = A @ f # B" "counter f = c" by (rule find_by_id [OF assms(2)])
  have "filter (\<lambda>g. counter g \<notin> counter ` set (ack_chain f (rev A))) (inflight_list (w_state w)) =
    filter (\<lambda>g. \<not> depends (w_refs w) c (counter g)) (inflight_list (w_state w))"
    unfolding ack_exact [OF inv I(1)] I(2) by (rule filter_cong) (auto simp: flying_def)
  then show "\<exists>s. ltr_mark_frame_received (w_state w) fid = Some (s, 0) \<and>
      inflight_list s = filter (\<lambda>g. \<not> depends (w_refs w) c (counter g)) (inflight_list (w_state w))"
    using ack_total [OF wf I(1)] assms(2) I(2) by (simp add: ltr_mark_frame_received_def ack_result_def)
  have "f \<in> set (inflight_list (w_state w))" using I(1) by simp
  from nack_total [OF wf this] inv_references [OF inv] obtain s A' R B' where n:
    "ltr_nack_frame_internal (nack_fuel (w_state w)) (w_state w) (counter f) False = Some s"
    "nack_effect (w_state w) s A' (f # R) B'" "ref_chain (counter f) R"
    "\<forall>b \<in> set B'. reference_frame_counter b \<notin> counter ` set (f # R)" by blast
  then have l: "inflight_list (w_state w) = A' @ f # R @ B'" "inflight_list s = A' @ B'" by (simp_all add: nack_effect_def)
  have "distinct (map counter (inflight_list (w_state w)))" using wf by (simp add: ltr_wf_def)
  then have "distinct (map counter A' @ map counter (f # R) @ map counter B')" by (simp add: l(1))
  then have dj: "counter ` set A' \<inter> counter ` set (f # R) = {}" "counter ` set B' \<inter> counter ` set (f # R) = {}"
    unfolding distinct_append set_append set_map by blast+
  have X: "depends (w_refs w) (counter g) c \<longleftrightarrow> counter g \<in> counter ` set (f # R)" if "g \<in> set (inflight_list (w_state w))" for g
    using nack_exact [OF inv l(1) n(3,4)] that I(2) by (auto simp: flying_def)
  have "filter (\<lambda>g. \<not> depends (w_refs w) (counter g) c) (inflight_list (w_state w)) =
    filter (\<lambda>g. counter g \<notin> counter ` set (f # R)) (A' @ (f # R) @ B')" using X by (intro filter_cong) (auto simp: l(1))
  also have "\<dots> = A' @ B'"
  proof -
    have "filter (\<lambda>g. counter g \<notin> counter ` set (f # R)) A' = A'" "filter (\<lambda>g. counter g \<notin> counter ` set (f # R)) B' = B'"
      unfolding filter_id_conv using dj by blast+
    moreover have "filter (\<lambda>g. counter g \<notin> counter ` set (f # R)) (f # R) = []" by (simp add: filter_empty_conv)
    ultimately show ?thesis unfolding filter_append by simp
  qed
  finally show "\<exists>s. ltr_mark_frame_not_received (w_state w) fid = Some (s, 0) \<and>
      inflight_list s = filter (\<lambda>g. \<not> depends (w_refs w) (counter g) c) (inflight_list (w_state w))"
    using n(1) l(2) assms(2) I(2) by (simp add: ltr_mark_frame_not_received_def)
qed

theorem ltr_reports_exact_witness:
  "\<exists>s. ltr_mark_frame_received (w_state world_sent) 7 = Some (s, 0) \<and>
     inflight_list s = filter (\<lambda>g. \<not> depends (w_refs world_sent) 1 (counter g)) [first_frame]"
proof -
  have "ltr_find_frame_by_id (w_state world_sent) 7 = Some 1"
    by (simp add: world_sent_def first_frame_def ltr_find_frame_by_id_def)
  from ltr_reports_exact [OF reach_sent this] show ?thesis by (simp add: world_sent_def)
qed

text \<open>C9: in every state that a sequence of calls can reach, each further call returns: no assertion of
  the recursions in \<^verbatim>\<open>ltr_ack_frame_internal\<close> and \<^verbatim>\<open>ltr_nack_frame_internal\<close> fails, no frame is removed from a list
  that it is not in, the walks end, and the reports are answered with 0 exactly for the ids that are in flight.\<close>

theorem ltr_calls_return:
  assumes "ltr_reach w"
  shows "(\<exists>s. ltr_mark_frame_received (w_state w) fid =
      Some (s, if fid \<in> ltr_frame_id ` set (inflight_list (w_state w)) then 0 else -1)) \<and>
    (\<exists>s. ltr_mark_frame_not_received (w_state w) fid =
      Some (s, if fid \<in> ltr_frame_id ` set (inflight_list (w_state w)) then 0 else -1)) \<and>
    (\<exists>s. ltr_mark_stream_broken (w_state w) = Some s) \<and>
    snd (snd (ltr_get_next_action (w_state w) fid)) = 0"
proof (intro conjI)
  note inv = reach_inv [OF assms]
  have known: "fid \<in> ltr_frame_id ` set (inflight_list (w_state w)) \<longleftrightarrow> ltr_find_frame_by_id (w_state w) fid \<noteq> None"
    by (auto simp: ltr_find_frame_by_id_def find_None_iff)
  show "\<exists>s. ltr_mark_frame_received (w_state w) fid =
      Some (s, if fid \<in> ltr_frame_id ` set (inflight_list (w_state w)) then 0 else -1)"
    unfolding known using inv_received [OF inv, of fid]
    by (cases "ltr_find_frame_by_id (w_state w) fid") (auto simp: ltr_mark_frame_received_def)
  show "\<exists>s. ltr_mark_frame_not_received (w_state w) fid =
      Some (s, if fid \<in> ltr_frame_id ` set (inflight_list (w_state w)) then 0 else -1)"
    unfolding known using inv_not_received [OF inv, of fid]
    by (cases "ltr_find_frame_by_id (w_state w) fid") (auto simp: ltr_mark_frame_not_received_def)
  show "\<exists>s. ltr_mark_stream_broken (w_state w) = Some s"
    using inv_broken [OF inv] by (cases "inflight_list (w_state w) = []") (auto simp: ltr_mark_stream_broken_def)
  show "snd (snd (ltr_get_next_action (w_state w) fid)) = 0"
    using next_action_effect(1) [of "w_state w" fid] ltr_invD(1) [OF inv]
    by (cases "ltr_get_next_action (w_state w) fid") (simp add: ltr_wf_def)
qed

theorem ltr_calls_return_witness:
  "\<exists>s. ltr_mark_frame_received (w_state world_sent) 7 = Some (s, 0)"
  using ltr_calls_return [OF reach_sent, of 7] by (simp add: world_sent_def first_frame_def)

text \<open>C6: the frame that the encoder is told to make can be decoded as far as the client's reports
  go. An intra frame has no reference; a frame that refers to a long-term frame names a slot that holds a frame which the
  client has received, with everything it depends on; every other frame refers to the one before it. No reference depends
  on a frame that was reported lost, and a new long-term frame never replaces the one that is known to be good.\<close>

theorem ltr_reference_sound:
  assumes "ltr_reach w" "ltr_get_next_action (w_state w) fid = (s, act, 0)"
  defines "ref \<equiv> reference_frame_counter (last (inflight_list s))"
  shows "ref \<notin> dead w \<and>
    (case frame_type act of
       INTRA_FRAME \<Rightarrow> ref = 0
     | REFER_LONG_TERM \<Rightarrow> ref \<in> confirmed w \<and> w_slots w (long_term_frame_index act) = ref
     | NORMAL_FRAME \<Rightarrow> 0 < ref \<and> ref = frame_counter (w_state w)
     | CREATE_LONG_TERM \<Rightarrow> 0 < ref \<and> ref = frame_counter (w_state w) \<and>
         long_term_frame_index act \<in> {0, 1} - {good_long_term_frame_index (w_state w)})"
proof
  note inv = reach_inv [OF assms(1)]
  have "pending_list (w_state w) = []" using ltr_invD(1) [OF inv] by (simp add: ltr_wf_def)
  note eff = next_action_effect(2) [OF this assms(2)]
  have zero: "0 \<notin> dead w"
  proof
    assume "0 \<in> dead w"
    then obtain b where "b \<in> w_lost w" "depends (w_refs w) 0 b" by (auto simp: dead_def)
    then show False using depends_le [OF _ ltr_invD(2) [OF inv]] ltr_invD(4) [OF inv] by fastforce
  qed
  show "ref \<notin> dead w" using next_reference(2) [OF inv eff] zero by (auto simp: ref_def)
  show "case frame_type act of
       INTRA_FRAME \<Rightarrow> ref = 0
     | REFER_LONG_TERM \<Rightarrow> ref \<in> confirmed w \<and> w_slots w (long_term_frame_index act) = ref
     | NORMAL_FRAME \<Rightarrow> 0 < ref \<and> ref = frame_counter (w_state w)
     | CREATE_LONG_TERM \<Rightarrow> 0 < ref \<and> ref = frame_counter (w_state w) \<and>
         long_term_frame_index act \<in> {0, 1} - {good_long_term_frame_index (w_state w)}"
    using eff ltr_invD(13) [OF inv] by (cases "frame_type act") (simp_all add: next_effect_def flags_ok_def ref_def)
qed

theorem ltr_reference_sound_witness:
  "\<exists>s act. ltr_get_next_action (w_state world_sent) 8 = (s, act, 0) \<and> frame_type act = NORMAL_FRAME \<and>
     reference_frame_counter (last (inflight_list s)) = frame_counter (w_state world_sent)"
proof -
  obtain s act r where e: "ltr_get_next_action (w_state world_sent) 8 = (s, act, r)"
    by (cases "ltr_get_next_action (w_state world_sent) 8")
  have "r = 0" and ty: "frame_type act = NORMAL_FRAME"
    using e by (auto simp: world_sent_def first_frame_def ltr_create_def ltr_get_next_action_def ltr_pick_next_action_def
      ltr_clear_old_frames_def choose_action_def note_action_def ltr_mark_frame_sent_def LTR_MAX_INFLIGHT_FRAMES_def
      LTR_NEW_INTRA_FRAME_DELAY_def Let_def)
  then show ?thesis using ltr_reference_sound [OF reach_sent, of 8 s act] e by simp
qed

text \<open>C7: a loss is never forgotten. A frame that depends on a lost frame is no longer in flight and has not
  been confirmed, and when the newest frame is such a frame, the next one is a recovery point (an intra frame or a
  reference to a long-term frame).\<close>

theorem ltr_loss_recovers:
  assumes "ltr_reach w" "b \<in> w_lost w" "depends (w_refs w) c b"
  shows "c \<notin> counter ` set (inflight_list (w_state w)) \<and> c \<notin> confirmed w \<and>
    (c = frame_counter (w_state w) \<longrightarrow>
      frame_type (fst (snd (ltr_get_next_action (w_state w) fid))) \<in> {INTRA_FRAME, REFER_LONG_TERM})"
proof (intro conjI impI)
  note inv = reach_inv [OF assms(1)]
  have c: "c \<in> dead w" using assms(2,3) by (auto simp: dead_def)
  show "c \<notin> counter ` set (inflight_list (w_state w))" "c \<notin> confirmed w"
    using c ltr_invD(6,8) [OF inv] by (auto simp: flying_def)
  show "frame_type (fst (snd (ltr_get_next_action (w_state w) fid))) \<in> {INTRA_FRAME, REFER_LONG_TERM}"
    if now: "c = frame_counter (w_state w)"
  proof -
    have bad: "last_frame_is_bad (w_state w)" using ltr_invD(9) [OF inv] c now by simp
    have p: "pending_list (w_state w) = []" using ltr_invD(1) [OF inv] by (simp add: ltr_wf_def)
    obtain s act r where e: "ltr_get_next_action (w_state w) fid = (s, act, r)" by (cases "ltr_get_next_action (w_state w) fid")
    then show ?thesis using next_action_effect(2) [OF p e] bad by (cases "frame_type act") (simp_all add: next_effect_def)
  qed
qed

theorem ltr_loss_recovers_witness:
  "ltr_reach world_broken \<and> 1 \<in> w_lost world_broken \<and>
   frame_type (fst (snd (ltr_get_next_action (w_state world_broken) 8))) \<in> {INTRA_FRAME, REFER_LONG_TERM}"
  using ltr_loss_recovers [OF reach_broken, of 1 1 8] reach_broken depends.refl [of "w_refs world_broken" 1]
  by (simp add: world_broken_def)

text \<open>C30: however many frames are never acknowledged, the lists stay bounded: at most 61 frames are in
  flight and at most 121 are remembered.\<close>

theorem ltr_lists_bounded:
  assumes "ltr_reach w"
  shows "length (inflight_list (w_state w)) \<le> 61 \<and>
    length (pending_list (w_state w)) + length (inflight_list (w_state w)) + length (done_list (w_state w)) \<le> 121"
  using reach_lengths [OF assms] ltr_invD(1) [OF reach_inv [OF assms]]
  by (simp_all add: lengths_ok_def ltr_wf_def LTR_MAX_INFLIGHT_FRAMES_def LTR_MAX_DONE_FRAMES_def)

theorem ltr_lists_bounded_witness: "ltr_reach world_broken \<and> length (inflight_list (w_state world_broken)) \<le> 61"
  using ltr_lists_bounded [OF reach_broken] reach_broken by simp


end
