(* ===== verification/Throttle.thy ===== *)
theory Throttle
  imports Whist_Prelude Complex_Main
begin

text \<open>
  The network throttler, \<^verbatim>\<open>protocol/whist/network/throttle.c\<close>: a bucket of coins that pays for the bytes sent, and a
  queue of tickets that lets one thread at a time fill the bucket.

  Sizes are 64-bit words and the ticket and group ids 32-bit words, read as signed where the code compares them as \<^verbatim>\<open>int\<close>.
  A \<^verbatim>\<open>double\<close> is a rational number: rounding is not modelled, and the conversion to \<^verbatim>\<open>size_t\<close> rounds towards zero (it is
  defined in C for values from 0 up to the largest \<^verbatim>\<open>size_t\<close>). A timer is the reading of the monotonic clock, in seconds,
  at which it was started; the readings are arguments. \<open>udp_max\<close> is \<^verbatim>\<open>udp_packet_max_size()\<close>, which is C++.
\<close>

section \<open>The bucket\<close>

record NetworkThrottleContext =
  coin_bucket_ms :: rat
  coin_bucket_max :: "64 word"
  coin_bucket :: "64 word"
  burst_bitrate :: int
  coin_bucket_last_fill :: rat
  next_queue_id :: "32 word"
  current_queue_id :: "32 word"
  group_id :: "32 word"
  destroying :: bool
  fill_bucket_initially :: bool

definition STARTING_THROTTLER_BITRATE :: int where "STARTING_THROTTLER_BITRATE = 1000000"
definition BITS_IN_BYTE :: rat where "BITS_IN_BYTE = 8"
definition MS_IN_SECOND :: rat where "MS_IN_SECOND = 1000"

definition size_of_double :: "rat \<Rightarrow> 64 word" where
  "size_of_double x = word_of_int \<lfloor>x\<rfloor>"

definition bucket_size :: "rat \<Rightarrow> int \<Rightarrow> 64 word" where
  "bucket_size ms bitrate = size_of_double ((ms / MS_IN_SECOND) * (rat_of_int bitrate / BITS_IN_BYTE))"

definition network_throttler_create :: "rat \<Rightarrow> rat \<Rightarrow> bool \<Rightarrow> NetworkThrottleContext" where
  "network_throttler_create now ms fill =
     \<lparr>coin_bucket_ms = ms, coin_bucket_max = bucket_size ms STARTING_THROTTLER_BITRATE,
      coin_bucket = (if fill then bucket_size ms STARTING_THROTTLER_BITRATE else 0),
      burst_bitrate = STARTING_THROTTLER_BITRATE, coin_bucket_last_fill = now,
      next_queue_id = 0, current_queue_id = 0, group_id = 0, destroying = False,
      fill_bucket_initially = fill\<rparr>"

text \<open>The sum is unsigned, so that the maximum with 0 has no effect.\<close>

definition network_throttler_set_burst_bitrate :: "NetworkThrottleContext \<Rightarrow> int \<Rightarrow> NetworkThrottleContext" where
  "network_throttler_set_burst_bitrate ctx bitrate =
     (let new_max = bucket_size (coin_bucket_ms ctx) bitrate;
          ctx = (if fill_bucket_initially ctx
                 then ctx\<lparr>coin_bucket := max (coin_bucket ctx + new_max - coin_bucket_max ctx) 0\<rparr> else ctx)
      in ctx\<lparr>burst_bitrate := bitrate, coin_bucket_max := new_max\<rparr>)"

text \<open>One round of the loop that waits for coins: the clock reads \<open>now\<close> at the test and \<open>restart\<close> when the
  timer is started again. A round that does not fill the bucket only sleeps.\<close>

definition fill_round :: "64 word \<Rightarrow> rat \<Rightarrow> rat \<Rightarrow> NetworkThrottleContext \<Rightarrow> NetworkThrottleContext" where
  "fill_round udp_max now restart ctx =
     (if (now - coin_bucket_last_fill ctx) * MS_IN_SECOND > coin_bucket_ms ctx
      then ctx\<lparr>coin_bucket := (if coin_bucket ctx < udp_max then coin_bucket ctx + coin_bucket_max ctx
                              else coin_bucket_max ctx),
               group_id := group_id ctx + 1, coin_bucket_last_fill := restart\<rparr>
      else ctx)"

text \<open>The loop, over the clock readings of its rounds: \<open>None\<close> when they are used up and the packet has not been paid.\<close>

fun wait_coins :: "64 word \<Rightarrow> (rat \<times> rat) list \<Rightarrow> 64 word \<Rightarrow> NetworkThrottleContext \<Rightarrow> NetworkThrottleContext option" where
  "wait_coins udp_max [] bytes ctx = None"
| "wait_coins udp_max ((now, restart) # ts) bytes ctx =
     (let ctx = fill_round udp_max now restart ctx
      in if bytes > coin_bucket ctx then wait_coins udp_max ts bytes ctx
         else Some (ctx\<lparr>coin_bucket := coin_bucket ctx - bytes\<rparr>))"

section \<open>The ticket queue\<close>

definition take_ticket :: "NetworkThrottleContext \<Rightarrow> 32 word \<times> NetworkThrottleContext" where
  "take_ticket ctx = (next_queue_id ctx, ctx\<lparr>next_queue_id := next_queue_id ctx + 1\<rparr>)"

definition must_wait :: "NetworkThrottleContext \<Rightarrow> 32 word \<Rightarrow> bool" where
  "must_wait ctx queue_id \<longleftrightarrow> sint queue_id > sint (current_queue_id ctx)"

definition next_ticket :: "NetworkThrottleContext \<Rightarrow> NetworkThrottleContext" where
  "next_ticket ctx = ctx\<lparr>current_queue_id := current_queue_id ctx + 1\<rparr>"

definition turned_away :: "NetworkThrottleContext \<Rightarrow> bool" where
  "turned_away ctx \<longleftrightarrow> burst_bitrate ctx \<le> 0 \<or> destroying ctx"

text \<open>The call of a thread that meets no other thread; the pointer may be null.\<close>

definition network_throttler_wait_byte_allocation ::
  "64 word \<Rightarrow> (rat \<times> rat) list \<Rightarrow> NetworkThrottleContext option \<Rightarrow> 64 word \<Rightarrow> (NetworkThrottleContext option \<times> int) option" where
  "network_throttler_wait_byte_allocation udp_max ts ctx bytes =
     (case ctx of
        None \<Rightarrow> Some (None, -1)
      | Some ctx \<Rightarrow>
          if turned_away ctx then Some (Some ctx, -1)
          else let (queue_id, ctx) = take_ticket ctx
               in if must_wait ctx queue_id then None
                  else do {
                    ctx \<leftarrow> wait_coins udp_max ts bytes ctx;
                    Some (Some (next_ticket ctx), sint (group_id ctx)) })"

text \<open>Destruction: announce it, wait until the queue is empty, free the context.\<close>

definition request_destroy :: "NetworkThrottleContext \<Rightarrow> NetworkThrottleContext" where
  "request_destroy ctx = ctx\<lparr>destroying := True\<rparr>"

definition queue_empty :: "NetworkThrottleContext \<Rightarrow> bool" where
  "queue_empty ctx \<longleftrightarrow> current_queue_id ctx = next_queue_id ctx"

text \<open>The threads. A thread has passed the first test, holds a ticket, sleeps on the condition
  variable, fills the bucket, or has paid; it tests its ticket with the lock held. A thread reads the group id that it
  returns when it has passed the turn on. \<open>clock\<close> bounds the readings from below; \<open>taken\<close>, \<open>fills\<close>, \<open>paid\<close>, \<open>burst\<close> and
  \<open>served\<close> are ghosts: the number of tickets given out, the number of fills, the bytes paid for, those since the last
  fill, and the tickets in the order in which they were paid.\<close>

datatype thread_pc =
    Idle
  | Checked "64 word"
  | Queued "32 word" "64 word"
  | Asleep "32 word" "64 word"
  | Filling "32 word" "64 word"
  | Paid "32 word" "64 word"
  | Returning

record throttle_sys =
  shared :: NetworkThrottleContext
  pcs :: "nat \<Rightarrow> thread_pc"
  clock :: rat
  freed :: bool
  taken :: nat
  fills :: nat
  paid :: nat
  burst :: nat
  served :: "32 word list"

fun wake :: "thread_pc \<Rightarrow> thread_pc" where
  "wake (Asleep q b) = Queued q b"
| "wake pc = pc"

definition round_fills :: "NetworkThrottleContext \<Rightarrow> rat \<Rightarrow> bool" where
  "round_fills ctx now \<longleftrightarrow> (now - coin_bucket_last_fill ctx) * MS_IN_SECOND > coin_bucket_ms ctx"

inductive throttle_step :: "64 word \<Rightarrow> throttle_sys \<Rightarrow> throttle_sys \<Rightarrow> bool" for udp_max where
  reject: "pcs s t = Idle \<Longrightarrow> turned_away (shared s) \<Longrightarrow> throttle_step udp_max s s"
| check: "pcs s t = Idle \<Longrightarrow> \<not> turned_away (shared s) \<Longrightarrow>
    throttle_step udp_max s (s\<lparr>pcs := (pcs s)(t := Checked b)\<rparr>)"
| take: "pcs s t = Checked b \<Longrightarrow> take_ticket (shared s) = (q, c) \<Longrightarrow>
    throttle_step udp_max s (s\<lparr>shared := c, pcs := (pcs s)(t := Queued q b), taken := taken s + 1\<rparr>)"
| sleep: "pcs s t = Queued q b \<Longrightarrow> must_wait (shared s) q \<Longrightarrow>
    throttle_step udp_max s (s\<lparr>pcs := (pcs s)(t := Asleep q b)\<rparr>)"
| enter: "pcs s t = Queued q b \<Longrightarrow> \<not> must_wait (shared s) q \<Longrightarrow>
    throttle_step udp_max s (s\<lparr>pcs := (pcs s)(t := Filling q b)\<rparr>)"
| starve: "pcs s t = Filling q b \<Longrightarrow> clock s \<le> now \<Longrightarrow> now \<le> restart \<Longrightarrow>
    c = fill_round udp_max now restart (shared s) \<Longrightarrow> b > coin_bucket c \<Longrightarrow>
    throttle_step udp_max s (s\<lparr>shared := c, clock := restart,
      fills := fills s + (if round_fills (shared s) now then 1 else 0),
      burst := (if round_fills (shared s) now then 0 else burst s)\<rparr>)"
| pay: "pcs s t = Filling q b \<Longrightarrow> clock s \<le> now \<Longrightarrow> now \<le> restart \<Longrightarrow>
    c = fill_round udp_max now restart (shared s) \<Longrightarrow> \<not> b > coin_bucket c \<Longrightarrow>
    throttle_step udp_max s (s\<lparr>shared := c\<lparr>coin_bucket := coin_bucket c - b\<rparr>, pcs := (pcs s)(t := Paid q b), clock := restart,
      fills := fills s + (if round_fills (shared s) now then 1 else 0), paid := paid s + unat b,
      burst := (if round_fills (shared s) now then 0 else burst s) + unat b, served := served s @ [q]\<rparr>)"
| pass_on: "pcs s t = Paid q b \<Longrightarrow>
    throttle_step udp_max s (s\<lparr>shared := next_ticket (shared s), pcs := (\<lambda>u. wake (((pcs s)(t := Returning)) u))\<rparr>)"
| return: "pcs s t = Returning \<Longrightarrow> throttle_step udp_max s (s\<lparr>pcs := (pcs s)(t := Idle)\<rparr>)"
| destroy: "throttle_step udp_max s (s\<lparr>shared := request_destroy (shared s)\<rparr>)"
| free: "destroying (shared s) \<Longrightarrow> queue_empty (shared s) \<Longrightarrow>
    throttle_step udp_max s (s\<lparr>freed := True\<rparr>)"

definition sys_of :: "NetworkThrottleContext \<Rightarrow> throttle_sys" where
  "sys_of c = \<lparr>shared = c, pcs = (\<lambda>_. Idle), clock = coin_bucket_last_fill c, freed = False, taken = 0, fills = 0,
     paid = 0, burst = 0, served = []\<rparr>"

inductive throttle_reach :: "64 word \<Rightarrow> NetworkThrottleContext \<Rightarrow> throttle_sys \<Rightarrow> bool" for udp_max c0 where
  start: "throttle_reach udp_max c0 (sys_of c0)"
| step: "throttle_reach udp_max c0 s \<Longrightarrow> throttle_step udp_max s s' \<Longrightarrow> throttle_reach udp_max c0 s'"


section \<open>The rate\<close>

lemma unat_plus_le: "unat (a + b :: 64 word) \<le> unat a + unat b"
  by (simp add: unat_word_ariths)

lemma fill_round_keeps [simp]:
  "coin_bucket_max (fill_round udp_max now restart c) = coin_bucket_max c"
  "coin_bucket_ms (fill_round udp_max now restart c) = coin_bucket_ms c"
  "next_queue_id (fill_round udp_max now restart c) = next_queue_id c"
  "current_queue_id (fill_round udp_max now restart c) = current_queue_id c"
  by (simp_all add: fill_round_def)

lemma fill_round_coins:
  assumes "round_fills c now"
  shows "unat (coin_bucket (fill_round udp_max now restart c)) \<le> unat (coin_bucket c) + unat (coin_bucket_max c)"
    and "unat (coin_bucket (fill_round udp_max now restart c)) \<le> unat (coin_bucket_max c) + unat udp_max"
    and "coin_bucket_last_fill (fill_round udp_max now restart c) = restart"
proof -
  have "unat (coin_bucket c + coin_bucket_max c) \<le> unat (coin_bucket c) + unat (coin_bucket_max c)" by (rule unat_plus_le)
  moreover have "coin_bucket c < udp_max \<Longrightarrow> unat (coin_bucket c) \<le> unat udp_max" by (simp add: word_less_nat_alt)
  ultimately show "unat (coin_bucket (fill_round udp_max now restart c)) \<le> unat (coin_bucket c) + unat (coin_bucket_max c)"
    "unat (coin_bucket (fill_round udp_max now restart c)) \<le> unat (coin_bucket_max c) + unat udp_max"
    "coin_bucket_last_fill (fill_round udp_max now restart c) = restart"
    using assms by (auto simp: fill_round_def round_fills_def)
qed

lemma fill_round_idle: "\<not> round_fills c now \<Longrightarrow> fill_round udp_max now restart c = c"
  by (simp add: fill_round_def round_fills_def)

definition rate_ok :: "64 word \<Rightarrow> NetworkThrottleContext \<Rightarrow> throttle_sys \<Rightarrow> bool" where
  "rate_ok udp_max c0 s \<longleftrightarrow>
     coin_bucket_max (shared s) = coin_bucket_max c0 \<and> coin_bucket_ms (shared s) = coin_bucket_ms c0 \<and>
     paid s + unat (coin_bucket (shared s)) \<le> unat (coin_bucket c0) + fills s * unat (coin_bucket_max c0) \<and>
     of_nat (fills s) * coin_bucket_ms c0 \<le>
       (coin_bucket_last_fill (shared s) - coin_bucket_last_fill c0) * MS_IN_SECOND \<and>
     coin_bucket_last_fill (shared s) \<le> clock s \<and>
     burst s + unat (coin_bucket (shared s)) \<le> max (unat (coin_bucket c0)) (unat (coin_bucket_max c0) + unat udp_max)"

lemma rate_ok_round:
  fixes s :: throttle_sys
  assumes ok: "rate_ok udp_max c0 s" and t: "clock s \<le> now" "now \<le> restart"
    and c: "c = fill_round udp_max now restart (shared s)" and b: "unat b \<le> unat (coin_bucket c)"
  shows "rate_ok udp_max c0 (s\<lparr>shared := c\<lparr>coin_bucket := coin_bucket c - b\<rparr>, pcs := p, clock := restart,
      fills := fills s + (if round_fills (shared s) now then 1 else 0), paid := paid s + unat b,
      burst := (if round_fills (shared s) now then 0 else burst s) + unat b, served := sv\<rparr>)"
proof -
  have pay: "unat (coin_bucket c - b) = unat (coin_bucket c) - unat b" using b by (simp add: unat_sub_if' word_le_nat_alt)
  have last: "coin_bucket_last_fill (shared s) \<le> clock s" using ok by (simp add: rate_ok_def)
  show ?thesis
  proof (cases "round_fills (shared s) now")
    case True
    note fc = fill_round_coins [OF True, of udp_max restart, folded c]
    have "coin_bucket_ms c0 < (now - coin_bucket_last_fill (shared s)) * MS_IN_SECOND"
      using True ok by (simp add: round_fills_def rate_ok_def)
    also have "\<dots> \<le> (restart - coin_bucket_last_fill (shared s)) * MS_IN_SECOND" using t by (simp add: MS_IN_SECOND_def)
    finally have "of_nat (fills s + 1) * coin_bucket_ms c0 \<le> (restart - coin_bucket_last_fill c0) * MS_IN_SECOND"
      using ok by (simp add: rate_ok_def algebra_simps)
    then show ?thesis using True ok fc b pay c by (simp add: rate_ok_def)
  next
    case False
    have "c = shared s" using fill_round_idle [OF False] c by simp
    then show ?thesis using False ok b pay t last by (simp add: rate_ok_def)
  qed
qed

lemma rate_ok_step:
  assumes "throttle_step udp_max s s'" "rate_ok udp_max c0 s"
  shows "rate_ok udp_max c0 s'"
  using assms
proof (induction rule: throttle_step.induct)
  case (starve s t q b now restart c)
  have "rate_ok udp_max c0 (s\<lparr>shared := c\<lparr>coin_bucket := coin_bucket c - 0\<rparr>, pcs := pcs s, clock := restart,
      fills := fills s + (if round_fills (shared s) now then 1 else 0), paid := paid s + unat (0 :: 64 word),
      burst := (if round_fills (shared s) now then 0 else burst s) + unat (0 :: 64 word), served := served s\<rparr>)"
    by (rule rate_ok_round [OF starve.prems starve.hyps(2-4)]) simp
  then show ?case by (simp add: rate_ok_def)
next
  case (pay s t q b now restart c)
  have "unat b \<le> unat (coin_bucket c)" using pay.hyps(5) by (simp add: word_less_nat_alt)
  from rate_ok_round [OF pay.prems pay.hyps(2-4) this] show ?case .
qed (auto simp: rate_ok_def take_ticket_def next_ticket_def request_destroy_def)

lemma reach_rate: "throttle_reach udp_max c0 s \<Longrightarrow> rate_ok udp_max c0 s"
proof (induction rule: throttle_reach.induct)
  case (step s s')
  then show ?case by (blast intro: rate_ok_step)
qed (simp add: rate_ok_def sys_of_def)


section \<open>The order\<close>

fun ticket_of :: "thread_pc \<Rightarrow> 32 word option" where
  "ticket_of (Queued q b) = Some q"
| "ticket_of (Asleep q b) = Some q"
| "ticket_of (Filling q b) = Some q"
| "ticket_of (Paid q b) = Some q"
| "ticket_of pc = None"

fun has_turn :: "thread_pc \<Rightarrow> bool" where
  "has_turn (Filling q b) = True"
| "has_turn (Paid q b) = True"
| "has_turn pc = False"

fun is_paid :: "thread_pc \<Rightarrow> bool" where
  "is_paid (Paid q b) = True"
| "is_paid pc = False"

fun is_asleep :: "thread_pc \<Rightarrow> bool" where
  "is_asleep (Asleep q b) = True"
| "is_asleep pc = False"

text \<open>\<open>own\<close> numbers the tickets that are held, from the \<open>k\<close> that is served to the last one given out.\<close>

definition tickets :: "nat \<Rightarrow> (nat \<rightharpoonup> nat) \<Rightarrow> throttle_sys \<Rightarrow> bool" where
  "tickets k own s \<longleftrightarrow>
     next_queue_id (shared s) = of_nat (taken s) \<and> current_queue_id (shared s) = of_nat k \<and> k \<le> taken s \<and>
     inj_on own (dom own) \<and> ran own = {k..<taken s} \<and>
     (\<forall>t. ticket_of (pcs s t) = map_option of_nat (own t)) \<and>
     (\<forall>t. has_turn (pcs s t) \<longrightarrow> own t = Some k) \<and> (\<forall>t. is_asleep (pcs s t) \<longrightarrow> own t \<noteq> Some k) \<and>
     served s = map of_nat [0..<k] @ (if \<exists>t. is_paid (pcs s t) then [of_nat k] else [])"

lemma ticket_wake [simp]:
  "ticket_of (wake pc) = ticket_of pc" "has_turn (wake pc) = has_turn pc" "is_paid (wake pc) = is_paid pc" "\<not> is_asleep (wake pc)"
  by (cases pc; simp)+

lemma sint_small: "n < 2 ^ 31 \<Longrightarrow> sint (of_nat n :: 32 word) = int n"
  by (simp add: signed_of_nat signed_take_bit_int_eq_self)

lemma must_wait_iff:
  assumes "current_queue_id c = of_nat k" "k < 2 ^ 31" "n < 2 ^ 31"
  shows "must_wait c (of_nat n) \<longleftrightarrow> k < n"
  using assms by (simp add: must_wait_def sint_small)


lemma tickets_turn_unique:
  assumes "tickets k own s" "has_turn (pcs s t)" "has_turn (pcs s u)"
  shows "t = u"
proof -
  have "own t = Some k" "own u = Some k" using assms by (simp_all add: tickets_def)
  moreover have "inj_on own (dom own)" using assms(1) by (simp add: tickets_def)
  ultimately show ?thesis using inj_onD [of own "dom own" t u] by auto
qed

lemma tickets_same:
  assumes "tickets k own s" "next_queue_id (shared s') = next_queue_id (shared s)"
    "current_queue_id (shared s') = current_queue_id (shared s)" "taken s' = taken s" "served s' = served s"
    and "\<And>t. ticket_of (pcs s' t) = ticket_of (pcs s t)" "\<And>t. has_turn (pcs s' t) \<Longrightarrow> own t = Some k"
    "\<And>t. is_asleep (pcs s' t) \<Longrightarrow> own t \<noteq> Some k" "\<And>t. is_paid (pcs s' t) = is_paid (pcs s t)"
  shows "tickets k own s'"
  using assms unfolding tickets_def by simp

lemma tickets_number:
  assumes "tickets k own s" "ticket_of (pcs s t) = Some q"
  obtains n where "own t = Some n" "q = of_nat n" "k \<le> n" "n < taken s"
proof -
  have tk: "map_option of_nat (own t) = Some q" and ran: "ran own = {k..<taken s}"
    using assms unfolding tickets_def by metis+
  then obtain n where n: "own t = Some n" "q = of_nat n" by auto
  then have "n \<in> ran own" by (simp add: ranI)
  with n ran that show thesis by simp
qed

lemma tickets_take:
  assumes ok: "tickets k own s" and t: "pcs s t = Checked b" and tk: "take_ticket (shared s) = (q, c)"
  shows "tickets k (own(t \<mapsto> taken s)) (s\<lparr>shared := c, pcs := (pcs s)(t := Queued q b), taken := taken s + 1\<rparr>)"
proof -
  have none: "own t = None" using ok t unfolding tickets_def by (metis map_option_is_None ticket_of.simps(6))
  have ran: "taken s \<notin> ran own" "ran (own(t \<mapsto> taken s)) = {k..<Suc (taken s)}"
    using ok none by (auto simp: tickets_def)
  have "inj_on (own(t \<mapsto> taken s)) (dom (own(t \<mapsto> taken s)))"
    using ok ran(1) none by (auto simp: tickets_def inj_on_def ran_def)
  moreover have "(\<exists>u. is_paid (((pcs s)(t := Queued q b)) u)) = (\<exists>u. is_paid (pcs s u))" using t by (auto split: if_splits) (metis is_paid.simps(3))
  ultimately show ?thesis using ok ran(2) tk none by (auto simp: tickets_def take_ticket_def)
qed

lemma tickets_pay:
  assumes ok: "tickets k own s" and t: "pcs s t = Filling q b"
    and c: "next_queue_id c = next_queue_id (shared s)" "current_queue_id c = current_queue_id (shared s)"
  shows "tickets k own (s\<lparr>shared := c, pcs := (pcs s)(t := Paid q b), clock := cl, fills := fl, paid := pd, burst := br,
    served := served s @ [q]\<rparr>)"
proof -
  have turn: "own t = Some k" using ok t by (simp add: tickets_def)
  then have q: "q = of_nat k" using ok t unfolding tickets_def by (metis option.map(2) option.inject ticket_of.simps(3))
  have "\<not> is_paid (pcs s u)" for u
  proof
    assume "is_paid (pcs s u)"
    then have "has_turn (pcs s u)" by (cases "pcs s u") simp_all
    from tickets_turn_unique [OF ok this, of t] t \<open>is_paid (pcs s u)\<close> show False by simp
  qed
  moreover have "\<exists>u. is_paid (((pcs s)(t := Paid q b)) u)" by (intro exI [of _ t]) simp
  ultimately show ?thesis using ok t c turn q unfolding tickets_def by simp
qed

lemma tickets_pass_on:
  assumes ok: "tickets k own s" and t: "pcs s t = Paid q b"
  shows "tickets (Suc k) (own(t := None)) (s\<lparr>shared := next_ticket (shared s), pcs := (\<lambda>u. wake (((pcs s)(t := Returning)) u))\<rparr>)"
proof -
  have turn: "own t = Some k" using ok t by (simp add: tickets_def)
  have inj: "inj_on own (dom own)" and ran: "ran own = {k..<taken s}" using ok by (simp_all add: tickets_def)
  have other: "u = t" if "own u = Some k" for u using inj_onD [OF inj, of u t] that turn by auto
  have "k \<in> ran own" using turn by (simp add: ranI)
  then have k: "k < taken s" using ran by simp
  have "ran (own(t := None)) = ran own - {k}"
  proof (intro set_eqI iffI)
    fix n assume "n \<in> ran (own(t := None))"
    then obtain u where u: "u \<noteq> t" "own u = Some n" by (auto simp: ran_def split: if_splits)
    with other [of u] show "n \<in> ran own - {k}" by (auto simp: ranI)
  next
    fix n assume "n \<in> ran own - {k}"
    then obtain u where u: "own u = Some n" "n \<noteq> k" by (auto simp: ran_def)
    with turn have "(own(t := None)) u = Some n" by auto
    then show "n \<in> ran (own(t := None))" by (rule ranI)
  qed
  moreover have "{k..<taken s} - {k} = {Suc k..<taken s}" by auto
  ultimately have ran': "ran (own(t := None)) = {Suc k..<taken s}" using ran by simp
  have inj': "inj_on (own(t := None)) (dom (own(t := None)))" using inj by (auto simp: inj_on_def)
  have turn': "\<not> has_turn (pcs s u)" if "u \<noteq> t" for u using ok other that by (auto simp: tickets_def)
  have "\<not> is_paid (pcs s u)" if "u \<noteq> t" for u using turn' [OF that] by (cases "pcs s u") simp_all
  then have paid': "\<not> (\<exists>u. is_paid (((pcs s)(t := Returning)) u))" by simp
  have "\<exists>u. is_paid (pcs s u)" using t by (intro exI [of _ t]) simp
  then have "served s = map of_nat [0..<k] @ [of_nat k]" using ok by (simp add: tickets_def)
  then have served': "served s = map of_nat [0..<Suc k]" by simp
  have tick: "\<forall>u. ticket_of (((pcs s)(t := Returning)) u) = map_option of_nat ((own(t := None)) u)"
    using ok by (simp add: tickets_def)
  show ?thesis
    unfolding tickets_def using ok k ran' inj' turn' paid' served' tick by (simp add: tickets_def next_ticket_def)
qed


lemma taken_mono: "throttle_step udp_max s s' \<Longrightarrow> taken s \<le> taken s'"
  by (induction rule: throttle_step.induct) simp_all

lemma tickets_step:
  assumes "throttle_step udp_max s s'" "tickets k own s" "taken s < 2 ^ 31"
  shows "\<exists>k own. tickets k own s'"
  using assms
proof (induction rule: throttle_step.induct)
  case (check s t b)
  have "own t = None" using check.prems(1) check.hyps(1) unfolding tickets_def by (metis map_option_is_None ticket_of.simps(5))
  then have "tickets k own (s\<lparr>pcs := (pcs s)(t := Checked b)\<rparr>)"
    by (intro tickets_same [OF check.prems(1)]) (use check in \<open>auto simp: tickets_def split: if_splits\<close>)
  then show ?case by blast
next
  case (take s t b q c)
  then show ?case using tickets_take by blast
next
  case (sleep s t q b)
  obtain n where n: "own t = Some n" "q = of_nat n" "k \<le> n" "n < taken s"
    using tickets_number [OF sleep.prems(1), of t q] sleep.hyps(1) by auto
  have "k < n" using sleep.hyps(2) must_wait_iff [of "shared s" k n] n sleep.prems by (simp add: tickets_def)
  then have "tickets k own (s\<lparr>pcs := (pcs s)(t := Asleep q b)\<rparr>)"
    by (intro tickets_same [OF sleep.prems(1)]) (use sleep n in \<open>auto simp: tickets_def split: if_splits\<close>)
  then show ?case by blast
next
  case (enter s t q b)
  obtain n where n: "own t = Some n" "q = of_nat n" "k \<le> n" "n < taken s"
    using tickets_number [OF enter.prems(1), of t q] enter.hyps(1) by auto
  have "n = k" using enter.hyps(2) must_wait_iff [of "shared s" k n] n enter.prems by (simp add: tickets_def)
  then have "tickets k own (s\<lparr>pcs := (pcs s)(t := Filling q b)\<rparr>)"
    by (intro tickets_same [OF enter.prems(1)]) (use enter n in \<open>auto simp: tickets_def split: if_splits\<close>)
  then show ?case by blast
next
  case (starve s t q b now restart c)
  let ?s' = "s\<lparr>shared := c, clock := restart, fills := fills s + (if round_fills (shared s) now then 1 else 0),
      burst := (if round_fills (shared s) now then 0 else burst s)\<rparr>"
  have "tickets k own ?s'" by (intro tickets_same [OF starve.prems(1)]) (use starve in \<open>auto simp: tickets_def split: if_splits\<close>)
  then show ?case by blast
next
  case (pay s t q b now restart c)
  have "next_queue_id (c\<lparr>coin_bucket := coin_bucket c - b\<rparr>) = next_queue_id (shared s)"
    "current_queue_id (c\<lparr>coin_bucket := coin_bucket c - b\<rparr>) = current_queue_id (shared s)" by (simp_all add: pay.hyps(4))
  from tickets_pay [OF pay.prems(1) pay.hyps(1) this] show ?case by blast
next
  case (pass_on s t q b)
  then show ?case using tickets_pass_on by blast
next
  case (return s t)
  have "own t = None" using return.prems(1) return.hyps(1) unfolding tickets_def by (metis map_option_is_None ticket_of.simps(7))
  then have "tickets k own (s\<lparr>pcs := (pcs s)(t := Idle)\<rparr>)"
    by (intro tickets_same [OF return.prems(1)]) (use return in \<open>auto simp: tickets_def split: if_splits\<close>)
  then show ?case by blast
next
  case (destroy s)
  have "tickets k own (s\<lparr>shared := request_destroy (shared s)\<rparr>)"
    by (intro tickets_same [OF destroy.prems(1)]) (use destroy in \<open>auto simp: tickets_def request_destroy_def split: if_splits\<close>)
  then show ?case by blast
next
  case (free s)
  have "tickets k own (s\<lparr>freed := True\<rparr>)"
    by (intro tickets_same [OF free.prems(1)]) (use free in \<open>auto simp: tickets_def split: if_splits\<close>)
  then show ?case by blast
qed blast

lemma reach_tickets:
  assumes "throttle_reach udp_max c0 s" "next_queue_id c0 = 0" "current_queue_id c0 = 0" "taken s < 2 ^ 31"
  shows "\<exists>k own. tickets k own s"
  using assms
proof (induction rule: throttle_reach.induct)
  case start
  then have "tickets 0 Map.empty (sys_of c0)" by (simp add: tickets_def sys_of_def)
  then show ?case by blast
next
  case (step s s')
  have "taken s < 2 ^ 31" using taken_mono [OF step.hyps(2)] step.prems(3) by simp
  with step.IH [OF step.prems(1,2)] tickets_step [OF step.hyps(2)] show ?case by blast
qed


section \<open>Waiting for coins\<close>

text \<open>Readings that are more than one bucket interval apart, as they are after the sleep in the loop.\<close>

fun spaced :: "rat \<Rightarrow> rat \<Rightarrow> (rat \<times> rat) list \<Rightarrow> bool" where
  "spaced ms since [] = True"
| "spaced ms since ((now, restart) # ts) \<longleftrightarrow> (now - since) * MS_IN_SECOND > ms \<and> spaced ms restart ts"

lemma wait_coins_pays:
  assumes "spaced (coin_bucket_ms c) (coin_bucket_last_fill c) ts" "ts \<noteq> []" "bytes \<le> udp_max"
    and "unat udp_max + unat (coin_bucket_max c) < 2 ^ 64"
    and "unat bytes \<le> (if coin_bucket c < udp_max then unat (coin_bucket c) else 0) + length ts * unat (coin_bucket_max c)"
  shows "\<exists>c'. wait_coins udp_max ts bytes c = Some c'"
  using assms
proof (induction ts arbitrary: c)
  case (Cons tr ts)
  obtain now restart where tr: "tr = (now, restart)" by (cases tr)
  define d where "d = fill_round udp_max now restart c"
  have fills: "(now - coin_bucket_last_fill c) * MS_IN_SECOND > coin_bucket_ms c" using Cons.prems(1) tr by simp
  have d: "coin_bucket_ms d = coin_bucket_ms c" "coin_bucket_max d = coin_bucket_max c" "coin_bucket_last_fill d = restart"
    "coin_bucket d = (if coin_bucket c < udp_max then coin_bucket c + coin_bucket_max c else coin_bucket_max c)"
    using fills by (simp_all add: d_def fill_round_def)
  have wrap: "unat (coin_bucket c + coin_bucket_max c) = unat (coin_bucket c) + unat (coin_bucket_max c)" if "coin_bucket c < udp_max"
    using that Cons.prems(4) by (simp add: unat_word_ariths word_less_nat_alt)
  have coins: "unat bytes \<le> unat (coin_bucket d) + length ts * unat (coin_bucket_max c)"
    using Cons.prems(5) wrap d(4) by (auto split: if_splits)
  show ?case
  proof (cases "bytes > coin_bucket d")
    case True
    then have "coin_bucket d < udp_max" using Cons.prems(3) by simp
    moreover have "ts \<noteq> []" using True coins by (auto simp: word_less_nat_alt)
    ultimately have "\<exists>c'. wait_coins udp_max ts bytes d = Some c'"
      using Cons.IH [of d] Cons.prems coins d tr by simp
    then show ?thesis using True tr by (simp add: d_def)
  qed (simp add: tr flip: d_def)
qed simp

lemma wait_coins_never:
  assumes "unat (coin_bucket_max c) + unat udp_max \<le> unat bytes" "coin_bucket c < bytes" "0 < udp_max"
  shows "wait_coins udp_max ts bytes c = None"
  using assms
proof (induction ts arbitrary: c)
  case (Cons tr ts)
  obtain now restart where tr: "tr = (now, restart)" by (cases tr)
  let ?d = "fill_round udp_max now restart c"
  have "unat (coin_bucket ?d) < unat bytes"
  proof (cases "round_fills c now")
    case True
    have "unat (coin_bucket c) + unat (coin_bucket_max c) < unat bytes" if "coin_bucket c < udp_max"
      using that Cons.prems(1) by (simp add: word_less_nat_alt)
    moreover have "unat (coin_bucket_max c) < unat bytes" if "\<not> coin_bucket c < udp_max"
      using that Cons.prems by (simp add: word_less_nat_alt)
    ultimately show ?thesis
      using True unat_plus_le [of "coin_bucket c" "coin_bucket_max c"] by (auto simp: fill_round_def round_fills_def)
  qed (use Cons.prems(2) in \<open>simp add: fill_round_idle word_less_nat_alt\<close>)
  then have "coin_bucket ?d < bytes" by (simp add: word_less_nat_alt)
  then show ?case using Cons.IH [of ?d] Cons.prems(1,3) tr by simp
qed simp


section \<open>Properties\<close>

lemma unat_size_of_double:
  assumes "0 \<le> x"
  shows "of_nat (unat (size_of_double x)) \<le> x"
proof -
  have "int (unat (size_of_double x)) \<le> \<lfloor>x\<rfloor>"
    using assms by (simp add: size_of_double_def unsigned_of_int uint_word_of_int_eq take_bit_int_less_eq_self_iff)
  then have "rat_of_int (int (unat (size_of_double x))) \<le> rat_of_int \<lfloor>x\<rfloor>" by linarith
  from order_trans [OF this of_int_floor_le] show ?thesis by simp
qed

text \<open>A throttler as the UDP code sets it up: a bucket of 5 ms, filled initially, at 8 Mbps.\<close>

definition example_ctx :: NetworkThrottleContext where
  "example_ctx = network_throttler_set_burst_bitrate (network_throttler_create 0 5 True) 8000000"

lemma example_ctx_eq:
  "example_ctx = \<lparr>coin_bucket_ms = 5, coin_bucket_max = 5000, coin_bucket = 5000, burst_bitrate = 8000000,
     coin_bucket_last_fill = 0, next_queue_id = 0, current_queue_id = 0, group_id = 0, destroying = False,
     fill_bucket_initially = True\<rparr>"
  by (simp add: example_ctx_def network_throttler_set_burst_bitrate_def network_throttler_create_def bucket_size_def
    size_of_double_def STARTING_THROTTLER_BITRATE_def MS_IN_SECOND_def BITS_IN_BYTE_def)

lemma example_run:
  "\<exists>s. throttle_reach 1500 example_ctx s \<and> paid s = 1000 \<and> taken s = 1 \<and> clock s = 1 / 1000 \<and> served s = [0]"
proof -
  let ?s0 = "sys_of example_ctx" and ?c = "example_ctx\<lparr>next_queue_id := 1\<rparr>"
  let ?s1 = "?s0\<lparr>pcs := (pcs ?s0)(0 := Checked 1000)\<rparr>"
  let ?s2 = "?s1\<lparr>shared := ?c, pcs := (pcs ?s1)(0 := Queued 0 1000), taken := taken ?s1 + 1\<rparr>"
  let ?s3 = "?s2\<lparr>pcs := (pcs ?s2)(0 := Filling 0 1000)\<rparr>"
  have "throttle_step 1500 ?s0 ?s1" by (rule throttle_step.check) (simp_all add: sys_of_def turned_away_def example_ctx_eq)
  then have r1: "throttle_reach 1500 example_ctx ?s1" by (rule throttle_reach.step [OF throttle_reach.start])
  have "throttle_step 1500 ?s1 ?s2" by (rule throttle_step.take) (simp_all add: sys_of_def take_ticket_def example_ctx_eq)
  then have r2: "throttle_reach 1500 example_ctx ?s2" by (rule throttle_reach.step [OF r1])
  have "throttle_step 1500 ?s2 ?s3" by (rule throttle_step.enter) (simp_all add: must_wait_def example_ctx_eq)
  then have r3: "throttle_reach 1500 example_ctx ?s3" by (rule throttle_reach.step [OF r2])
  have "\<exists>s'. throttle_step 1500 ?s3 s' \<and> paid s' = 1000 \<and> taken s' = 1 \<and> clock s' = 1 / 1000 \<and> served s' = [0]"
    by (intro exI conjI, rule throttle_step.pay [where t = 0 and q = 0 and b = 1000 and now = "1 / 1000" and restart = "1 / 1000" and c = ?c])
      (simp_all add: sys_of_def fill_round_def MS_IN_SECOND_def example_ctx_eq)
  then show ?thesis using throttle_reach.step [OF r3] by blast
qed



text \<open>C11: the threads are served one at a time and in the order in which they took their tickets, and while a ticket
  is out, the thread whose turn it is exists and is awake. This holds until \<open>2 ^ 31\<close> tickets have been given out.\<close>

theorem throttle_fifo:
  assumes "throttle_reach udp_max c0 s" "next_queue_id c0 = 0" "current_queue_id c0 = 0" "taken s < 2 ^ 31"
  shows "(\<forall>t u. has_turn (pcs s t) \<and> has_turn (pcs s u) \<longrightarrow> t = u) \<and>
    served s = map of_nat [0..<length (served s)] \<and>
    (current_queue_id (shared s) \<noteq> next_queue_id (shared s) \<longrightarrow>
      (\<exists>t. ticket_of (pcs s t) = Some (current_queue_id (shared s)) \<and> \<not> is_asleep (pcs s t)))"
proof -
  obtain k own where ok: "tickets k own s" using reach_tickets [OF assms] by blast
  have "\<forall>t u. has_turn (pcs s t) \<and> has_turn (pcs s u) \<longrightarrow> t = u" using tickets_turn_unique [OF ok] by blast
  moreover have "served s = map of_nat [0..<length (served s)]" using ok by (auto simp: tickets_def)
  moreover have "\<exists>t. ticket_of (pcs s t) = Some (current_queue_id (shared s)) \<and> \<not> is_asleep (pcs s t)"
    if "current_queue_id (shared s) \<noteq> next_queue_id (shared s)"
  proof -
    have "k \<noteq> taken s" "k \<le> taken s" using that ok by (auto simp: tickets_def)
    then have "k \<in> ran own" using ok by (simp add: tickets_def)
    then obtain t where "own t = Some k" by (auto simp: ran_def)
    then show ?thesis using ok by (intro exI [of _ t]) (auto simp: tickets_def)
  qed
  ultimately show ?thesis by blast
qed

theorem throttle_fifo_witness:
  "\<exists>s. throttle_reach 1500 example_ctx s \<and> served s = [0] \<and> served s = map of_nat [0..<length (served s)]"
proof -
  obtain s where s: "throttle_reach 1500 example_ctx s" "taken s = 1" "served s = [0]" using example_run by blast
  from throttle_fifo [OF s(1)] s show ?thesis by (intro exI [of _ s]) (simp add: example_ctx_eq)
qed

text \<open>C32: a packet that fits into a UDP packet is sent at last: when the bucket can hold anything at all, rounds that are
  more than a bucket interval apart pay for it, at the latest after as many as it is buckets long.\<close>

theorem throttle_packet_sent:
  assumes "bytes \<le> udp_max" "unat udp_max + unat (coin_bucket_max c) < 2 ^ 64"
    and "spaced (coin_bucket_ms c) (coin_bucket_last_fill c) ts" "ts \<noteq> []" "unat bytes \<le> length ts * unat (coin_bucket_max c)"
  shows "\<exists>c'. wait_coins udp_max ts bytes c = Some c'"
  using assms by (intro wait_coins_pays) auto

theorem throttle_packet_sent_witness:
  "\<exists>c'. wait_coins 1500 [(6 / 1000, 6 / 1000)] 1400 (example_ctx\<lparr>coin_bucket := 0\<rparr>) = Some c'"
proof -
  have "unat (1500 :: 64 word) + unat (coin_bucket_max (example_ctx\<lparr>coin_bucket := 0\<rparr>)) < 2 ^ 64" by (simp add: example_ctx_eq)
  then show ?thesis by (intro throttle_packet_sent) (simp_all add: example_ctx_eq MS_IN_SECOND_def)
qed

text \<open>C33: a packet that is longer than a bucket and a UDP packet together is never paid for, whatever the clock
  reads, unless the bucket holds enough when it is asked: the call does not return, and nor does any call behind it.\<close>

theorem throttle_oversized_blocks:
  assumes "unat (coin_bucket_max c) + unat udp_max \<le> unat bytes" "coin_bucket c < bytes" "0 < udp_max" "\<not> turned_away c"
  shows "network_throttler_wait_byte_allocation udp_max ts (Some c) bytes = None"
proof -
  have "wait_coins udp_max ts bytes (snd (take_ticket c)) = None"
    by (rule wait_coins_never) (use assms in \<open>simp_all add: take_ticket_def\<close>)
  then show ?thesis using assms(4) by (simp add: network_throttler_wait_byte_allocation_def take_ticket_def)
qed

theorem throttle_oversized_blocks_witness:
  "network_throttler_wait_byte_allocation 1500 [(1, 1), (2, 2)] (Some example_ctx) 7000 = None"
  by (rule throttle_oversized_blocks) (simp_all add: example_ctx_eq turned_away_def)

text \<open>C34: lowering the bitrate can switch the throttler off until the next fill. When the bucket holds less
  than the difference between the old and the new size, the unsigned sum in \<^verbatim>\<open>network_throttler_set_burst_bitrate\<close> wraps around
  and the bucket holds almost \<open>2 ^ 64\<close> coins.\<close>

theorem throttle_decrease_wraps:
  assumes "fill_bucket_initially c" "new_max = bucket_size (coin_bucket_ms c) bitrate"
    and "unat (coin_bucket c) + unat new_max < unat (coin_bucket_max c)"
  shows "unat (coin_bucket (network_throttler_set_burst_bitrate c bitrate)) =
    2 ^ 64 + unat (coin_bucket c) + unat new_max - unat (coin_bucket_max c)"
proof -
  have lt: "unat (coin_bucket_max c) < 2 ^ 64" using unsigned_less [of "coin_bucket_max c"] by simp
  have sum: "unat (coin_bucket c + new_max) = unat (coin_bucket c) + unat new_max"
    using assms(3) lt by (simp add: unat_word_ariths)
  have "unat (coin_bucket c + new_max - coin_bucket_max c) = 2 ^ 64 + unat (coin_bucket c + new_max) - unat (coin_bucket_max c)"
    using assms(3) sum by (simp add: unat_sub_if_size word_size word_le_nat_alt)
  moreover have "max w 0 = w" for w :: "64 word" by (simp add: max_absorb1)
  ultimately show ?thesis
    using assms(1,2) sum by (simp add: network_throttler_set_burst_bitrate_def Let_def)
qed

theorem throttle_decrease_wraps_witness:
  "unat (coin_bucket (network_throttler_set_burst_bitrate (example_ctx\<lparr>coin_bucket := 100\<rparr>) 1600000)) = 2 ^ 64 - 3900"
proof -
  have m: "bucket_size (coin_bucket_ms (example_ctx\<lparr>coin_bucket := 100\<rparr>)) 1600000 = 1000"
    by (simp add: example_ctx_eq bucket_size_def size_of_double_def MS_IN_SECOND_def BITS_IN_BYTE_def)
  from throttle_decrease_wraps [of "example_ctx\<lparr>coin_bucket := 100\<rparr>" _ 1600000, OF _ m [symmetric]]
  show ?thesis by (simp add: example_ctx_eq)
qed


text \<open>C35: destroying a throttler does not wait for a thread that has passed the test of \<^verbatim>\<open>destroying\<close> but has not
  taken its ticket: the context can be freed while such a thread is about to use it.\<close>

theorem throttle_destroy_race:
  "\<exists>s t. throttle_reach udp_max example_ctx s \<and> freed s \<and> pcs s t = Checked b"
proof -
  let ?s0 = "sys_of example_ctx"
  let ?s1 = "?s0\<lparr>pcs := (pcs ?s0)(0 := Checked b)\<rparr>"
  let ?s2 = "?s1\<lparr>shared := request_destroy (shared ?s1)\<rparr>"
  let ?s3 = "?s2\<lparr>freed := True\<rparr>"
  have "throttle_step udp_max ?s0 ?s1" by (rule throttle_step.check) (simp_all add: sys_of_def turned_away_def example_ctx_eq)
  then have r1: "throttle_reach udp_max example_ctx ?s1" by (rule throttle_reach.step [OF throttle_reach.start])
  have r2: "throttle_reach udp_max example_ctx ?s2" by (rule throttle_reach.step [OF r1 throttle_step.destroy])
  have "throttle_step udp_max ?s2 ?s3" by (rule throttle_step.free) (simp_all add: sys_of_def example_ctx_eq request_destroy_def queue_empty_def)
  then have "throttle_reach udp_max example_ctx ?s3" by (rule throttle_reach.step [OF r2])
  then show ?thesis by (intro exI [of _ ?s3] exI [of _ 0]) simp
qed

end
