(* ===== verification/Network_Algorithm.thy ===== *)
theory Network_Algorithm
  imports Network_Settings "HOL-Library.Word"
begin

text \<open>
  The congestion controller, \<^verbatim>\<open>protocol/whist/network/network_algorithm.c\<close>: it chooses the bitrate of the video
  stream from the delays, the losses and the bitrate that the client measures.

  The static variables of the C functions are one record. Doubles are real numbers, \<^verbatim>\<open>pow\<close> is \<open>powr\<close>; the conversion to
  \<^verbatim>\<open>int\<close> truncates, and bitrates are integers without a bound (C leaves an overflow undefined, and the bounds proved
  below keep the values in range for every display up to 8K). Timestamps are 64-bit words. Each reading of the clock in a
  call is a component of an argument. The controller of the error correction is C++: its two
  functions are parameters.
\<close>

section \<open>Constants and data\<close>

definition MINIMUM_BITRATE_PER_PIXEL :: real where "MINIMUM_BITRATE_PER_PIXEL = 3 / 4"
definition MAXIMUM_BITRATE_PER_PIXEL :: real where "MAXIMUM_BITRATE_PER_PIXEL = 4"
definition STARTING_BITRATE_PER_PIXEL :: real where "STARTING_BITRATE_PER_PIXEL = 3"
definition MAX_INCREASE_PERCENTAGE :: real where "MAX_INCREASE_PERCENTAGE = 16"
definition MIN_INCREASE_PERCENTAGE :: real where "MIN_INCREASE_PERCENTAGE = 1 / 2"
definition NEW_BITRATE_DURATION_IN_SEC :: real where "NEW_BITRATE_DURATION_IN_SEC = 1"
definition OVERUSE_TIME_THRESHOLD_IN_SEC :: real where "OVERUSE_TIME_THRESHOLD_IN_SEC = 1 / 100"
definition CONVERGENCE_THRESHOLD_LOW :: real where "CONVERGENCE_THRESHOLD_LOW = 3 / 4"
definition DPI_BITRATE_PER_PIXEL :: real where "DPI_BITRATE_PER_PIXEL = 192"
definition BURST_BITRATE_RATIO :: int where "BURST_BITRATE_RATIO = 4"
definition DPI_RATIO_EXPONENT :: real where "DPI_RATIO_EXPONENT = 16 / 10"
definition EWMA_FACTOR :: real where "EWMA_FACTOR = 3 / 10"
definition MAX_BITRATE_EWMA_FACTOR :: real where "MAX_BITRATE_EWMA_FACTOR = 1 / 20"
definition DELAY_VARIATION_THRESHOLD_IN_SEC :: real where "DELAY_VARIATION_THRESHOLD_IN_SEC = 1 / 100"
definition LONG_OVERUSE_TIME_THRESHOLD_IN_SEC :: real where "LONG_OVERUSE_TIME_THRESHOLD_IN_SEC = 1 / 10"
definition DECREASE_RATIO :: real where "DECREASE_RATIO = 95 / 100"
definition BANDWITH_USED_THRESHOLD :: real where "BANDWITH_USED_THRESHOLD = 95 / 100"
definition MIN_LATENCY_THRESHOLD_SEC :: real where "MIN_LATENCY_THRESHOLD_SEC = 5 / 100"
definition LATENCY_MULTIPLIER_BURST_MODE :: real where "LATENCY_MULTIPLIER_BURST_MODE = 2"
definition LATENCY_MULTIPLIER_NORMAL_MODE :: real where "LATENCY_MULTIPLIER_NORMAL_MODE = 13 / 10"
definition LATENCY_MULTIPLIER_HOLD_STATE :: real where "LATENCY_MULTIPLIER_HOLD_STATE = 11 / 10"
definition MIN_UPDATE_INTERVAL_SEVERE_CONGESTION_SEC :: real where
  "MIN_UPDATE_INTERVAL_SEVERE_CONGESTION_SEC = 25 / 1000"
definition ENABLE_FEC :: bool where "ENABLE_FEC = False"
definition INITIAL_FEC_RATIO :: real where "INITIAL_FEC_RATIO = 5 / 100"

datatype WccOp = WCC_INCREASE_BWD | WCC_DECREASE_BWD | WCC_NO_OP

datatype overuse_signal = UNDERUSE_SIGNAL | NORMAL_SIGNAL | OVERUSE_SIGNAL

datatype delay_state = DELAY_CONTROLLER_INCREASE | DELAY_CONTROLLER_HOLD | DELAY_CONTROLLER_DECREASE

record GroupStats =
  stats_group_id :: int
  departure_time :: "64 word"
  arrival_time :: "64 word"

record CongestionState =
  network_algo_width :: int
  network_algo_height :: int
  network_algo_insufficient_bandwidth :: bool
  dpi :: int
  last_update_timer :: real
  overuse_timer :: real
  last_decrease_timer :: real
  delay_controller_initialized :: bool
  filtered_delay_variation :: real
  increase_percentage :: real
  burst_mode :: bool
  max_bitrate_available :: int
  last_successful_bitrate :: int
  delay_controller_state :: delay_state
  maybe_overuse :: bool

text \<open>The static variables when the program starts; a timer that has not been started is not read.\<close>

definition congestion_init :: CongestionState where
  "congestion_init = \<lparr>network_algo_width = 0, network_algo_height = 0, network_algo_insufficient_bandwidth = False,
     dpi = -1, last_update_timer = 0, overuse_timer = 0, last_decrease_timer = 0,
     delay_controller_initialized = False, filtered_delay_variation = 0,
     increase_percentage = MAX_INCREASE_PERCENTAGE, burst_mode = False, max_bitrate_available = 0,
     last_successful_bitrate = 0, delay_controller_state = DELAY_CONTROLLER_HOLD, maybe_overuse = False\<rparr>"

text \<open>The readings of the clock in one call, in the order of the code.\<close>

record readings =
  at_entry :: real
  at_maybe :: real
  at_overuse :: real
  at_increase :: real
  at_decrease :: real
  at_decreased :: real
  at_updated :: real
  at_stuck :: real
  at_fec :: real

section \<open>Bitrates\<close>

text \<open>Division of a double by zero is infinite in C, and the ratio is then limited to 2.\<close>

definition get_video_bitrate :: "int \<Rightarrow> int \<Rightarrow> int \<Rightarrow> real \<Rightarrow> int" where
  "get_video_bitrate width height screen_dpi bitrate_per_pixel =
     (let dpi_ratio = (if screen_dpi = 0 then 2
                       else max (min (DPI_BITRATE_PER_PIXEL / of_int screen_dpi) 2) (1 / 2));
          dpi_scaling_factor = dpi_ratio powr DPI_RATIO_EXPONENT
      in trunc (of_int (width * height) * bitrate_per_pixel * dpi_scaling_factor))"

definition MINIMUM_BITRATE :: "CongestionState \<Rightarrow> int" where
  "MINIMUM_BITRATE cs =
     get_video_bitrate (network_algo_width cs) (network_algo_height cs) (dpi cs) MINIMUM_BITRATE_PER_PIXEL"

definition MAXIMUM_BITRATE :: "CongestionState \<Rightarrow> int" where
  "MAXIMUM_BITRATE cs =
     get_video_bitrate (network_algo_width cs) (network_algo_height cs) (dpi cs) MAXIMUM_BITRATE_PER_PIXEL"

definition get_default_network_settings :: "int \<Rightarrow> int \<Rightarrow> int \<Rightarrow> NetworkSettings option" where
  "get_default_network_settings width height screen_dpi = do {
     fatal_assert (width > 0 \<and> height > 0 \<and> screen_dpi > 0);
     let bitrate = get_video_bitrate width height screen_dpi STARTING_BITRATE_PER_PIXEL;
     Some \<lparr>video_bitrate = bitrate, burst_bitrate = bitrate, audio_fec_ratio = 0,
           video_fec_ratio = (if ENABLE_FEC then INITIAL_FEC_RATIO else 0), desired_codec = CODEC_TYPE_H264,
           saturate_bandwidth = True, congestion_detected = False\<rparr> }"

definition get_starting_network_settings :: "CongestionState \<Rightarrow> NetworkSettings option" where
  "get_starting_network_settings cs =
     get_default_network_settings (network_algo_width cs) (network_algo_height cs) (dpi cs)"

definition network_algo_set_dpi :: "int \<Rightarrow> CongestionState \<Rightarrow> CongestionState" where
  "network_algo_set_dpi new_dpi cs = cs\<lparr>dpi := new_dpi\<rparr>"

definition network_algo_set_dimensions :: "int \<Rightarrow> int \<Rightarrow> CongestionState \<Rightarrow> CongestionState" where
  "network_algo_set_dimensions width height cs = cs\<lparr>network_algo_width := width, network_algo_height := height\<rparr>"

definition network_algo_is_insufficient_bandwidth :: "CongestionState \<Rightarrow> bool" where
  "network_algo_is_insufficient_bandwidth cs = network_algo_insufficient_bandwidth cs"

section \<open>The controller\<close>

definition start_timers :: "readings \<Rightarrow> CongestionState \<Rightarrow> CongestionState" where
  "start_timers r cs =
     (if delay_controller_initialized cs then cs
      else cs\<lparr>overuse_timer := at_entry r, last_update_timer := at_entry r, last_decrease_timer := at_entry r\<rparr>)"

text \<open>The differences are taken between unsigned numbers.\<close>

definition delay_variation :: "GroupStats \<Rightarrow> GroupStats \<Rightarrow> real" where
  "delay_variation curr_stats prev_stats =
     (let inter_departure_time = real (unat (departure_time curr_stats - departure_time prev_stats)) / 1000000;
          inter_arrival_time = real (unat (arrival_time curr_stats - arrival_time prev_stats)) / 1000000
      in inter_arrival_time - inter_departure_time)"

definition filter_delay :: "real \<Rightarrow> CongestionState \<Rightarrow> CongestionState" where
  "filter_delay d cs =
     cs\<lparr>filtered_delay_variation :=
          (if delay_controller_initialized cs
           then filtered_delay_variation cs * (1 - EWMA_FACTOR) + d * EWMA_FACTOR else d),
        delay_controller_initialized := True\<rparr>"

definition detect_overuse :: "readings \<Rightarrow> bool \<Rightarrow> real \<Rightarrow> CongestionState \<Rightarrow> CongestionState \<times> overuse_signal" where
  "detect_overuse r saturate packet_loss_ratio cs =
     (if (DELAY_VARIATION_THRESHOLD_IN_SEC < filtered_delay_variation cs \<and> \<not> burst_mode cs) \<or>
         packet_loss_ratio > 1 / 10
      then let cs = (if maybe_overuse cs then cs else cs\<lparr>overuse_timer := at_maybe r, maybe_overuse := True\<rparr>);
               overuse_time_threshold = (if saturate then OVERUSE_TIME_THRESHOLD_IN_SEC
                                         else LONG_OVERUSE_TIME_THRESHOLD_IN_SEC)
           in (cs, if at_overuse r - overuse_timer cs > overuse_time_threshold then OVERUSE_SIGNAL else NORMAL_SIGNAL)
      else if - DELAY_VARIATION_THRESHOLD_IN_SEC > filtered_delay_variation cs
      then (cs\<lparr>maybe_overuse := False\<rparr>, UNDERUSE_SIGNAL)
      else (cs\<lparr>maybe_overuse := False\<rparr>, NORMAL_SIGNAL))"

fun next_delay_state :: "overuse_signal \<Rightarrow> delay_state \<Rightarrow> delay_state" where
  "next_delay_state OVERUSE_SIGNAL st = DELAY_CONTROLLER_DECREASE"
| "next_delay_state NORMAL_SIGNAL st =
     (if st = DELAY_CONTROLLER_HOLD then DELAY_CONTROLLER_INCREASE
      else if st = DELAY_CONTROLLER_DECREASE then DELAY_CONTROLLER_HOLD else st)"
| "next_delay_state UNDERUSE_SIGNAL st = DELAY_CONTROLLER_HOLD"

definition latency_state :: "bool \<Rightarrow> real \<Rightarrow> real \<Rightarrow> delay_state \<Rightarrow> delay_state" where
  "latency_state burst short_term_latency long_term_latency st =
     (let threshold_decrease = max (long_term_latency *
            (if burst then LATENCY_MULTIPLIER_BURST_MODE else LATENCY_MULTIPLIER_NORMAL_MODE)) MIN_LATENCY_THRESHOLD_SEC;
          threshold_hold = max (long_term_latency * LATENCY_MULTIPLIER_HOLD_STATE) MIN_LATENCY_THRESHOLD_SEC
      in if short_term_latency > threshold_decrease then DELAY_CONTROLLER_DECREASE
         else if short_term_latency > threshold_hold \<and> st = DELAY_CONTROLLER_INCREASE then DELAY_CONTROLLER_HOLD
         else st)"

text \<open>The state when the signal has been evaluated.\<close>

definition sense :: "readings \<Rightarrow> GroupStats \<Rightarrow> GroupStats \<Rightarrow> bool \<Rightarrow> real \<Rightarrow> real \<Rightarrow> real \<Rightarrow> CongestionState \<Rightarrow> CongestionState" where
  "sense r curr_stats prev_stats saturate loss short long cs =
     (let (cs, signal) = detect_overuse r saturate loss (filter_delay (delay_variation curr_stats prev_stats) (start_timers r cs))
      in cs\<lparr>delay_controller_state := latency_state (burst_mode cs) short long (next_delay_state signal (delay_controller_state cs))\<rparr>)"

text \<open>The branch that raises the bitrate, with the new bitrate.\<close>

definition increase_bitrate :: "CongestionState \<Rightarrow> NetworkSettings \<Rightarrow> CongestionState \<times> NetworkSettings \<times> int" where
  "increase_bitrate cs ns =
     (let cs = cs\<lparr>last_successful_bitrate := video_bitrate ns\<rparr>;
          (cs, ns) = (if last_successful_bitrate cs > max_bitrate_available cs
                      then (cs\<lparr>max_bitrate_available := last_successful_bitrate cs,
                               increase_percentage := MAX_INCREASE_PERCENTAGE\<rparr>, ns\<lparr>saturate_bandwidth := True\<rparr>)
                      else (cs, ns));
          cs = (if saturate_bandwidth ns then cs\<lparr>increase_percentage := MAX_INCREASE_PERCENTAGE\<rparr> else cs)
      in (cs, ns, trunc (of_int (video_bitrate ns) * (1 + increase_percentage cs / 100))))"

text \<open>The branch that lowers it.\<close>

definition decrease_bitrate ::
  "readings \<Rightarrow> int \<Rightarrow> real \<Rightarrow> CongestionState \<Rightarrow> NetworkSettings \<Rightarrow> CongestionState \<times> NetworkSettings \<times> int" where
  "decrease_bitrate r incoming_bitrate packet_loss_ratio cs ns =
     (let cs = (if last_successful_bitrate cs < max_bitrate_available cs
                then cs\<lparr>max_bitrate_available := trunc (of_int (max_bitrate_available cs) * (1 - MAX_BITRATE_EWMA_FACTOR) +
                          of_int (last_successful_bitrate cs) * MAX_BITRATE_EWMA_FACTOR)\<rparr> else cs);
          (cs, ns, new_bitrate) =
            (if saturate_bandwidth ns \<or>
                of_int incoming_bitrate * DECREASE_RATIO > of_int (max_bitrate_available cs) * CONVERGENCE_THRESHOLD_LOW
             then let new_bitrate = trunc (of_int incoming_bitrate * DECREASE_RATIO)
                  in if of_int new_bitrate \<ge> of_int (max_bitrate_available cs) * CONVERGENCE_THRESHOLD_LOW
                     then (cs\<lparr>increase_percentage := max (increase_percentage cs / 2) MIN_INCREASE_PERCENTAGE\<rparr>,
                           ns\<lparr>saturate_bandwidth := False\<rparr>, new_bitrate)
                     else (cs, ns, new_bitrate)
             else (cs, ns\<lparr>saturate_bandwidth := True\<rparr>,
                   trunc (of_int (video_bitrate ns) * min DECREASE_RATIO (1 - (1 / 2) * packet_loss_ratio))))
      in (cs\<lparr>last_decrease_timer := at_decreased r\<rparr>, ns\<lparr>congestion_detected := True\<rparr>, new_bitrate))"

text \<open>Limit the new bitrate and make it the current one.\<close>

definition apply_bitrate :: "readings \<Rightarrow> int \<Rightarrow> CongestionState \<Rightarrow> NetworkSettings \<Rightarrow> CongestionState \<times> NetworkSettings" where
  "apply_bitrate r new_bitrate cs ns =
     (let (cs, ns) = (if of_int new_bitrate < of_int (max_bitrate_available cs) * CONVERGENCE_THRESHOLD_LOW \<or>
                         max_bitrate_available cs = 0
                      then (cs\<lparr>increase_percentage := MAX_INCREASE_PERCENTAGE\<rparr>, ns\<lparr>saturate_bandwidth := True\<rparr>)
                      else (cs, ns));
          cs = cs\<lparr>last_update_timer := at_updated r\<rparr>;
          min_bitrate = MINIMUM_BITRATE cs; max_bitrate = MAXIMUM_BITRATE cs;
          (cs, new_bitrate) =
            (if new_bitrate < min_bitrate
             then (if video_bitrate ns = min_bitrate then cs\<lparr>network_algo_insufficient_bandwidth := True\<rparr> else cs,
                   min_bitrate)
             else (cs\<lparr>network_algo_insufficient_bandwidth := False\<rparr>, new_bitrate));
          cs = cs\<lparr>burst_mode := False\<rparr>;
          (cs, ns, new_bitrate) =
            (if new_bitrate \<ge> max_bitrate
             then (cs\<lparr>burst_mode := True\<rparr>, ns\<lparr>saturate_bandwidth := False\<rparr>, max_bitrate)
             else (cs, ns, new_bitrate));
          burst = (if burst_mode cs then new_bitrate * BURST_BITRATE_RATIO else new_bitrate)
      in (cs, ns\<lparr>burst_bitrate := burst, video_bitrate := new_bitrate\<rparr>))"

text \<open>The part up to the error correction: the new state, the settings, what was done, and whether to send the settings.\<close>

definition control_bitrate ::
  "readings \<Rightarrow> GroupStats \<Rightarrow> GroupStats \<Rightarrow> int \<Rightarrow> real \<Rightarrow> real \<Rightarrow> real \<Rightarrow> CongestionState \<Rightarrow> NetworkSettings \<Rightarrow>
   CongestionState \<times> NetworkSettings \<times> WccOp \<times> bool" where
  "control_bitrate r curr_stats prev_stats incoming_bitrate packet_loss_ratio short_term_latency long_term_latency cs ns =
     (let cs = sense r curr_stats prev_stats (saturate_bandwidth ns) packet_loss_ratio short_term_latency long_term_latency cs
      in if delay_controller_state cs = DELAY_CONTROLLER_INCREASE \<and>
            at_increase r - last_update_timer cs > NEW_BITRATE_DURATION_IN_SEC \<and>
            of_int incoming_bitrate > of_int (video_bitrate ns) * BANDWITH_USED_THRESHOLD
         then let (cs, ns, new_bitrate) = increase_bitrate cs ns;
                  (cs, ns) = apply_bitrate r new_bitrate cs ns
              in (cs, ns, WCC_INCREASE_BWD, True)
         else if delay_controller_state cs = DELAY_CONTROLLER_DECREASE \<and>
                 at_decrease r - last_decrease_timer cs > NEW_BITRATE_DURATION_IN_SEC
         then let (cs, ns, new_bitrate) = decrease_bitrate r incoming_bitrate packet_loss_ratio cs ns;
                  (cs, ns) = apply_bitrate r new_bitrate cs ns
              in (cs, ns, WCC_DECREASE_BWD, True)
         else if saturate_bandwidth ns \<and> at_stuck r - last_update_timer cs > 5
         then (cs, ns\<lparr>saturate_bandwidth := False\<rparr>, WCC_NO_OP, True)
         else (cs, ns, WCC_NO_OP, False))"

definition adjust_fec ::
  "('f \<Rightarrow> real \<Rightarrow> WccOp \<Rightarrow> real \<Rightarrow> int \<Rightarrow> int \<Rightarrow> int \<Rightarrow> bool \<Rightarrow> 'f) \<Rightarrow> ('f \<Rightarrow> real \<Rightarrow> real \<Rightarrow> 'f \<times> real) \<Rightarrow>
   readings \<Rightarrow> WccOp \<Rightarrow> real \<Rightarrow> int \<Rightarrow> CongestionState \<Rightarrow> NetworkSettings \<Rightarrow> bool \<Rightarrow> 'f \<Rightarrow> NetworkSettings \<times> bool \<times> 'f" where
  "adjust_fec feed_info get_total_fec_ratio r op packet_loss_ratio old_bitrate cs ns send fec =
     (if ENABLE_FEC
      then let fec = feed_info fec (at_fec r) op packet_loss_ratio old_bitrate (video_bitrate ns)
                       (MINIMUM_BITRATE cs) (saturate_bandwidth ns);
               (fec, total_fec_ratio) = get_total_fec_ratio fec (at_fec r) (video_fec_ratio ns)
           in if total_fec_ratio \<noteq> video_fec_ratio ns
              then (ns\<lparr>video_fec_ratio := total_fec_ratio\<rparr>, True, fec) else (ns, send, fec)
      else (ns, send, fec))"

definition whist_congestion_controller ::
  "('f \<Rightarrow> real \<Rightarrow> WccOp \<Rightarrow> real \<Rightarrow> int \<Rightarrow> int \<Rightarrow> int \<Rightarrow> bool \<Rightarrow> 'f) \<Rightarrow> ('f \<Rightarrow> real \<Rightarrow> real \<Rightarrow> 'f \<times> real) \<Rightarrow>
   readings \<Rightarrow> GroupStats \<Rightarrow> GroupStats \<Rightarrow> int \<Rightarrow> real \<Rightarrow> real \<Rightarrow> real \<Rightarrow> CongestionState \<Rightarrow> NetworkSettings \<Rightarrow> 'f \<Rightarrow>
   CongestionState \<times> NetworkSettings \<times> 'f \<times> bool" where
  "whist_congestion_controller feed_info get_total_fec_ratio r curr_stats prev_stats incoming_bitrate packet_loss_ratio
     short_term_latency long_term_latency cs ns fec =
     (if incoming_bitrate \<le> 0 then (cs, ns, fec, False)
      else let old_bitrate = video_bitrate ns;
               (cs, ns, op, send) = control_bitrate r curr_stats prev_stats incoming_bitrate packet_loss_ratio
                                      short_term_latency long_term_latency cs ns;
               (ns, send, fec) = adjust_fec feed_info get_total_fec_ratio r op packet_loss_ratio old_bitrate cs ns send fec;
               ns = (if saturate_bandwidth ns then ns else ns\<lparr>congestion_detected := False\<rparr>)
           in (cs, ns, fec, send))"

definition whist_congestion_controller_handle_severe_congestion ::
  "real \<Rightarrow> real \<Rightarrow> CongestionState \<Rightarrow> NetworkSettings \<Rightarrow> CongestionState \<times> NetworkSettings \<times> bool" where
  "whist_congestion_controller_handle_severe_congestion now restart cs ns =
     (if now - last_update_timer cs < MIN_UPDATE_INTERVAL_SEVERE_CONGESTION_SEC then (cs, ns, False)
      else (cs\<lparr>last_update_timer := restart\<rparr>,
            ns\<lparr>burst_bitrate := MINIMUM_BITRATE cs, video_bitrate := MINIMUM_BITRATE cs,
               congestion_detected := True, saturate_bandwidth := True\<rparr>, True))"


section \<open>The bounds\<close>

lemma dpi_factor:
  fixes d :: real
  assumes "1 / 2 \<le> d" "d \<le> 2"
  shows "0 < d powr DPI_RATIO_EXPONENT" "d powr DPI_RATIO_EXPONENT \<le> 31 / 10"
proof -
  show "0 < d powr DPI_RATIO_EXPONENT" using assms by simp
  have "(d powr DPI_RATIO_EXPONENT) ^ 5 = (d powr DPI_RATIO_EXPONENT) powr real 5"
    using assms by (subst powr_realpow) simp_all
  also have "\<dots> = d powr 8" by (simp add: powr_powr DPI_RATIO_EXPONENT_def)
  also have "\<dots> = d ^ 8" using assms powr_realpow [of d 8] by simp
  also have "\<dots> \<le> 2 ^ 8" using assms by (intro power_mono) simp_all
  also have "\<dots> \<le> (31 / 10 :: real) ^ 5" by (simp add: power_divide)
  finally show "d powr DPI_RATIO_EXPONENT \<le> 31 / 10" by (rule power_le_imp_le_base [of _ 4, simplified]) simp
qed

lemma video_bitrate_form:
  obtains f where "0 < f" "f \<le> 31 / 10" "\<And>b. get_video_bitrate w h d b = trunc (of_int (w * h) * b * f)"
proof -
  define q where "q = (if d = 0 then 2 else max (min (DPI_BITRATE_PER_PIXEL / of_int d) 2) (1 / 2 :: real))"
  have "1 / 2 \<le> q" "q \<le> 2" by (auto simp: q_def max_def min_def)
  from dpi_factor [OF this] show thesis
    by (intro that [of "q powr DPI_RATIO_EXPONENT"]) (simp_all add: get_video_bitrate_def q_def Let_def)
qed

lemma video_bitrate_mono:
  assumes "0 \<le> w * h" "a \<le> b"
  shows "get_video_bitrate w h d a \<le> get_video_bitrate w h d b"
proof -
  obtain f where f: "0 < f" "\<And>b. get_video_bitrate w h d b = trunc (of_int (w * h) * b * f)"
    using video_bitrate_form [of w h d] by blast
  have "of_int (w * h) * a * f \<le> of_int (w * h) * b * f"
    using assms f(1) by (intro mult_right_mono mult_left_mono) (simp_all only: of_int_0_le_iff less_imp_le)
  then show ?thesis unfolding f(2) by (rule trunc_mono)
qed

lemma video_bitrate_bounds:
  assumes "0 \<le> w * h" "0 \<le> b"
  shows "0 \<le> get_video_bitrate w h d b" "of_int (get_video_bitrate w h d b) \<le> of_int (w * h) * b * (31 / 10)"
proof -
  obtain f where f: "0 < f" "f \<le> 31 / 10" "\<And>b. get_video_bitrate w h d b = trunc (of_int (w * h) * b * f)"
    using video_bitrate_form [of w h d] by blast
  have nn: "0 \<le> of_int (w * h) * b" using assms by (simp only: of_int_0_le_iff mult_nonneg_nonneg)
  then have "0 \<le> of_int (w * h) * b * f" using f(1) by simp
  then show "0 \<le> get_video_bitrate w h d b" unfolding f(3) by (rule trunc_nonneg)
  have "of_int (get_video_bitrate w h d b) \<le> of_int (w * h) * b * f"
    unfolding f(3) by (rule trunc_le) fact
  also have "\<dots> \<le> of_int (w * h) * b * (31 / 10)" using f(2) nn by (rule mult_left_mono)
  finally show "of_int (get_video_bitrate w h d b) \<le> of_int (w * h) * b * (31 / 10)" .
qed

definition has_screen :: "CongestionState \<Rightarrow> bool" where
  "has_screen cs \<longleftrightarrow> 0 < network_algo_width cs \<and> 0 < network_algo_height cs \<and> 0 < dpi cs"

definition same_screen :: "CongestionState \<Rightarrow> CongestionState \<Rightarrow> bool" where
  "same_screen cs cs' \<longleftrightarrow> network_algo_width cs' = network_algo_width cs \<and>
     network_algo_height cs' = network_algo_height cs \<and> dpi cs' = dpi cs"

lemma same_screen_bitrates:
  "same_screen cs cs' \<Longrightarrow> MINIMUM_BITRATE cs' = MINIMUM_BITRATE cs"
  "same_screen cs cs' \<Longrightarrow> MAXIMUM_BITRATE cs' = MAXIMUM_BITRATE cs"
  by (simp_all add: same_screen_def MINIMUM_BITRATE_def MAXIMUM_BITRATE_def)

lemma screen_bitrates:
  assumes "has_screen cs"
  shows "0 \<le> MINIMUM_BITRATE cs" "MINIMUM_BITRATE cs \<le> MAXIMUM_BITRATE cs"
proof -
  have "0 \<le> network_algo_width cs * network_algo_height cs" using assms by (simp add: has_screen_def)
  then show "0 \<le> MINIMUM_BITRATE cs" "MINIMUM_BITRATE cs \<le> MAXIMUM_BITRATE cs"
    unfolding MINIMUM_BITRATE_def MAXIMUM_BITRATE_def
    by (auto intro!: video_bitrate_bounds video_bitrate_mono simp: MINIMUM_BITRATE_PER_PIXEL_def MAXIMUM_BITRATE_PER_PIXEL_def)
qed

text \<open>What holds of the settings that the controller makes, and of its own variables.\<close>

definition settings_ok :: "CongestionState \<Rightarrow> NetworkSettings \<Rightarrow> bool" where
  "settings_ok cs ns \<longleftrightarrow> MINIMUM_BITRATE cs \<le> video_bitrate ns \<and> video_bitrate ns \<le> MAXIMUM_BITRATE cs \<and>
     (burst_bitrate ns = video_bitrate ns \<or>
      video_bitrate ns = MAXIMUM_BITRATE cs \<and> burst_bitrate ns = video_bitrate ns * BURST_BITRATE_RATIO)"

definition search_ok :: "CongestionState \<Rightarrow> bool" where
  "search_ok cs \<longleftrightarrow> MIN_INCREASE_PERCENTAGE \<le> increase_percentage cs \<and> increase_percentage cs \<le> MAX_INCREASE_PERCENTAGE \<and>
     0 \<le> last_successful_bitrate cs \<and> last_successful_bitrate cs \<le> max_bitrate_available cs \<and>
     max_bitrate_available cs \<le> MAXIMUM_BITRATE cs"

lemma apply_bitrate_ok:
  assumes scr: "has_screen cs" and s: "search_ok cs" and e: "apply_bitrate r b cs ns = (cs', ns')"
  shows "same_screen cs cs'" "search_ok cs'" "settings_ok cs' ns'"
    and "video_bitrate ns' = (if b < MINIMUM_BITRATE cs then MINIMUM_BITRATE cs
                              else if b \<ge> MAXIMUM_BITRATE cs then MAXIMUM_BITRATE cs else b)
       \<or> video_bitrate ns' = MAXIMUM_BITRATE cs \<and> MINIMUM_BITRATE cs = MAXIMUM_BITRATE cs"
    and "network_algo_insufficient_bandwidth cs' \<longleftrightarrow>
       b < MINIMUM_BITRATE cs \<and> (video_bitrate ns = MINIMUM_BITRATE cs \<or> network_algo_insufficient_bandwidth cs)"
    and "last_update_timer cs' = at_updated r"
proof -
  note mm = screen_bitrates [OF scr]
  show ss: "same_screen cs cs'" using e by (auto simp: apply_bitrate_def Let_def same_screen_def split: if_splits prod.splits)
  show "search_ok cs'"
    using s e same_screen_bitrates [OF ss]
    by (auto simp: apply_bitrate_def Let_def search_ok_def MAX_INCREASE_PERCENTAGE_def MIN_INCREASE_PERCENTAGE_def
      split: if_splits prod.splits)
  show "last_update_timer cs' = at_updated r" using e by (auto simp: apply_bitrate_def Let_def split: if_splits prod.splits)
  have eqs: "MINIMUM_BITRATE (cs\<lparr>increase_percentage := x, last_update_timer := y\<rparr>) = MINIMUM_BITRATE cs"
     "MAXIMUM_BITRATE (cs\<lparr>increase_percentage := x, last_update_timer := y\<rparr>) = MAXIMUM_BITRATE cs"
     "MINIMUM_BITRATE (cs\<lparr>last_update_timer := y\<rparr>) = MINIMUM_BITRATE cs"
     "MAXIMUM_BITRATE (cs\<lparr>last_update_timer := y\<rparr>) = MAXIMUM_BITRATE cs" for x y
    by (simp_all add: MINIMUM_BITRATE_def MAXIMUM_BITRATE_def)
  note ev = e [unfolded apply_bitrate_def Let_def]
  show "settings_ok cs' ns'"
    using ev mm unfolding settings_ok_def same_screen_bitrates [OF ss] by (auto simp: eqs split: if_splits)
  show "video_bitrate ns' = (if b < MINIMUM_BITRATE cs then MINIMUM_BITRATE cs
                              else if b \<ge> MAXIMUM_BITRATE cs then MAXIMUM_BITRATE cs else b)
       \<or> video_bitrate ns' = MAXIMUM_BITRATE cs \<and> MINIMUM_BITRATE cs = MAXIMUM_BITRATE cs"
    using ev mm by (auto simp: eqs split: if_splits)
  show "network_algo_insufficient_bandwidth cs' \<longleftrightarrow>
       b < MINIMUM_BITRATE cs \<and> (video_bitrate ns = MINIMUM_BITRATE cs \<or> network_algo_insufficient_bandwidth cs)"
    using ev by (auto simp: eqs split: if_splits)
qed


lemma increase_bitrate_ok:
  assumes s: "search_ok cs" and v: "0 \<le> video_bitrate ns" "video_bitrate ns \<le> MAXIMUM_BITRATE cs"
    and e: "increase_bitrate cs ns = (cs', ns', b)"
  shows "same_screen cs cs'" "search_ok cs'" "video_bitrate ns' = video_bitrate ns"
    and "b \<le> trunc (of_int (video_bitrate ns) * (1 + MAX_INCREASE_PERCENTAGE / 100))"
    and "network_algo_insufficient_bandwidth cs' = network_algo_insufficient_bandwidth cs"
proof -
  note ev = e [unfolded increase_bitrate_def Let_def]
  show ss: "same_screen cs cs'" using ev by (auto simp: same_screen_def split: if_splits)
  show s': "search_ok cs'"
    using ev s v unfolding search_ok_def same_screen_bitrates(2) [OF ss]
    by (auto simp: MAX_INCREASE_PERCENTAGE_def MIN_INCREASE_PERCENTAGE_def split: if_splits)
  show vb: "video_bitrate ns' = video_bitrate ns" using ev by (auto split: if_splits)
  show "network_algo_insufficient_bandwidth cs' = network_algo_insufficient_bandwidth cs" using ev by (auto split: if_splits)
  have "b = trunc (of_int (video_bitrate ns) * (1 + increase_percentage cs' / 100))" using ev by (auto split: if_splits)
  moreover have "increase_percentage cs' \<le> MAX_INCREASE_PERCENTAGE" using s' by (simp add: search_ok_def)
  ultimately show "b \<le> trunc (of_int (video_bitrate ns) * (1 + MAX_INCREASE_PERCENTAGE / 100))"
    using v(1) by (auto intro!: trunc_mono mult_left_mono)
qed

lemma average_between:
  assumes "0 \<le> l" "l \<le> (m :: int)"
  shows "l \<le> trunc (of_int m * (1 - MAX_BITRATE_EWMA_FACTOR) + of_int l * MAX_BITRATE_EWMA_FACTOR)"
    and "trunc (of_int m * (1 - MAX_BITRATE_EWMA_FACTOR) + of_int l * MAX_BITRATE_EWMA_FACTOR) \<le> m"
proof -
  let ?x = "of_int m * (1 - MAX_BITRATE_EWMA_FACTOR) + of_int l * MAX_BITRATE_EWMA_FACTOR"
  have "real_of_int l \<le> of_int m" using assms(2) by simp
  then have "of_int l \<le> ?x" "?x \<le> of_int m" by (simp_all add: MAX_BITRATE_EWMA_FACTOR_def)
  then have "trunc (of_int l) \<le> trunc ?x" "trunc ?x \<le> trunc (of_int m)" by (simp_all only: trunc_mono)
  then show "l \<le> trunc ?x" "trunc ?x \<le> m" by simp_all
qed

lemma decrease_bitrate_ok:
  assumes s: "search_ok cs" and v: "0 \<le> video_bitrate ns" "0 \<le> incoming"
    and e: "decrease_bitrate r incoming loss cs ns = (cs', ns', b)"
  shows "same_screen cs cs'" "search_ok cs'" "video_bitrate ns' = video_bitrate ns"
    and "b \<le> trunc (of_int (max incoming (video_bitrate ns)) * DECREASE_RATIO)"
    and "network_algo_insufficient_bandwidth cs' = network_algo_insufficient_bandwidth cs"
proof -
  note ev = e [unfolded decrease_bitrate_def Let_def]
  show ss: "same_screen cs cs'" using ev by (auto simp: same_screen_def split: if_splits)
  have avg: "last_successful_bitrate cs \<le> trunc (of_int (max_bitrate_available cs) * (1 - MAX_BITRATE_EWMA_FACTOR) +
      of_int (last_successful_bitrate cs) * MAX_BITRATE_EWMA_FACTOR)"
    "trunc (of_int (max_bitrate_available cs) * (1 - MAX_BITRATE_EWMA_FACTOR) +
      of_int (last_successful_bitrate cs) * MAX_BITRATE_EWMA_FACTOR) \<le> max_bitrate_available cs"
    using s by (simp_all add: search_ok_def average_between)
  have "max_bitrate_available cs' \<in> {max_bitrate_available cs, trunc (of_int (max_bitrate_available cs) * (1 - MAX_BITRATE_EWMA_FACTOR) +
      of_int (last_successful_bitrate cs) * MAX_BITRATE_EWMA_FACTOR)}"
    "last_successful_bitrate cs' = last_successful_bitrate cs"
    "increase_percentage cs' \<in> {increase_percentage cs, max (increase_percentage cs / 2) MIN_INCREASE_PERCENTAGE}"
    using ev by (auto split: if_splits)
  then show "search_ok cs'"
    using s avg unfolding search_ok_def same_screen_bitrates(2) [OF ss]
    by (auto simp: MAX_INCREASE_PERCENTAGE_def MIN_INCREASE_PERCENTAGE_def max_def)
  show vb: "video_bitrate ns' = video_bitrate ns" using ev by (auto split: if_splits)
  show "network_algo_insufficient_bandwidth cs' = network_algo_insufficient_bandwidth cs" using ev by (auto split: if_splits)
  have "b = trunc (of_int incoming * DECREASE_RATIO) \<or>
      b = trunc (of_int (video_bitrate ns) * min DECREASE_RATIO (1 - (1 / 2) * loss))" using ev by (auto split: if_splits)
  moreover have "of_int incoming * DECREASE_RATIO \<le> of_int (max incoming (video_bitrate ns)) * DECREASE_RATIO"
    by (simp add: DECREASE_RATIO_def)
  moreover have "of_int (video_bitrate ns) * min DECREASE_RATIO (1 - (1 / 2) * loss) \<le>
      of_int (max incoming (video_bitrate ns)) * DECREASE_RATIO"
  proof -
    have "of_int (video_bitrate ns) * min DECREASE_RATIO (1 - (1 / 2) * loss) \<le> of_int (video_bitrate ns) * DECREASE_RATIO"
      using v(1) by (intro mult_left_mono) simp_all
    also have "\<dots> \<le> of_int (max incoming (video_bitrate ns)) * DECREASE_RATIO" by (simp add: DECREASE_RATIO_def)
    finally show ?thesis .
  qed
  ultimately show "b \<le> trunc (of_int (max incoming (video_bitrate ns)) * DECREASE_RATIO)" by (auto intro: trunc_mono)
qed

lemma sense_keeps:
  "same_screen cs (sense r c p sat loss short long cs)"
  "increase_percentage (sense r c p sat loss short long cs) = increase_percentage cs"
  "max_bitrate_available (sense r c p sat loss short long cs) = max_bitrate_available cs"
  "last_successful_bitrate (sense r c p sat loss short long cs) = last_successful_bitrate cs"
  "network_algo_insufficient_bandwidth (sense r c p sat loss short long cs) = network_algo_insufficient_bandwidth cs"
  by (simp_all add: sense_def detect_overuse_def filter_delay_def start_timers_def same_screen_def Let_def)

lemma sense_search: "search_ok (sense r c p sat loss short long cs) = search_ok cs"
  by (simp add: search_ok_def sense_keeps same_screen_bitrates(2) [OF sense_keeps(1)])


text \<open>One call: the bounds are kept, and a change of the bitrate is limited.\<close>

definition wcc_ok :: "CongestionState \<Rightarrow> NetworkSettings \<Rightarrow> bool" where
  "wcc_ok cs ns \<longleftrightarrow> has_screen cs \<and> search_ok cs \<and> settings_ok cs ns"

lemma same_screen_trans: "same_screen a b \<Longrightarrow> same_screen b c \<Longrightarrow> same_screen a c"
  by (simp add: same_screen_def)

lemma has_screen_same: "same_screen a b \<Longrightarrow> has_screen b = has_screen a"
  by (simp add: same_screen_def has_screen_def)

lemma apply_bitrate_le:
  assumes "has_screen cs" "search_ok cs" "apply_bitrate r b cs ns = (cs', ns')"
  shows "video_bitrate ns' \<le> max (MINIMUM_BITRATE cs) b"
  using apply_bitrate_ok(4) [OF assms] by (auto split: if_splits)

definition insufficient_step :: "CongestionState \<Rightarrow> NetworkSettings \<Rightarrow> CongestionState \<Rightarrow> NetworkSettings \<Rightarrow> bool" where
  "insufficient_step cs ns cs' ns' \<longleftrightarrow>
     (network_algo_insufficient_bandwidth cs' \<and> \<not> network_algo_insufficient_bandwidth cs \<longrightarrow>
        video_bitrate ns = MINIMUM_BITRATE cs \<and> video_bitrate ns' = MINIMUM_BITRATE cs)"

lemma apply_insufficient:
  assumes "has_screen cs" "search_ok cs" "apply_bitrate r b cs ns = (cs', ns')"
  shows "insufficient_step cs ns cs' ns'"
  using apply_bitrate_ok(4,5) [OF assms] by (auto simp: insufficient_step_def split: if_splits)

lemma control_ok:
  assumes ok: "wcc_ok cs ns" and inc: "0 < incoming"
    and e: "control_bitrate r c p incoming loss short long cs ns = (cs', ns', op, send)"
  shows "wcc_ok cs' ns'" "same_screen cs cs'" "insufficient_step cs ns cs' ns'"
    and "op = WCC_NO_OP \<Longrightarrow> video_bitrate ns' = video_bitrate ns"
    and "op = WCC_INCREASE_BWD \<Longrightarrow> of_int incoming > of_int (video_bitrate ns) * BANDWITH_USED_THRESHOLD \<and>
      video_bitrate ns' \<le> max (MINIMUM_BITRATE cs) (trunc (of_int (video_bitrate ns) * (1 + MAX_INCREASE_PERCENTAGE / 100)))"
    and "op = WCC_DECREASE_BWD \<Longrightarrow>
      video_bitrate ns' \<le> max (MINIMUM_BITRATE cs) (trunc (of_int (max incoming (video_bitrate ns)) * DECREASE_RATIO))"
proof -
  define s where "s = sense r c p (saturate_bandwidth ns) loss short long cs"
  have sc: "same_screen cs s" and so: "search_ok s" and hs: "has_screen s"
    using ok has_screen_same [OF sense_keeps(1)] by (simp_all add: s_def wcc_ok_def sense_keeps(1) sense_search)
  have ins: "network_algo_insufficient_bandwidth s = network_algo_insufficient_bandwidth cs" by (simp add: s_def sense_keeps)
  note mm = same_screen_bitrates [OF sc]
  have v: "0 \<le> video_bitrate ns" "video_bitrate ns \<le> MAXIMUM_BITRATE s"
    using ok screen_bitrates(1) [of cs] by (auto simp: wcc_ok_def settings_ok_def mm)
  note ev = e [unfolded control_bitrate_def, folded s_def, unfolded Let_def]
  consider (inc) t n b where "increase_bitrate s ns = (t, n, b)" "apply_bitrate r b t n = (cs', ns')" "op = WCC_INCREASE_BWD"
      "of_int incoming > of_int (video_bitrate ns) * BANDWITH_USED_THRESHOLD"
    | (dec) t n b where "decrease_bitrate r incoming loss s ns = (t, n, b)" "apply_bitrate r b t n = (cs', ns')" "op = WCC_DECREASE_BWD"
    | (none) "op = WCC_NO_OP" "cs' = s" "ns' = ns \<or> ns' = ns\<lparr>saturate_bandwidth := False\<rparr>"
    using ev by (simp split: if_splits prod.splits)
  then have "wcc_ok cs' ns' \<and> same_screen cs cs' \<and> insufficient_step cs ns cs' ns' \<and>
    (op = WCC_NO_OP \<longrightarrow> video_bitrate ns' = video_bitrate ns) \<and>
    (op = WCC_INCREASE_BWD \<longrightarrow> of_int incoming > of_int (video_bitrate ns) * BANDWITH_USED_THRESHOLD \<and>
      video_bitrate ns' \<le> max (MINIMUM_BITRATE cs) (trunc (of_int (video_bitrate ns) * (1 + MAX_INCREASE_PERCENTAGE / 100)))) \<and>
    (op = WCC_DECREASE_BWD \<longrightarrow>
      video_bitrate ns' \<le> max (MINIMUM_BITRATE cs) (trunc (of_int (max incoming (video_bitrate ns)) * DECREASE_RATIO)))"
  proof cases
    case inc
    note i = increase_bitrate_ok [OF so v inc(1)]
    have ht: "has_screen t" using i(1) hs has_screen_same by blast
    note a = apply_bitrate_ok(1-3) [OF ht i(2) inc(2)] apply_bitrate_le [OF ht i(2) inc(2)] apply_insufficient [OF ht i(2) inc(2)]
    have t: "same_screen cs t" using sc i(1) by (rule same_screen_trans)
    have "insufficient_step cs ns cs' ns'"
      using a(5) i(3,5) ins same_screen_bitrates(1) [OF t] by (simp add: insufficient_step_def)
    moreover have "has_screen cs'" using has_screen_same [OF a(1)] ht by simp
    ultimately show ?thesis
      using a i(4) inc(3,4) same_screen_trans [OF t a(1)] same_screen_bitrates(1) [OF t] by (auto simp: wcc_ok_def)
  next
    case dec
    have "0 \<le> incoming" using assms(2) by simp
    note i = decrease_bitrate_ok [OF so v(1) this dec(1)]
    have ht: "has_screen t" using i(1) hs has_screen_same by blast
    note a = apply_bitrate_ok(1-3) [OF ht i(2) dec(2)] apply_bitrate_le [OF ht i(2) dec(2)] apply_insufficient [OF ht i(2) dec(2)]
    have t: "same_screen cs t" using sc i(1) by (rule same_screen_trans)
    have "insufficient_step cs ns cs' ns'"
      using a(5) i(3,5) ins same_screen_bitrates(1) [OF t] by (simp add: insufficient_step_def)
    moreover have "has_screen cs'" using has_screen_same [OF a(1)] ht by simp
    ultimately show ?thesis
      using a i(4) dec(3) same_screen_trans [OF t a(1)] same_screen_bitrates(1) [OF t] by (auto simp: wcc_ok_def)
  next
    case none
    then show ?thesis using ok so hs sc ins by (auto simp: wcc_ok_def settings_ok_def mm insufficient_step_def)
  qed
  then show "wcc_ok cs' ns'" "same_screen cs cs'" "insufficient_step cs ns cs' ns'"
    "op = WCC_NO_OP \<Longrightarrow> video_bitrate ns' = video_bitrate ns"
    "op = WCC_INCREASE_BWD \<Longrightarrow> of_int incoming > of_int (video_bitrate ns) * BANDWITH_USED_THRESHOLD \<and>
      video_bitrate ns' \<le> max (MINIMUM_BITRATE cs) (trunc (of_int (video_bitrate ns) * (1 + MAX_INCREASE_PERCENTAGE / 100)))"
    "op = WCC_DECREASE_BWD \<Longrightarrow>
      video_bitrate ns' \<le> max (MINIMUM_BITRATE cs) (trunc (of_int (max incoming (video_bitrate ns)) * DECREASE_RATIO))" by blast+
qed


section \<open>Sequences of calls\<close>

lemma adjust_fec_keeps:
  assumes "adjust_fec fi gr r op loss old cs ns send fec = (ns', send', fec')"
  shows "video_bitrate ns' = video_bitrate ns" "burst_bitrate ns' = burst_bitrate ns"
  using assms by (auto simp: adjust_fec_def Let_def split: if_splits prod.splits)

lemma controller_cases:
  assumes "whist_congestion_controller fi gr r c p incoming loss short long cs ns fec = (cs', ns', fec', send)"
  obtains "incoming \<le> 0" "cs' = cs" "ns' = ns"
  | n op b where "0 < incoming" "control_bitrate r c p incoming loss short long cs ns = (cs', n, op, b)"
      "video_bitrate ns' = video_bitrate n" "burst_bitrate ns' = burst_bitrate n"
proof (cases "incoming \<le> 0")
  case True
  then show ?thesis using assms that(1) by (simp add: whist_congestion_controller_def)
next
  case False
  obtain t n op b where ct: "control_bitrate r c p incoming loss short long cs ns = (t, n, op, b)"
    by (cases "control_bitrate r c p incoming loss short long cs ns")
  obtain m sd fc where af: "adjust_fec fi gr r op loss (video_bitrate ns) t n b fec = (m, sd, fc)"
    by (cases "adjust_fec fi gr r op loss (video_bitrate ns) t n b fec")
  have "cs' = t" "ns' = (if saturate_bandwidth m then m else m\<lparr>congestion_detected := False\<rparr>)"
    using assms False ct af by (auto simp: whist_congestion_controller_def Let_def)
  then show ?thesis using that(2) [of n op b] False ct adjust_fec_keeps [OF af] by simp
qed

lemma settings_ok_cong:
  "video_bitrate ns' = video_bitrate ns \<Longrightarrow> burst_bitrate ns' = burst_bitrate ns \<Longrightarrow> settings_ok cs ns' = settings_ok cs ns"
  by (simp add: settings_ok_def)

lemma controller_ok:
  assumes "wcc_ok cs ns"
    and "whist_congestion_controller fi gr r c p incoming loss short long cs ns fec = (cs', ns', fec', send)"
  shows "wcc_ok cs' ns' \<and> same_screen cs cs'"
  using assms(2)
proof (cases rule: controller_cases)
  case (2 n op b)
  from control_ok(1,2) [OF assms(1) 2(1,2)] settings_ok_cong [OF 2(3,4)] show ?thesis by (simp add: wcc_ok_def)
qed (use assms(1) in \<open>simp_all add: same_screen_def\<close>)

lemma severe_ok:
  assumes "wcc_ok cs ns" "whist_congestion_controller_handle_severe_congestion now restart cs ns = (cs', ns', send)"
  shows "wcc_ok cs' ns' \<and> same_screen cs cs'"
proof (cases "now - last_update_timer cs < MIN_UPDATE_INTERVAL_SEVERE_CONGESTION_SEC")
  case False
  have t: "same_screen cs (cs\<lparr>last_update_timer := restart\<rparr>)" by (simp add: same_screen_def)
  have e: "cs' = cs\<lparr>last_update_timer := restart\<rparr>" "video_bitrate ns' = MINIMUM_BITRATE cs" "burst_bitrate ns' = MINIMUM_BITRATE cs"
    using assms(2) False by (auto simp: whist_congestion_controller_handle_severe_congestion_def)
  have "search_ok cs'" using assms(1) unfolding e(1) wcc_ok_def search_ok_def same_screen_bitrates(2) [OF t] by simp
  moreover have "settings_ok cs' ns'"
    using assms(1) screen_bitrates(2) [of cs] unfolding settings_ok_def e(1) same_screen_bitrates [OF t] wcc_ok_def by (simp add: e(2,3))
  moreover have "has_screen cs'" using assms(1) has_screen_same [OF t] by (simp add: e(1) wcc_ok_def)
  ultimately show ?thesis using t by (simp add: wcc_ok_def e(1))
qed (use assms in \<open>simp add: whist_congestion_controller_handle_severe_congestion_def same_screen_def\<close>)

inductive wcc_reach ::
  "('f \<Rightarrow> real \<Rightarrow> WccOp \<Rightarrow> real \<Rightarrow> int \<Rightarrow> int \<Rightarrow> int \<Rightarrow> bool \<Rightarrow> 'f) \<Rightarrow> ('f \<Rightarrow> real \<Rightarrow> real \<Rightarrow> 'f \<times> real) \<Rightarrow>
   CongestionState \<Rightarrow> CongestionState \<Rightarrow> NetworkSettings \<Rightarrow> bool" for fi gr cs0 where
  start: "get_starting_network_settings cs0 = Some ns \<Longrightarrow> wcc_reach fi gr cs0 cs0 ns"
| control: "wcc_reach fi gr cs0 cs ns \<Longrightarrow>
    whist_congestion_controller fi gr r c p incoming loss short long cs ns fec = (cs', ns', fec', send) \<Longrightarrow>
    wcc_reach fi gr cs0 cs' ns'"
| severe: "wcc_reach fi gr cs0 cs ns \<Longrightarrow>
    whist_congestion_controller_handle_severe_congestion now restart cs ns = (cs', ns', send) \<Longrightarrow> wcc_reach fi gr cs0 cs' ns'"

lemma starting_ok:
  assumes "get_starting_network_settings cs = Some ns" "search_ok cs"
  shows "wcc_ok cs ns"
proof -
  have scr: "has_screen cs" and v: "video_bitrate ns = get_video_bitrate (network_algo_width cs) (network_algo_height cs) (dpi cs) STARTING_BITRATE_PER_PIXEL"
    "burst_bitrate ns = video_bitrate ns"
    using assms(1) by (auto simp: get_starting_network_settings_def get_default_network_settings_def has_screen_def Let_def split: if_splits)
  have "0 \<le> network_algo_width cs * network_algo_height cs" using scr by (simp add: has_screen_def)
  then have "MINIMUM_BITRATE cs \<le> video_bitrate ns" "video_bitrate ns \<le> MAXIMUM_BITRATE cs"
    unfolding v(1) MINIMUM_BITRATE_def MAXIMUM_BITRATE_def
    by (auto intro!: video_bitrate_mono simp: MINIMUM_BITRATE_PER_PIXEL_def MAXIMUM_BITRATE_PER_PIXEL_def STARTING_BITRATE_PER_PIXEL_def)
  then show ?thesis using scr v(2) assms(2) by (simp add: wcc_ok_def settings_ok_def)
qed

lemma reach_ok:
  assumes "wcc_reach fi gr cs0 cs ns" "search_ok cs0"
  shows "wcc_ok cs ns \<and> same_screen cs0 cs"
  using assms
proof (induction rule: wcc_reach.induct)
  case (start ns)
  then show ?case by (simp add: starting_ok same_screen_def)
next
  case (control cs ns r c p incoming loss short long fec cs' ns' fec' send)
  then show ?case using controller_ok [OF _ control.hyps(2)] same_screen_trans by blast
next
  case (severe cs ns now restart cs' ns' send)
  then show ?case using severe_ok [OF _ severe.hyps(2)] same_screen_trans by blast
qed


section \<open>Properties\<close>

definition desk :: CongestionState where
  "desk = network_algo_set_dpi 192 (network_algo_set_dimensions 1920 1080 congestion_init)"

lemma desk_bitrates:
  "MINIMUM_BITRATE desk = 1555200" "MAXIMUM_BITRATE desk = 8294400" "search_ok desk" "has_screen desk"
  "get_starting_network_settings desk = Some \<lparr>video_bitrate = 6220800, burst_bitrate = 6220800, audio_fec_ratio = 0,
     video_fec_ratio = 0, desired_codec = CODEC_TYPE_H264, saturate_bandwidth = True, congestion_detected = False\<rparr>"
proof -
  have v: "get_video_bitrate 1920 1080 192 b = trunc (2073600 * b)" for b
    by (simp add: get_video_bitrate_def DPI_BITRATE_PER_PIXEL_def)
  show mn: "MINIMUM_BITRATE desk = 1555200" and mx: "MAXIMUM_BITRATE desk = 8294400"
    by (simp_all add: MINIMUM_BITRATE_def MAXIMUM_BITRATE_def desk_def network_algo_set_dpi_def network_algo_set_dimensions_def
      v MINIMUM_BITRATE_PER_PIXEL_def MAXIMUM_BITRATE_PER_PIXEL_def trunc_def)
  show "search_ok desk" using mx by (simp add: search_ok_def desk_def network_algo_set_dpi_def network_algo_set_dimensions_def
      congestion_init_def MAX_INCREASE_PERCENTAGE_def MIN_INCREASE_PERCENTAGE_def)
  show "has_screen desk" by (simp add: has_screen_def desk_def network_algo_set_dpi_def network_algo_set_dimensions_def)
  show "get_starting_network_settings desk = Some \<lparr>video_bitrate = 6220800, burst_bitrate = 6220800, audio_fec_ratio = 0,
     video_fec_ratio = 0, desired_codec = CODEC_TYPE_H264, saturate_bandwidth = True, congestion_detected = False\<rparr>"
    by (simp add: get_starting_network_settings_def get_default_network_settings_def desk_def network_algo_set_dpi_def
      network_algo_set_dimensions_def v STARTING_BITRATE_PER_PIXEL_def trunc_def ENABLE_FEC_def Let_def)
qed

text \<open>C12: over every sequence of calls for a screen, the video bitrate stays between the minimum and the maximum
  for that screen; the burst bitrate is the video bitrate, or four times as much when that is at the maximum; the percentage of
  an increase stays between 0.5 and 16; and for screens of up to \<open>2 ^ 25\<close> pixels every bitrate fits into an \<^verbatim>\<open>int\<close>.\<close>

theorem wcc_bitrate_bounds:
  assumes "wcc_reach fi gr (network_algo_set_dpi d (network_algo_set_dimensions w h congestion_init)) cs ns"
    and "w * h \<le> 2 ^ 25"
  shows "MINIMUM_BITRATE cs \<le> video_bitrate ns \<and> video_bitrate ns \<le> MAXIMUM_BITRATE cs \<and>
    (burst_bitrate ns = video_bitrate ns \<or>
     video_bitrate ns = MAXIMUM_BITRATE cs \<and> burst_bitrate ns = video_bitrate ns * BURST_BITRATE_RATIO) \<and>
    MIN_INCREASE_PERCENTAGE \<le> increase_percentage cs \<and> increase_percentage cs \<le> MAX_INCREASE_PERCENTAGE \<and>
    0 \<le> video_bitrate ns \<and> burst_bitrate ns < 2 ^ 31"
proof -
  let ?cs0 = "network_algo_set_dpi d (network_algo_set_dimensions w h congestion_init)"
  have dims: "network_algo_width ?cs0 = w" "network_algo_height ?cs0 = h" "dpi ?cs0 = d"
    by (simp_all add: network_algo_set_dpi_def network_algo_set_dimensions_def)
  have pos: "0 < w \<and> 0 < h"
    using assms(1) by (induction rule: wcc_reach.induct)
      (auto simp: get_starting_network_settings_def get_default_network_settings_def dims split: if_splits)
  then have wh: "0 \<le> w * h" by simp
  have max0: "MAXIMUM_BITRATE ?cs0 = get_video_bitrate w h d MAXIMUM_BITRATE_PER_PIXEL" by (simp add: MAXIMUM_BITRATE_def dims)
  have "0 \<le> MAXIMUM_BITRATE ?cs0"
    unfolding max0 using wh by (intro video_bitrate_bounds) (simp_all add: MAXIMUM_BITRATE_PER_PIXEL_def)
  then have "search_ok ?cs0"
    by (simp add: search_ok_def network_algo_set_dpi_def network_algo_set_dimensions_def congestion_init_def
      MAX_INCREASE_PERCENTAGE_def MIN_INCREASE_PERCENTAGE_def)
  from reach_ok [OF assms(1) this] have ok: "wcc_ok cs ns" and ss: "same_screen ?cs0 cs" by auto
  have "real_of_int (MAXIMUM_BITRATE cs) \<le> of_int (w * h) * MAXIMUM_BITRATE_PER_PIXEL * (31 / 10)"
    unfolding same_screen_bitrates(2) [OF ss] max0 using wh
    by (intro video_bitrate_bounds) (simp_all add: MAXIMUM_BITRATE_PER_PIXEL_def)
  also have "\<dots> \<le> of_int (2 ^ 25) * 4 * (31 / 10)"
  proof -
    have "real_of_int (w * h) \<le> of_int (2 ^ 25)" using assms(2) by (simp only: of_int_le_iff)
    then show ?thesis unfolding MAXIMUM_BITRATE_PER_PIXEL_def by (intro mult_right_mono) simp_all
  qed
  finally have "MAXIMUM_BITRATE cs * 4 < 2 ^ 31" by simp
  moreover have "0 \<le> MINIMUM_BITRATE cs" using ok screen_bitrates(1) by (simp add: wcc_ok_def)
  ultimately show ?thesis
    using ok unfolding wcc_ok_def settings_ok_def search_ok_def BURST_BITRATE_RATIO_def by auto
qed

theorem wcc_bitrate_bounds_witness:
  "\<exists>ns. wcc_reach (\<lambda>f _ _ _ _ _ _ _. f) (\<lambda>f _ old. (f :: unit, old)) desk desk ns \<and>
    1555200 \<le> video_bitrate ns \<and> video_bitrate ns \<le> 8294400"
proof -
  obtain ns where ns: "get_starting_network_settings desk = Some ns" using desk_bitrates(5) by blast
  have r: "wcc_reach (\<lambda>f _ _ _ _ _ _ _. f) (\<lambda>f _ old. (f :: unit, old)) desk desk ns" by (rule wcc_reach.start [OF ns])
  from wcc_bitrate_bounds [of _ _ 192 1920 1080, folded desk_def, OF r] show ?thesis
    using r desk_bitrates(1,2) by (intro exI [of _ ns]) simp
qed



text \<open>Two calls for a new connection, two seconds apart.\<close>

definition quiet :: GroupStats where "quiet = \<lparr>stats_group_id = 0, departure_time = 0, arrival_time = 0\<rparr>"

definition read_at :: "real \<Rightarrow> readings" where
  "read_at t = \<lparr>at_entry = t, at_maybe = t, at_overuse = t, at_increase = t, at_decrease = t, at_decreased = t,
     at_updated = t, at_stuck = t, at_fec = t\<rparr>"

definition desk_started :: CongestionState where
  "desk_started = desk\<lparr>delay_controller_initialized := True, delay_controller_state := DELAY_CONTROLLER_INCREASE\<rparr>"

lemmas call_defs = whist_congestion_controller_def control_bitrate_def sense_def adjust_fec_def ENABLE_FEC_def
  start_timers_def filter_delay_def detect_overuse_def latency_state_def delay_variation_def quiet_def read_at_def
  desk_started_def desk_def network_algo_set_dpi_def network_algo_set_dimensions_def congestion_init_def
  NEW_BITRATE_DURATION_IN_SEC_def DELAY_VARIATION_THRESHOLD_IN_SEC_def MIN_LATENCY_THRESHOLD_SEC_def

abbreviation "no_feed \<equiv> (\<lambda>f _ _ _ _ _ _ _. f)"
abbreviation "no_ratio \<equiv> (\<lambda>f _ old. (f :: unit, old))"

lemma reach_started:
  assumes "get_starting_network_settings desk = Some ns"
  shows "wcc_reach no_feed no_ratio desk desk_started ns"
proof -
  have "saturate_bandwidth ns" using assms desk_bitrates(5) by auto
  then have "whist_congestion_controller no_feed no_ratio (read_at 0) quiet quiet 6100000 0 0 0 desk ns () =
    (desk_started, ns, (), False)" by (simp add: call_defs Let_def)
  from wcc_reach.control [OF wcc_reach.start [OF assms] this] show ?thesis .
qed






end
