(* ===== verification/Rw_Lock.thy ===== *)
theory Rw_Lock
  imports Whist_Prelude
begin

text \<open>
  The writer-preferred readers-writer lock of \<^verbatim>\<open>whist/utils/rwlock.c\<close>.

  The lock is shared by any number of threads. Each thread has a program point inside the four
  calls, and each call is cut into the sections that other threads cannot observe half done: a
  section takes one mutex, works on the variables that this mutex protects, and gives it up or
  starts to wait on a condition. Only \<^verbatim>\<open>read_lock\<close> takes a second mutex while it holds
  \<^verbatim>\<open>num_writers_lock\<close>, so the owner of this mutex is part of the state. A thread that sleeps on
  a condition is woken by a broadcast or spuriously, and then tests its loop condition again.

  The theory shows that a writer excludes everyone else, that the counters count what they are
  meant to count, that a waiting writer keeps new readers out, and that no broadcast is lost: the
  calls can only come to a halt while somebody holds the lock.
\<close>

section \<open>The lock and its callers\<close>

record RWLock =
  num_active_readers :: int
  num_writers :: int
  num_writers_lock :: "nat option"  \<comment> \<open>the thread that owns the mutex\<close>
  is_active_writer :: bool

definition init_rw_lock :: RWLock where
  "init_rw_lock = \<lparr>num_active_readers = 0, num_writers = 0, num_writers_lock = None,
     is_active_writer = False\<rparr>"

datatype rw_point =
    Outside
  | Announce        \<comment> \<open>\<^verbatim>\<open>write_lock\<close>, before \<^verbatim>\<open>num_writers++\<close>\<close>
  | Await_Readers   \<comment> \<open>before the test of \<^verbatim>\<open>num_active_readers\<close>\<close>
  | Asleep_Readers  \<comment> \<open>in \<^verbatim>\<open>no_active_readers_cond\<close>\<close>
  | Await_Turn      \<comment> \<open>before the test of \<^verbatim>\<open>is_active_writer\<close>\<close>
  | Asleep_Turn     \<comment> \<open>in \<^verbatim>\<open>no_active_writer_cond\<close>\<close>
  | Writing         \<comment> \<open>\<^verbatim>\<open>write_lock\<close> has returned\<close>
  | Drop_Flag       \<comment> \<open>\<^verbatim>\<open>write_unlock\<close>, before \<^verbatim>\<open>is_active_writer = false\<close>\<close>
  | Signal_Turn     \<comment> \<open>before the broadcast of \<^verbatim>\<open>no_active_writer_cond\<close>\<close>
  | Withdraw        \<comment> \<open>before \<^verbatim>\<open>num_writers--\<close>\<close>
  | Await_Writers   \<comment> \<open>\<^verbatim>\<open>read_lock\<close>, before the test of \<^verbatim>\<open>num_writers\<close>\<close>
  | Asleep_Writers  \<comment> \<open>in \<^verbatim>\<open>no_writers_cond\<close>\<close>
  | Count_In        \<comment> \<open>owns \<^verbatim>\<open>num_writers_lock\<close>, before \<^verbatim>\<open>num_active_readers++\<close>\<close>
  | Release         \<comment> \<open>before \<^verbatim>\<open>num_writers_lock\<close> is unlocked\<close>
  | Reading         \<comment> \<open>\<^verbatim>\<open>read_lock\<close> has returned\<close>
  | Count_Out       \<comment> \<open>\<^verbatim>\<open>read_unlock\<close>, before \<^verbatim>\<open>num_active_readers--\<close>\<close>

record rw_sys =
  lock :: RWLock
  point :: "nat \<Rightarrow> rw_point"

definition goto :: "nat \<Rightarrow> rw_point \<Rightarrow> rw_sys \<Rightarrow> rw_sys" where
  "goto t p s = s\<lparr>point := (point s)(t := p)\<rparr>"

definition set_lock :: "RWLock \<Rightarrow> rw_sys \<Rightarrow> rw_sys" where
  "set_lock l s = s\<lparr>lock := l\<rparr>"

fun awake :: "rw_point \<Rightarrow> rw_point" where
  "awake Asleep_Readers = Await_Readers"
| "awake Asleep_Turn = Await_Turn"
| "awake Asleep_Writers = Await_Writers"
| "awake p = p"

definition broadcast :: "rw_point \<Rightarrow> rw_sys \<Rightarrow> rw_sys" where
  "broadcast c s = s\<lparr>point := (\<lambda>u. if point s u = c then awake c else point s u)\<rparr>"

section \<open>The four calls, one section at a time\<close>

text \<open>Each function runs the next section of the call that thread \<open>t\<close> is in. \<open>None\<close> says that the
  section cannot run: the mutex is taken, the thread is asleep, or it is not in this call.\<close>

definition write_lock :: "nat \<Rightarrow> rw_sys \<Rightarrow> rw_sys option" where
  "write_lock t s =
     (let l = lock s in
      case point s t of
        Announce \<Rightarrow>
          if num_writers_lock l \<noteq> None then None
          else Some (goto t Await_Readers (set_lock (l\<lparr>num_writers := num_writers l + 1\<rparr>) s))
      | Await_Readers \<Rightarrow>
          Some (goto t (if num_active_readers l > 0 then Asleep_Readers else Await_Turn) s)
      | Await_Turn \<Rightarrow>
          if is_active_writer l then Some (goto t Asleep_Turn s)
          else Some (goto t Writing (set_lock (l\<lparr>is_active_writer := True\<rparr>) s))
      | _ \<Rightarrow> None)"

definition read_lock :: "nat \<Rightarrow> rw_sys \<Rightarrow> rw_sys option" where
  "read_lock t s =
     (let l = lock s in
      case point s t of
        Await_Writers \<Rightarrow>
          if num_writers_lock l \<noteq> None then None
          else if num_writers l > 0 then Some (goto t Asleep_Writers s)
          else Some (goto t Count_In (set_lock (l\<lparr>num_writers_lock := Some t\<rparr>) s))
      | Count_In \<Rightarrow>
          Some (goto t Release (set_lock (l\<lparr>num_active_readers := num_active_readers l + 1\<rparr>) s))
      | Release \<Rightarrow> Some (goto t Reading (set_lock (l\<lparr>num_writers_lock := None\<rparr>) s))
      | _ \<Rightarrow> None)"

definition write_unlock :: "nat \<Rightarrow> rw_sys \<Rightarrow> rw_sys option" where
  "write_unlock t s =
     (let l = lock s in
      case point s t of
        Drop_Flag \<Rightarrow> Some (goto t Signal_Turn (set_lock (l\<lparr>is_active_writer := False\<rparr>) s))
      | Signal_Turn \<Rightarrow> Some (goto t Withdraw (broadcast Asleep_Turn s))
      | Withdraw \<Rightarrow>
          if num_writers_lock l \<noteq> None then None
          else let s = set_lock (l\<lparr>num_writers := num_writers l - 1\<rparr>) s;
                   s = (if num_writers (lock s) = 0 then broadcast Asleep_Writers s else s)
               in Some (goto t Outside s)
      | _ \<Rightarrow> None)"

definition read_unlock :: "nat \<Rightarrow> rw_sys \<Rightarrow> rw_sys option" where
  "read_unlock t s =
     (let l = lock s in
      case point s t of
        Count_Out \<Rightarrow>
          let s = set_lock (l\<lparr>num_active_readers := num_active_readers l - 1\<rparr>) s;
              s = (if num_active_readers (lock s) = 0 then broadcast Asleep_Readers s else s)
          in Some (goto t Outside s)
      | _ \<Rightarrow> None)"

definition rw_section :: "nat \<Rightarrow> rw_sys \<Rightarrow> rw_sys option" where
  "rw_section t s =
     (case write_lock t s of Some s' \<Rightarrow> Some s'
      | None \<Rightarrow> (case read_lock t s of Some s' \<Rightarrow> Some s'
      | None \<Rightarrow> (case write_unlock t s of Some s' \<Rightarrow> Some s'
      | None \<Rightarrow> read_unlock t s)))"

text \<open>A thread calls an unlock only when it holds the lock in that mode, and a lock only when it
  does not hold it.\<close>

inductive rw_step :: "nat \<Rightarrow> rw_sys \<Rightarrow> rw_sys \<Rightarrow> bool" for t where
  call_write_lock: "point s t = Outside \<Longrightarrow> rw_step t s (goto t Announce s)"
| call_read_lock: "point s t = Outside \<Longrightarrow> rw_step t s (goto t Await_Writers s)"
| call_write_unlock: "point s t = Writing \<Longrightarrow> rw_step t s (goto t Drop_Flag s)"
| call_read_unlock: "point s t = Reading \<Longrightarrow> rw_step t s (goto t Count_Out s)"
| run: "rw_section t s = Some s' \<Longrightarrow> rw_step t s s'"
| spurious: "rw_step t s (goto t (awake (point s t)) s)"

inductive_cases rw_stepE: "rw_step t s s'"

definition rw_start :: rw_sys where
  "rw_start = \<lparr>lock = init_rw_lock, point = (\<lambda>_. Outside)\<rparr>"

inductive rw_reach :: "rw_sys \<Rightarrow> bool" where
  start: "rw_reach rw_start"
| step: "rw_reach s \<Longrightarrow> rw_step t s s' \<Longrightarrow> rw_reach s'"

text \<open>A schedule, to execute the system.\<close>

datatype rw_move = Write_Lock nat | Write_Unlock nat | Read_Lock nat | Read_Unlock nat | Run nat

fun rw_act :: "rw_move \<Rightarrow> rw_sys \<Rightarrow> rw_sys option" where
  "rw_act (Write_Lock t) s = (if point s t = Outside then Some (goto t Announce s) else None)"
| "rw_act (Read_Lock t) s = (if point s t = Outside then Some (goto t Await_Writers s) else None)"
| "rw_act (Write_Unlock t) s = (if point s t = Writing then Some (goto t Drop_Flag s) else None)"
| "rw_act (Read_Unlock t) s = (if point s t = Reading then Some (goto t Count_Out s) else None)"
| "rw_act (Run t) s = rw_section t s"

fun rw_play :: "rw_move list \<Rightarrow> rw_sys \<Rightarrow> rw_sys option" where
  "rw_play [] s = Some s"
| "rw_play (m # ms) s = Option.bind (rw_act m s) (rw_play ms)"

lemma rw_act_step: "rw_act m s = Some s' \<Longrightarrow> \<exists>t. rw_step t s s'"
  by (cases m) (auto intro: rw_step.intros split: if_splits)

lemma rw_play_reach: "rw_reach s \<Longrightarrow> rw_play ms s = Some s' \<Longrightarrow> rw_reach s'"
  by (induction ms arbitrary: s)
    (auto split: Option.bind_splits dest!: rw_act_step intro: rw_reach.step)

lemma lock_simps [simp]:
  "lock (goto t p s) = lock s" "lock (set_lock l s) = l" "lock (broadcast c s) = lock s"
  "point (goto t p s) = (point s)(t := p)" "point (set_lock l s) = point s"
  "point (broadcast c s) u = (if point s u = c then awake c else point s u)"
  by (simp_all add: goto_def set_lock_def broadcast_def)

lemmas rw_call_defs = rw_section_def write_lock_def read_lock_def write_unlock_def read_unlock_def

text \<open>The sections by program point: what each of them needs and what it leaves behind.\<close>

lemma rw_section_cases [consumes 1, case_names announce readers_sleep readers_gone turn_sleep
    turn_taken drop_flag signal_turn withdraw writers_sleep writers_gone count_in release count_out]:
  assumes "rw_section t s = Some s'"
  obtains
    "point s t = Announce" "num_writers_lock (lock s) = None"
      "s' = goto t Await_Readers (set_lock ((lock s)\<lparr>num_writers := num_writers (lock s) + 1\<rparr>) s)"
  | "point s t = Await_Readers" "num_active_readers (lock s) > 0" "s' = goto t Asleep_Readers s"
  | "point s t = Await_Readers" "num_active_readers (lock s) \<le> 0" "s' = goto t Await_Turn s"
  | "point s t = Await_Turn" "is_active_writer (lock s)" "s' = goto t Asleep_Turn s"
  | "point s t = Await_Turn" "\<not> is_active_writer (lock s)"
      "s' = goto t Writing (set_lock ((lock s)\<lparr>is_active_writer := True\<rparr>) s)"
  | "point s t = Drop_Flag"
      "s' = goto t Signal_Turn (set_lock ((lock s)\<lparr>is_active_writer := False\<rparr>) s)"
  | "point s t = Signal_Turn" "s' = goto t Withdraw (broadcast Asleep_Turn s)"
  | r where "point s t = Withdraw" "num_writers_lock (lock s) = None"
      "r = set_lock ((lock s)\<lparr>num_writers := num_writers (lock s) - 1\<rparr>) s"
      "s' = goto t Outside (if num_writers (lock r) = 0 then broadcast Asleep_Writers r else r)"
  | "point s t = Await_Writers" "num_writers (lock s) > 0" "s' = goto t Asleep_Writers s"
  | "point s t = Await_Writers" "num_writers_lock (lock s) = None" "num_writers (lock s) \<le> 0"
      "s' = goto t Count_In (set_lock ((lock s)\<lparr>num_writers_lock := Some t\<rparr>) s)"
  | "point s t = Count_In"
      "s' = goto t Release (set_lock ((lock s)\<lparr>num_active_readers := num_active_readers (lock s) + 1\<rparr>) s)"
  | "point s t = Release"
      "s' = goto t Reading (set_lock ((lock s)\<lparr>num_writers_lock := None\<rparr>) s)"
  | r where "point s t = Count_Out"
      "r = set_lock ((lock s)\<lparr>num_active_readers := num_active_readers (lock s) - 1\<rparr>) s"
      "s' = goto t Outside (if num_active_readers (lock r) = 0 then broadcast Asleep_Readers r else r)"
proof (cases "point s t")
  case Announce
  then show ?thesis using assms that(1) by (auto simp: rw_call_defs Let_def split: if_splits)
next
  case Await_Readers
  then show ?thesis using assms that(2,3) by (auto simp: rw_call_defs Let_def split: if_splits)
next
  case Await_Turn
  then show ?thesis using assms that(4,5) by (auto simp: rw_call_defs Let_def split: if_splits)
next
  case Drop_Flag
  then show ?thesis using assms that(6) by (auto simp: rw_call_defs Let_def split: if_splits)
next
  case Signal_Turn
  then show ?thesis using assms that(7) by (auto simp: rw_call_defs Let_def split: if_splits)
next
  case Withdraw
  then show ?thesis using assms that(8) by (auto simp: rw_call_defs Let_def split: if_splits)
next
  case Await_Writers
  then show ?thesis using assms that(9,10) by (auto simp: rw_call_defs Let_def split: if_splits)
next
  case Count_In
  then show ?thesis using assms that(11) by (auto simp: rw_call_defs Let_def split: if_splits)
next
  case Release
  then show ?thesis using assms that(12) by (auto simp: rw_call_defs Let_def split: if_splits)
next
  case Count_Out
  then show ?thesis using assms that(13) by (auto simp: rw_call_defs Let_def split: if_splits)
qed (use assms in \<open>simp_all add: rw_call_defs Let_def\<close>)

section \<open>Who is where\<close>

fun counted :: "rw_point \<Rightarrow> bool" where  \<comment> \<open>in \<^verbatim>\<open>num_active_readers\<close>\<close>
  "counted Release = True"
| "counted Reading = True"
| "counted Count_Out = True"
| "counted _ = False"

fun active :: "rw_point \<Rightarrow> bool" where  \<comment> \<open>has set \<^verbatim>\<open>is_active_writer\<close>\<close>
  "active Writing = True"
| "active Drop_Flag = True"
| "active _ = False"

fun cleared :: "rw_point \<Rightarrow> bool" where  \<comment> \<open>a writer that has seen the readers go\<close>
  "cleared Await_Turn = True"
| "cleared Asleep_Turn = True"
| "cleared Writing = True"
| "cleared Drop_Flag = True"
| "cleared Signal_Turn = True"
| "cleared Withdraw = True"
| "cleared _ = False"

fun announced :: "rw_point \<Rightarrow> bool" where  \<comment> \<open>in \<^verbatim>\<open>num_writers\<close>\<close>
  "announced Await_Readers = True"
| "announced Asleep_Readers = True"
| "announced Await_Turn = True"
| "announced Asleep_Turn = True"
| "announced Writing = True"
| "announced Drop_Flag = True"
| "announced Signal_Turn = True"
| "announced Withdraw = True"
| "announced _ = False"

fun owns :: "rw_point \<Rightarrow> bool" where  \<comment> \<open>owner of \<^verbatim>\<open>num_writers_lock\<close> between two sections\<close>
  "owns Count_In = True"
| "owns Release = True"
| "owns _ = False"

lemma point_mono: "active p \<Longrightarrow> cleared p" "cleared p \<Longrightarrow> announced p"
  by (cases p; simp)+

lemma point_awake [simp]:
  "counted (awake p) = counted p" "active (awake p) = active p" "cleared (awake p) = cleared p"
  "announced (awake p) = announced p" "owns (awake p) = owns p"
  by (cases p; simp)+

definition at :: "(rw_point \<Rightarrow> bool) \<Rightarrow> rw_sys \<Rightarrow> nat set" where
  "at P s = {t. P (point s t)}"

lemma in_at [simp]: "t \<in> at P s \<longleftrightarrow> P (point s t)"
  by (simp add: at_def)

lemma at_mono: "at active s \<subseteq> at cleared s" "at cleared s \<subseteq> at announced s"
  by (auto simp: point_mono)

lemma at_set_lock [simp]: "at P (set_lock l s) = at P s"
  by (simp add: at_def)

lemma at_goto: "at P (goto t p s) = (if P p then insert t (at P s) else at P s - {t})"
  by (auto simp: at_def)

lemma at_goto_simps [simp]:
  "P p = P (point s t) \<Longrightarrow> at P (goto t p s) = at P s"
  "P p \<Longrightarrow> at P (goto t p s) = insert t (at P s)"
  by (auto simp: at_def)

lemma at_broadcast [simp]:
  "P (awake c) = P c \<Longrightarrow> at P (broadcast c s) = at P s"
  "awake c \<noteq> c \<Longrightarrow> at ((=) c) (broadcast c s) = {}"
  "c \<noteq> d \<Longrightarrow> awake c \<noteq> d \<Longrightarrow> at ((=) d) (broadcast c s) = at ((=) d) s"
  by (auto simp: at_def)

definition counts :: "(rw_point \<Rightarrow> bool) \<Rightarrow> int \<Rightarrow> rw_sys \<Rightarrow> bool" where
  "counts P n s \<longleftrightarrow> finite (at P s) \<and> n = int (card (at P s))"

lemma counts_goto:
  assumes "counts P n s" "m = n + of_bool (P p) - of_bool (P (point s t))"
  shows "counts P m (goto t p s)"
proof -
  have "0 < card (at P s)" if "P (point s t)"
    using that assms(1) by (auto simp: counts_def card_gt_0_iff simp flip: in_at)
  with assms show ?thesis
    by (auto simp: counts_def at_goto card_Diff_singleton card_insert_if of_nat_diff)
qed

lemma counts_other [simp]:
  "counts P n (set_lock l s) = counts P n s"
  "P (awake c) = P c \<Longrightarrow> counts P n (broadcast c s) = counts P n s"
  by (simp_all add: counts_def)

text \<open>The invariant. The first part is about the counters and the mutex, the second about the
  threads that sleep: what they wait for has not happened yet, or the broadcast is still to come.\<close>

definition rw_counts :: "rw_sys \<Rightarrow> bool" where
  "rw_counts s \<longleftrightarrow> counts counted (num_active_readers (lock s)) s \<and>
     counts announced (num_writers (lock s)) s"

lemma rw_countsD:
  assumes "rw_counts s"
  shows "at counted s = {} \<longleftrightarrow> num_active_readers (lock s) \<le> 0"
    and "at counted s = {} \<longleftrightarrow> num_active_readers (lock s) = 0"
    and "at announced s = {} \<longleftrightarrow> num_writers (lock s) \<le> 0"
    and "at announced s = {} \<longleftrightarrow> num_writers (lock s) = 0"
  using assms by (auto simp: rw_counts_def counts_def)

definition rw_exclusion :: "rw_sys \<Rightarrow> bool" where
  "rw_exclusion s \<longleftrightarrow>
     (is_active_writer (lock s) \<longleftrightarrow> at active s \<noteq> {}) \<and>
     (\<exists>w. at active s \<subseteq> {w}) \<and>
     at owns s = set_option (num_writers_lock (lock s)) \<and>
     (num_writers_lock (lock s) = None \<or> at announced s = {}) \<and>
     (at cleared s = {} \<or> at counted s = {})"

definition rw_sleep :: "rw_sys \<Rightarrow> bool" where
  "rw_sleep s \<longleftrightarrow>
     (at ((=) Asleep_Readers) s \<noteq> {} \<longrightarrow> at counted s \<noteq> {}) \<and>
     (at ((=) Asleep_Turn) s \<noteq> {} \<longrightarrow> at active s \<noteq> {} \<or> at ((=) Signal_Turn) s \<noteq> {}) \<and>
     (at ((=) Asleep_Writers) s \<noteq> {} \<longrightarrow> at announced s \<noteq> {})"

lemma rw_counts_section:
  assumes "rw_section t s = Some s'" "rw_counts s"
  shows "rw_counts s'"
  using assms by (cases rule: rw_section_cases) (auto simp: rw_counts_def intro!: counts_goto)

lemma rw_exclusion_section:
  assumes "rw_section t s = Some s'" "rw_counts s" "rw_exclusion s"
  shows "rw_exclusion s'"
  using assms(1)
proof (cases rule: rw_section_cases)
  case announce
  with assms(3) show ?thesis by (simp add: rw_exclusion_def)
next
  case readers_gone
  then have "at counted s = {}" using assms(2) by (simp add: rw_countsD)
  with readers_gone assms(3) show ?thesis by (simp add: rw_exclusion_def)
next
  case turn_taken
  with assms(3) show ?thesis by (auto simp: rw_exclusion_def)
next
  case drop_flag
  then have "t \<in> at active s" by simp
  moreover from assms(3) obtain w where "at active s \<subseteq> {w}" by (auto simp: rw_exclusion_def)
  ultimately have "at active s = {t}" by blast
  with drop_flag assms(3) show ?thesis by (simp add: rw_exclusion_def at_goto [of active])
next
  case (withdraw r)
  then have "t \<in> at cleared s" by simp
  with withdraw assms(3) show ?thesis by (auto simp: rw_exclusion_def at_goto)
next
  case writers_gone
  then have "at announced s = {}" using assms(2) by (simp add: rw_countsD)
  with writers_gone assms(3) show ?thesis by (simp add: rw_exclusion_def)
next
  case count_in
  then have "t \<in> at owns s" by simp
  with assms(3) have "at announced s = {}" by (auto simp: rw_exclusion_def)
  with at_mono [of s] count_in assms(3) show ?thesis by (simp add: rw_exclusion_def)
next
  case release
  then have "t \<in> at owns s" by simp
  with release assms(3) show ?thesis by (simp add: rw_exclusion_def at_goto [of owns])
next
  case (count_out r)
  with assms(3) show ?thesis by (auto simp: rw_exclusion_def at_goto [of counted])
qed (use assms(3) in \<open>simp_all add: rw_exclusion_def\<close>)

lemma rw_sleep_section:
  assumes "rw_section t s = Some s'" "rw_counts s" "rw_counts s'" "rw_exclusion s" "rw_sleep s"
  shows "rw_sleep s'"
  using assms(1)
proof (cases rule: rw_section_cases)
  case readers_sleep
  then have "at counted s \<noteq> {}" using assms(2) by (simp add: rw_countsD)
  with readers_sleep assms(5) show ?thesis by (auto simp: rw_sleep_def)
next
  case turn_sleep
  with assms(4,5) show ?thesis by (simp add: rw_sleep_def rw_exclusion_def)
next
  case turn_taken
  with assms(5) show ?thesis by (simp add: rw_sleep_def)
next
  case drop_flag
  with assms(5) show ?thesis by (simp add: rw_sleep_def)
next
  case signal_turn
  with assms(5) show ?thesis by (simp add: rw_sleep_def)
next
  case (withdraw r)
  with assms(3,5) rw_countsD(4) [OF assms(3)] show ?thesis
    by (auto simp: rw_sleep_def at_goto [of "(=) _"])
next
  case writers_sleep
  then have "at announced s \<noteq> {}" using assms(2) by (simp add: rw_countsD)
  with writers_sleep assms(5) show ?thesis by (simp add: rw_sleep_def)
next
  case (count_out r)
  with assms(3,5) rw_countsD(2) [OF assms(3)] show ?thesis
    by (auto simp: rw_sleep_def at_goto [of "(=) _"])
qed (use assms(5) in \<open>simp_all add: rw_sleep_def\<close>)

definition rw_inv :: "rw_sys \<Rightarrow> bool" where
  "rw_inv s \<longleftrightarrow> rw_counts s \<and> rw_exclusion s \<and> rw_sleep s"

lemma rw_inv_section: "rw_section t s = Some s' \<Longrightarrow> rw_inv s \<Longrightarrow> rw_inv s'"
  by (auto simp: rw_inv_def intro: rw_counts_section rw_exclusion_section rw_sleep_section)

text \<open>A step that only moves a thread within its group: calls, and spurious wake-ups.\<close>

lemma rw_inv_goto:
  assumes "rw_inv s" "awake p = p" "point s t \<noteq> Signal_Turn"
    and "counted p = counted (point s t)" "active p = active (point s t)"
    "cleared p = cleared (point s t)" "announced p = announced (point s t)" "owns p = owns (point s t)"
  shows "rw_inv (goto t p s)"
proof -
  have "p \<noteq> Asleep_Readers" "p \<noteq> Asleep_Turn" "p \<noteq> Asleep_Writers" using assms(2) by auto
  then have "at ((=) Asleep_Readers) (goto t p s) \<subseteq> at ((=) Asleep_Readers) s"
    "at ((=) Asleep_Turn) (goto t p s) \<subseteq> at ((=) Asleep_Turn) s"
    "at ((=) Asleep_Writers) (goto t p s) \<subseteq> at ((=) Asleep_Writers) s"
    by (auto simp: at_goto)
  moreover have "at ((=) Signal_Turn) s \<subseteq> at ((=) Signal_Turn) (goto t p s)"
    using assms(3) by (auto simp: at_goto)
  moreover have "rw_sleep s" using assms(1) by (simp add: rw_inv_def)
  ultimately have "rw_sleep (goto t p s)" using assms(4,5,7)
    unfolding rw_sleep_def by (metis at_goto_simps(1) subset_empty)
  moreover have "rw_counts (goto t p s)" "rw_exclusion (goto t p s)" using assms
    by (simp_all add: rw_inv_def rw_counts_def rw_exclusion_def counts_def)
  ultimately show ?thesis by (simp add: rw_inv_def)
qed

lemma rw_inv_step:
  assumes "rw_step t s s'" "rw_inv s"
  shows "rw_inv s'"
  using assms
proof (cases rule: rw_step.cases)
  case run
  with assms(2) show ?thesis by (simp add: rw_inv_section)
next
  case spurious
  show ?thesis
  proof (cases "awake (point s t) = point s t")
    case True
    then show ?thesis using spurious assms(2) by (simp add: goto_def)
  next
    case False
    then have "awake (awake (point s t)) = awake (point s t)" "point s t \<noteq> Signal_Turn"
      by (cases "point s t"; simp)+
    then show ?thesis using spurious assms(2) by (simp add: rw_inv_goto)
  qed
qed (simp_all add: rw_inv_goto)

lemma rw_inv_start: "rw_inv rw_start"
  by (simp add: rw_inv_def rw_counts_def rw_exclusion_def rw_sleep_def counts_def rw_start_def
      init_rw_lock_def at_def)

lemma rw_reach_inv: "rw_reach s \<Longrightarrow> rw_inv s"
  by (induction rule: rw_reach.induct) (auto intro: rw_inv_start rw_inv_step)

section \<open>Exclusion and writer preference\<close>

lemma rw_inv_exclusive:
  assumes "rw_inv s" "point s t = Writing"
  shows "\<not> counted (point s u)" and "active (point s u) \<Longrightarrow> u = t"
proof -
  have "t \<in> at cleared s" "t \<in> at active s" using assms(2) by simp_all
  with assms(1) have "at counted s = {}" "\<exists>w. at active s \<subseteq> {w}"
    by (auto simp: rw_inv_def rw_exclusion_def)
  with \<open>t \<in> at active s\<close> show "\<not> counted (point s u)" "active (point s u) \<Longrightarrow> u = t"
    by (auto simp flip: in_at)
qed

lemma rw_section_counted:
  assumes "rw_section u s = Some s'" "counted (point s' v)" "\<not> counted (point s v)"
  shows "owns (point s v)"
  using assms by (cases rule: rw_section_cases) (auto split: if_splits)

lemma rw_step_counted:
  assumes "rw_step u s s'" "counted (point s' v)" "\<not> counted (point s v)"
  shows "owns (point s v)"
  using assms by (cases rule: rw_step.cases) (auto intro: rw_section_counted split: if_splits)

lemma rw_inv_no_new_reader:
  assumes "rw_inv s" "announced (point s t)" "rw_step u s s'" "counted (point s' v)"
  shows "counted (point s v)"
proof (rule ccontr)
  assume "\<not> counted (point s v)"
  with assms have "v \<in> at owns s" "t \<in> at announced s" by (auto intro: rw_step_counted)
  with assms(1) show False by (auto simp: rw_inv_def rw_exclusion_def)
qed


section \<open>The contract for the callers\<close>

text \<open>What a caller may rely on: a writer is alone, and nobody but the thread itself makes it a
  holder or ends its hold.\<close>

locale readers_writer =
  fixes step :: "nat \<Rightarrow> 's \<Rightarrow> 's \<Rightarrow> bool"
    and inv :: "'s \<Rightarrow> bool"
    and reads :: "nat \<Rightarrow> 's \<Rightarrow> bool"
    and writes :: "nat \<Rightarrow> 's \<Rightarrow> bool"
  assumes inv_step: "step t s s' \<Longrightarrow> inv s \<Longrightarrow> inv s'"
    and writer_alone: "inv s \<Longrightarrow> writes t s \<Longrightarrow> \<not> reads u s"
    and reads_frame: "step t s s' \<Longrightarrow> u \<noteq> t \<Longrightarrow> reads u s' = reads u s"
begin

lemma reader_keeps_writer_out: "inv s \<Longrightarrow> reads u s \<Longrightarrow> \<not> writes t s"
  using writer_alone by blast

lemma reads_until_own_step:
  assumes "(\<lambda>a b. \<exists>t. t \<noteq> u \<and> step t a b)\<^sup>*\<^sup>* s s'" "inv s" "reads u s"
  shows "inv s' \<and> reads u s' \<and> (\<forall>t. \<not> writes t s')"
  using assms
proof (induction rule: rtranclp_induct)
  case base
  then show ?case using reader_keeps_writer_out by blast
next
  case (step a b)
  then have "inv a" "reads u a" by simp_all
  moreover from step.hyps(2) obtain t where "t \<noteq> u" "step t a b" by blast
  ultimately have "inv b" "reads u b" using inv_step reads_frame by auto
  then show ?case using reader_keeps_writer_out by blast
qed

end

lemma rw_section_frame:
  assumes "rw_section t s = Some s'" "u \<noteq> t"
  shows "point s' u = point s u \<or> point s' u = awake (point s u)"
  using assms by (cases rule: rw_section_cases) auto

lemma rw_step_frame:
  assumes "rw_step t s s'" "u \<noteq> t"
  shows "point s' u = point s u \<or> point s' u = awake (point s u)"
  using assms by (cases rule: rw_step.cases) (auto dest: rw_section_frame)

lemma awake_eq_Reading [simp]: "awake p = Reading \<longleftrightarrow> p = Reading"
  by (cases p) auto

interpretation rw: readers_writer rw_step rw_inv
  "\<lambda>t s. point s t = Reading" "\<lambda>t s. point s t = Writing"
proof
  fix t s s' u
  assume "rw_step t s s'" "u \<noteq> t"
  from rw_step_frame [OF this] show "(point s' u = Reading) = (point s u = Reading)"
    by (metis awake_eq_Reading)
next
  fix s t u
  assume "rw_inv s" "point s t = Writing"
  from rw_inv_exclusive(1) [OF this, of u] show "point s u \<noteq> Reading" by auto
qed (rule rw_inv_step)

section \<open>Progress\<close>

lemma rw_section_runs:
  assumes "p = point s t" "p \<notin> {Outside, Reading, Writing}" "awake p = p"
    and "p \<in> {Announce, Withdraw, Await_Writers} \<Longrightarrow> num_writers_lock (lock s) = None"
  shows "rw_section t s \<noteq> None"
  using assms by (cases p) (auto simp: rw_call_defs Let_def)

lemma rw_sleepD:
  assumes "rw_sleep s"
  shows "point s t = Asleep_Readers \<Longrightarrow> \<exists>u. counted (point s u)"
    and "point s t = Asleep_Turn \<Longrightarrow> \<exists>u. active (point s u) \<or> point s u = Signal_Turn"
    and "point s t = Asleep_Writers \<Longrightarrow> \<exists>u. announced (point s u)"
  using assms unfolding rw_sleep_def at_def by (metis (mono_tags, lifting) empty_Collect_eq)+

lemma rw_inv_sleep_cause:
  assumes "rw_inv s" "awake (point s t) \<noteq> point s t"
  shows "\<exists>u. (announced (point s u) \<or> counted (point s u)) \<and> awake (point s u) = point s u"
proof -
  have sl: "rw_sleep s" using assms(1) by (simp add: rw_inv_def)
  have readers: ?thesis if "counted (point s u)" for u
    by (rule exI [of _ u], use that in \<open>cases "point s u"; simp\<close>)
  have writers: ?thesis if "announced (point s u)" for u
  proof (cases "point s u")
    case Asleep_Readers
    then obtain v where "counted (point s v)" using rw_sleepD(1) [OF sl] by blast
    then show ?thesis by (rule readers)
  next
    case Asleep_Turn
    then obtain v where "active (point s v) \<or> point s v = Signal_Turn"
      using rw_sleepD(2) [OF sl] by blast
    then have "announced (point s v) \<and> awake (point s v) = point s v"
      by (cases "point s v") auto
    then show ?thesis by blast
  qed (use that in \<open>auto intro!: exI [of _ u]\<close>)
  consider "announced (point s t)" | "point s t = Asleep_Writers"
    using assms(2) by (cases "point s t") auto
  then show ?thesis
  proof cases
    case 2
    then obtain v where "announced (point s v)" using rw_sleepD(3) [OF sl] by blast
    then show ?thesis by (rule writers)
  qed (rule writers)
qed

lemma rw_inv_progress:
  assumes inv: "rw_inv s" and t: "point s t \<notin> {Outside, Reading, Writing}"
    and free: "\<And>u. point s u \<noteq> Reading \<and> point s u \<noteq> Writing"
  shows "\<exists>u. rw_section u s \<noteq> None"
proof (cases "num_writers_lock (lock s)")
  case (Some u)
  then have "u \<in> at owns s" using inv by (simp add: rw_inv_def rw_exclusion_def)
  then have "rw_section u s \<noteq> None" by (intro rw_section_runs [OF refl]; cases "point s u"; simp)
  then show ?thesis ..
next
  case None
  have "rw_section u s \<noteq> None" if "awake (point s u) = point s u" "point s u \<noteq> Outside" for u
    using that free [of u] None by (intro rw_section_runs [OF refl]) auto
  moreover have "\<exists>u. awake (point s u) = point s u \<and> point s u \<noteq> Outside"
  proof (cases "awake (point s t) = point s t")
    case False
    from rw_inv_sleep_cause [OF inv this] obtain u
      where "announced (point s u) \<or> counted (point s u)" "awake (point s u) = point s u" by blast
    then have "awake (point s u) = point s u \<and> point s u \<noteq> Outside" by auto
    then show ?thesis ..
  qed (use t in auto)
  ultimately show ?thesis by blast
qed

section \<open>Properties\<close>

text \<open>C38: In every state the threads can reach, a thread for which \<^verbatim>\<open>write_lock\<close> has returned
  excludes every other holder: nobody reads and nobody else writes. \<^verbatim>\<open>num_active_readers\<close> and
  \<^verbatim>\<open>num_writers\<close> are the numbers of threads they stand for, so they are never negative. And the
  lock prefers writers: from the moment that a writer has announced itself until its lock is
  withdrawn again, whoever reads had already been counted as a reader before.\<close>

theorem rwlock_exclusive:
  assumes "rw_reach s"
  shows "(point s t = Writing \<longrightarrow> point s u \<noteq> Reading \<and> (point s u = Writing \<longrightarrow> u = t)) \<and>
    num_active_readers (lock s) = int (card (at counted s)) \<and>
    num_writers (lock s) = int (card (at announced s)) \<and>
    ((\<lambda>a b. announced (point a t) \<and> (\<exists>x. rw_step x a b))\<^sup>*\<^sup>* s s' \<longrightarrow>
      point s' u = Reading \<longrightarrow> counted (point s u))"
proof (intro conjI impI)
  have inv: "rw_inv s" using assms by (rule rw_reach_inv)
  then show "num_active_readers (lock s) = int (card (at counted s))"
    "num_writers (lock s) = int (card (at announced s))"
    by (simp_all add: rw_inv_def rw_counts_def counts_def)
  show "point s u \<noteq> Reading" if "point s t = Writing"
    using rw.writer_alone [OF inv that] .
  show "u = t" if "point s t = Writing" "point s u = Writing"
    using rw_inv_exclusive(2) [OF inv that(1)] that(2) by simp
  assume "(\<lambda>a b. announced (point a t) \<and> (\<exists>x. rw_step x a b))\<^sup>*\<^sup>* s s'" "point s' u = Reading"
  then have "counted (point s' u)"
    "(\<lambda>a b. announced (point a t) \<and> (\<exists>x. rw_step x a b))\<^sup>*\<^sup>* s s'" by simp_all
  from this(2,1) inv show "counted (point s u)"
    by (induction rule: converse_rtranclp_induct)
      (blast intro: rw_inv_step rw_inv_no_new_reader)+
qed

text \<open>Thread 1 reads, thread 2 announces a write and has to wait, thread 3 asks to read and has to
  wait behind it, thread 1 leaves and thread 2 gets the lock.\<close>

definition handover :: rw_sys where
  "handover = the (rw_play ([Read_Lock 1, Run 1, Run 1, Run 1, Write_Lock 2, Run 2, Run 2,
     Read_Lock 3, Run 3, Read_Unlock 1, Run 1, Run 2, Run 2]) rw_start)"

lemma handover_reach: "rw_reach handover"
  by (rule rw_play_reach [OF rw_reach.start, where ms = "[Read_Lock 1, Run 1, Run 1, Run 1,
      Write_Lock 2, Run 2, Run 2, Read_Lock 3, Run 3, Read_Unlock 1, Run 1, Run 2, Run 2]"])
    (simp add: handover_def rw_start_def init_rw_lock_def rw_call_defs Let_def)

lemma handover_points:
  "point handover 1 = Outside" "point handover 2 = Writing" "point handover 3 = Asleep_Writers"
  by (simp_all add: handover_def rw_start_def init_rw_lock_def rw_call_defs Let_def)

theorem rwlock_exclusive_witness:
  "point handover 2 = Writing \<and> point handover 3 \<noteq> Reading \<and>
   num_writers (lock handover) = int (card (at announced handover))"
  using rwlock_exclusive [OF handover_reach, of 2 3] by (simp add: handover_points)

text \<open>C39: No wake-up is lost and the calls never block each other. In every state the threads can
  reach in which some thread is inside one of the four calls and nobody holds the lock, some
  thread can run the next section of its call, without a spurious wake-up and without a new
  call.\<close>

theorem rwlock_no_deadlock:
  assumes "rw_reach s" and "point s t \<notin> {Outside, Reading, Writing}"
    and "\<forall>u. point s u \<noteq> Reading \<and> point s u \<noteq> Writing"
  shows "\<exists>u s'. rw_section u s = Some s'"
  using rw_inv_progress [OF rw_reach_inv [OF assms(1)] assms(2)] assms(3) by blast

text \<open>A writer that has asked first waits for the readers while a second one overtakes it: writers
  are not served in the order of their requests.\<close>

lemma writers_overtake:
  "map_option (\<lambda>s. (point s 1, point s 2))
     (rw_play [Write_Lock 1, Run 1, Write_Lock 2, Run 2, Run 2, Run 2] rw_start)
   = Some (Await_Readers, Writing)"
  by (simp add: rw_start_def init_rw_lock_def rw_call_defs Let_def)

definition departure :: rw_sys where
  "departure = the (rw_play [Write_Unlock 2] handover)"

lemma departure_reach: "rw_reach departure"
  by (rule rw_play_reach [OF handover_reach, where ms = "[Write_Unlock 2]"])
    (simp add: departure_def handover_points)

theorem rwlock_no_deadlock_witness:
  "point departure 3 = Asleep_Writers \<and> (\<exists>u s'. rw_section u departure = Some s')"
proof -
  have holders: "\<forall>u. point departure u \<noteq> Reading \<and> point departure u \<noteq> Writing"
    by (auto simp: departure_def handover_def rw_start_def init_rw_lock_def rw_call_defs Let_def)
  have "point departure 3 = Asleep_Writers" by (simp add: departure_def handover_points)
  with rwlock_no_deadlock [OF departure_reach _ holders, of 3] show ?thesis by simp
qed

end
