(* ===== verification/Client_Lock.thy ===== *)
theory Client_Lock
  imports Rw_Lock
begin

text \<open>
  The activation locks of the server's client, \<^verbatim>\<open>server/client.c\<close>, on top of the readers-writer
  lock of \<open>Rw_Lock\<close>.

  One thread manages the client: it activates it, deactivates it and finally retires it. The other
  threads use the client's sockets only while they hold an activation lock, which is a read lock of
  \<^verbatim>\<open>activation_rwlock\<close>. The flags are protected by \<^verbatim>\<open>cond_mutex\<close>; \<^verbatim>\<open>client_active_lock\<close> keeps this
  mutex while it waits for the read lock, so its owner is part of the state, and the sections of the
  readers-writer lock are interleaved with everything else.

  The theory shows the promise of \<^verbatim>\<open>client.h\<close>: the client stays active as long as somebody holds an
  activation lock, the assertions in \<^verbatim>\<open>client_active_unlock\<close> and (for a holder) in
  \<^verbatim>\<open>start_deactivating_client\<close> never fail, and the thread that keeps \<^verbatim>\<open>cond_mutex\<close> while it takes
  the read lock never has to wait there.
\<close>

section \<open>State\<close>

record Client =
  is_active :: bool
  is_deactivating :: bool
  is_permanently_deactivated :: bool
  cond_mutex :: "nat option"  \<comment> \<open>the thread that owns the mutex\<close>

definition init_client :: Client where
  "init_client = \<lparr>is_active = False, is_deactivating = False, is_permanently_deactivated = False,
     cond_mutex = None\<rparr>"

datatype place =
    Idle
  | Locking          \<comment> \<open>\<^verbatim>\<open>client_active_lock\<close>, before it has \<^verbatim>\<open>cond_mutex\<close>\<close>
  | Trying           \<comment> \<open>\<^verbatim>\<open>client_active_trylock\<close>, before it has \<^verbatim>\<open>cond_mutex\<close>\<close>
  | Asleep           \<comment> \<open>waits on \<^verbatim>\<open>cond\<close>\<close>
  | Grabbing         \<comment> \<open>owns \<^verbatim>\<open>cond_mutex\<close>, inside \<^verbatim>\<open>read_lock\<close>\<close>
  | Holding          \<comment> \<open>has a \<^verbatim>\<open>ClientLock\<close>\<close>
  | Releasing        \<comment> \<open>\<^verbatim>\<open>client_active_unlock\<close>, inside \<^verbatim>\<open>read_unlock\<close>\<close>
  | Flagging bool    \<comment> \<open>\<^verbatim>\<open>start_deactivating_client\<close>, called by a holder or by the manager\<close>
  | Activating       \<comment> \<open>\<^verbatim>\<open>activate_client\<close>\<close>
  | Deactivating     \<comment> \<open>\<^verbatim>\<open>deactivate_client\<close>, before the assertions\<close>
  | Draining         \<comment> \<open>inside \<^verbatim>\<open>write_lock\<close>\<close>
  | Drained          \<comment> \<open>inside \<^verbatim>\<open>write_unlock\<close>\<close>
  | Finishing        \<comment> \<open>before the flags are cleared\<close>
  | Retiring         \<comment> \<open>\<^verbatim>\<open>permanently_deactivate_client\<close>\<close>

datatype fatal = In_Start bool | In_Deactivate | In_Permanently | In_Unlock | Overdue

record client_sys =
  client :: Client
  rw :: rw_sys
  place :: "nat \<Rightarrow> place"
  fatal :: "(nat \<times> fatal) option"  \<comment> \<open>the assertion that ended the process\<close>

definition put :: "nat \<Rightarrow> place \<Rightarrow> client_sys \<Rightarrow> client_sys" where
  "put t p s = s\<lparr>place := (place s)(t := p)\<rparr>"

definition set_client :: "Client \<Rightarrow> client_sys \<Rightarrow> client_sys" where
  "set_client c s = s\<lparr>client := c\<rparr>"

definition set_rw :: "rw_sys \<Rightarrow> client_sys \<Rightarrow> client_sys" where
  "set_rw r s = s\<lparr>rw := r\<rparr>"

definition die :: "nat \<Rightarrow> fatal \<Rightarrow> client_sys \<Rightarrow> client_sys" where
  "die t f s = s\<lparr>fatal := Some (t, f)\<rparr>"

definition wake_all :: "client_sys \<Rightarrow> client_sys" where
  "wake_all s = s\<lparr>place := (\<lambda>u. if place s u = Asleep then Locking else place s u)\<rparr>"

section \<open>Operations\<close>

text \<open>Each function runs the next section of the call that thread \<open>t\<close> is in; \<open>None\<close> says that the
  thread has to wait for a mutex, or for the readers-writer lock, or is not in this call.\<close>

definition activate_client :: "nat \<Rightarrow> client_sys \<Rightarrow> client_sys option" where
  "activate_client t s =
     (let c = client s in
      if place s t \<noteq> Activating \<or> cond_mutex c \<noteq> None then None
      else Some (put t Idle (wake_all (set_client (c\<lparr>is_active := True\<rparr>) s))))"

definition start_deactivating_client :: "nat \<Rightarrow> client_sys \<Rightarrow> client_sys option" where
  "start_deactivating_client t s =
     (let c = client s in
      case place s t of
        Flagging holder \<Rightarrow>
          if cond_mutex c \<noteq> None then None
          else if \<not> is_active c then Some (die t (In_Start holder) s)
          else Some (put t (if holder then Holding else Idle)
                 (set_client (c\<lparr>is_deactivating := True\<rparr>) s))
      | _ \<Rightarrow> None)"

definition deactivate_client :: "nat \<Rightarrow> client_sys \<Rightarrow> client_sys option" where
  "deactivate_client t s =
     (let c = client s in
      case place s t of
        Deactivating \<Rightarrow>
          if \<not> is_active c \<or> \<not> is_deactivating c then Some (die t In_Deactivate s)
          else Some (put t Draining (set_rw (goto t Announce (rw s)) s))
      | Draining \<Rightarrow>
          if point (rw s) t \<noteq> Writing then None
          else Some (put t Drained (set_rw (goto t Drop_Flag (rw s)) s))
      | Drained \<Rightarrow> if point (rw s) t \<noteq> Outside then None else Some (put t Finishing s)
      | Finishing \<Rightarrow>
          if cond_mutex c \<noteq> None then None
          else Some (put t Idle (set_client (c\<lparr>is_deactivating := False, is_active := False\<rparr>) s))
      | _ \<Rightarrow> None)"

definition permanently_deactivate_client :: "nat \<Rightarrow> client_sys \<Rightarrow> client_sys option" where
  "permanently_deactivate_client t s =
     (let c = client s in
      if place s t \<noteq> Retiring \<or> cond_mutex c \<noteq> None then None
      else if is_active c then Some (die t In_Permanently s)
      else Some (put t Idle (wake_all (set_client (c\<lparr>is_permanently_deactivated := True\<rparr>) s))))"

text \<open>The read lock is requested with the mutex in hand.\<close>

definition grab :: "nat \<Rightarrow> client_sys \<Rightarrow> client_sys" where
  "grab t s = put t Grabbing (set_client ((client s)\<lparr>cond_mutex := Some t\<rparr>)
     (set_rw (goto t Await_Writers (rw s)) s))"

definition grabbed :: "nat \<Rightarrow> client_sys \<Rightarrow> client_sys option" where
  "grabbed t s =
     (if place s t \<noteq> Grabbing \<or> point (rw s) t \<noteq> Reading then None
      else Some (put t Holding (set_client ((client s)\<lparr>cond_mutex := None\<rparr>) s)))"

definition client_active_lock :: "nat \<Rightarrow> client_sys \<Rightarrow> client_sys option" where
  "client_active_lock t s =
     (let c = client s in
      if place s t \<noteq> Locking then grabbed t s
      else if cond_mutex c \<noteq> None then None
      else if is_active c \<and> \<not> is_deactivating c then Some (grab t s)
      else if is_permanently_deactivated c then Some (put t Idle s)
      else Some (put t Asleep s))"

definition client_active_trylock :: "nat \<Rightarrow> client_sys \<Rightarrow> client_sys option" where
  "client_active_trylock t s =
     (let c = client s in
      if place s t \<noteq> Trying then grabbed t s
      else if cond_mutex c \<noteq> None then None
      else if is_active c \<and> \<not> is_deactivating c then Some (grab t s)
      else Some (put t Idle s))"

definition client_active_unlock :: "nat \<Rightarrow> client_sys \<Rightarrow> client_sys option" where
  "client_active_unlock t s =
     (case place s t of
        Holding \<Rightarrow>
          if \<not> is_active (client s) then Some (die t In_Unlock s)
          else Some (put t Releasing (set_rw (goto t Count_Out (rw s)) s))
      | Releasing \<Rightarrow> if point (rw s) t \<noteq> Outside then None else Some (put t Idle s)
      | _ \<Rightarrow> None)"

section \<open>The system\<close>

inductive client_step :: "nat \<Rightarrow> client_sys \<Rightarrow> client_sys \<Rightarrow> bool" for m where
  call_lock: "fatal s = None \<Longrightarrow> place s t = Idle \<Longrightarrow> client_step m s (put t Locking s)"
| call_trylock: "fatal s = None \<Longrightarrow> place s t = Idle \<Longrightarrow> client_step m s (put t Trying s)"
| call_flag: "fatal s = None \<Longrightarrow> place s t = Holding \<Longrightarrow> client_step m s (put t (Flagging True) s)"
| call_manage: "fatal s = None \<Longrightarrow> place s m = Idle \<Longrightarrow>
    p \<in> {Activating, Flagging False, Deactivating, Retiring} \<Longrightarrow> client_step m s (put m p s)"
| activate: "fatal s = None \<Longrightarrow> activate_client t s = Some s' \<Longrightarrow> client_step m s s'"
| start: "fatal s = None \<Longrightarrow> start_deactivating_client t s = Some s' \<Longrightarrow> client_step m s s'"
| deactivate: "fatal s = None \<Longrightarrow> deactivate_client t s = Some s' \<Longrightarrow> client_step m s s'"
| retire: "fatal s = None \<Longrightarrow> permanently_deactivate_client t s = Some s' \<Longrightarrow> client_step m s s'"
| lock: "fatal s = None \<Longrightarrow> client_active_lock t s = Some s' \<Longrightarrow> client_step m s s'"
| trylock: "fatal s = None \<Longrightarrow> client_active_trylock t s = Some s' \<Longrightarrow> client_step m s s'"
| unlock: "fatal s = None \<Longrightarrow> client_active_unlock t s = Some s' \<Longrightarrow> client_step m s s'"
| rw_run: "fatal s = None \<Longrightarrow> rw_section t (rw s) = Some r \<Longrightarrow> client_step m s (set_rw r s)"
| rw_spurious: "fatal s = None \<Longrightarrow>
    client_step m s (set_rw (goto t (awake (point (rw s) t)) (rw s)) s)"
| spurious: "fatal s = None \<Longrightarrow> place s t = Asleep \<Longrightarrow> client_step m s (put t Locking s)"
| overdue: "fatal s = None \<Longrightarrow> place s t = Draining \<or> place s t = Drained \<Longrightarrow>
    client_step m s (die t Overdue s)"

definition client_start :: client_sys where
  "client_start = \<lparr>client = init_client, rw = rw_start, place = (\<lambda>_. Idle), fatal = None\<rparr>"

inductive client_reach :: "nat \<Rightarrow> client_sys \<Rightarrow> bool" for m where
  start: "client_reach m client_start"
| step: "client_reach m s \<Longrightarrow> client_step m s s' \<Longrightarrow> client_reach m s'"

section \<open>The invariant\<close>

fun holds :: "place \<Rightarrow> bool" where
  "holds Holding = True"
| "holds (Flagging holder) = holder"
| "holds _ = False"

fun drains :: "place \<Rightarrow> bool" where
  "drains Draining = True"
| "drains Drained = True"
| "drains Finishing = True"
| "drains _ = False"

fun drained :: "place \<Rightarrow> bool" where
  "drained Drained = True"
| "drained Finishing = True"
| "drained _ = False"

fun manages :: "place \<Rightarrow> bool" where
  "manages (Flagging holder) = (\<not> holder)"
| "manages Activating = True"
| "manages Deactivating = True"
| "manages Retiring = True"
| "manages p = drains p"

fun grabs :: "place \<Rightarrow> bool" where
  "grabs Grabbing = True"
| "grabs _ = False"

text \<open>Where a thread is inside the readers-writer lock, given where it is in a client call.\<close>

fun rw_points :: "place \<Rightarrow> rw_point set" where
  "rw_points Grabbing = {Await_Writers, Asleep_Writers, Count_In, Release, Reading}"
| "rw_points Holding = {Reading}"
| "rw_points (Flagging holder) = (if holder then {Reading} else {Outside})"
| "rw_points Releasing = {Count_Out, Outside}"
| "rw_points Draining =
     {Announce, Await_Readers, Asleep_Readers, Await_Turn, Asleep_Turn, Writing}"
| "rw_points Drained = {Drop_Flag, Signal_Turn, Withdraw, Outside}"
| "rw_points _ = {Outside}"

definition client_link :: "client_sys \<Rightarrow> bool" where
  "client_link s \<longleftrightarrow> rw_inv (rw s) \<and> (\<forall>t. point (rw s) t \<in> rw_points (place s t))"

definition within :: "(place \<Rightarrow> bool) \<Rightarrow> client_sys \<Rightarrow> nat set" where
  "within P s = {t. P (place s t)}"

definition client_roles :: "nat \<Rightarrow> client_sys \<Rightarrow> bool" where
  "client_roles m s \<longleftrightarrow> within manages s \<subseteq> {m} \<and>
     within grabs s = set_option (cond_mutex (client s))"

definition client_flags :: "client_sys \<Rightarrow> bool" where
  "client_flags s \<longleftrightarrow>
     (within drains s \<noteq> {} \<longrightarrow> is_active (client s) \<and> is_deactivating (client s)) \<and>
     (cond_mutex (client s) \<noteq> None \<longrightarrow> is_active (client s) \<and> \<not> is_deactivating (client s)) \<and>
     (within holds s \<noteq> {} \<longrightarrow> is_active (client s)) \<and>
     (within drained s = {} \<or> within holds s = {})"

definition client_asserts :: "client_sys \<Rightarrow> bool" where
  "client_asserts s \<longleftrightarrow> (\<forall>t. fatal s \<noteq> Some (t, In_Unlock) \<and> fatal s \<noteq> Some (t, In_Start True))"

lemma client_sys_simps [simp]:
  "client (put t p s) = client s" "rw (put t p s) = rw s" "fatal (put t p s) = fatal s"
  "place (put t p s) = (place s)(t := p)"
  "client (set_client c s) = c" "rw (set_client c s) = rw s" "fatal (set_client c s) = fatal s"
  "place (set_client c s) = place s"
  "client (set_rw r s) = client s" "rw (set_rw r s) = r" "fatal (set_rw r s) = fatal s"
  "place (set_rw r s) = place s"
  "client (die t f s) = client s" "rw (die t f s) = rw s" "fatal (die t f s) = Some (t, f)"
  "place (die t f s) = place s"
  "client (wake_all s) = client s" "rw (wake_all s) = rw s" "fatal (wake_all s) = fatal s"
  "place (wake_all s) u = (if place s u = Asleep then Locking else place s u)"
  by (simp_all add: put_def set_client_def set_rw_def die_def wake_all_def)

lemma in_within [simp]: "t \<in> within P s \<longleftrightarrow> P (place s t)"
  by (simp add: within_def)

lemma within_put: "within P (put t p s) = (if P p then insert t (within P s) else within P s - {t})"
  by (auto simp: within_def)

lemma within_simps [simp]:
  "P p = P (place s t) \<Longrightarrow> within P (put t p s) = within P s"
  "within P (set_client c s) = within P s"
  "within P (set_rw r s) = within P s"
  "within P (die t f s) = within P s"
  "P Asleep = P Locking \<Longrightarrow> within P (wake_all s) = within P s"
  by (auto simp: within_def)

text \<open>The two ways to ask for a lock differ only in what they do when the client is not there.\<close>

lemma client_lock_cases [consumes 1, case_names grab grabbed none]:
  assumes "client_active_lock t s = Some s' \<or> client_active_trylock t s = Some s'"
  obtains "place s t = Locking \<or> place s t = Trying" "cond_mutex (client s) = None"
      "is_active (client s)" "\<not> is_deactivating (client s)" "s' = grab t s"
  | "place s t = Grabbing" "point (rw s) t = Reading"
      "s' = put t Holding (set_client ((client s)\<lparr>cond_mutex := None\<rparr>) s)"
  | p where "place s t = Locking \<or> place s t = Trying" "p = Idle \<or> p = Asleep" "s' = put t p s"
  using assms
  by (auto simp: client_active_lock_def client_active_trylock_def grabbed_def Let_def
      split: if_splits)

lemma deactivate_client_cases [consumes 1, case_names fatal drain drained finishing finish]:
  assumes "deactivate_client t s = Some s'"
  obtains "s' = die t In_Deactivate s"
  | "place s t = Deactivating" "is_active (client s)" "is_deactivating (client s)"
      "s' = put t Draining (set_rw (goto t Announce (rw s)) s)"
  | "place s t = Draining" "point (rw s) t = Writing"
      "s' = put t Drained (set_rw (goto t Drop_Flag (rw s)) s)"
  | "place s t = Drained" "point (rw s) t = Outside" "s' = put t Finishing s"
  | "place s t = Finishing" "cond_mutex (client s) = None"
      "s' = put t Idle (set_client ((client s)\<lparr>is_deactivating := False, is_active := False\<rparr>) s)"
  using assms by (cases "place s t") (auto simp: deactivate_client_def Let_def split: if_splits)

lemma start_deactivating_cases [consumes 1, case_names fatal flag]:
  assumes "start_deactivating_client t s = Some s'"
  obtains holder where "place s t = Flagging holder" "\<not> is_active (client s)"
      "s' = die t (In_Start holder) s"
  | holder where "place s t = Flagging holder" "cond_mutex (client s) = None" "is_active (client s)"
      "s' = put t (if holder then Holding else Idle)
         (set_client ((client s)\<lparr>is_deactivating := True\<rparr>) s)"
  using assms
  by (cases "place s t") (auto simp: start_deactivating_client_def Let_def split: if_splits)

lemma client_unlock_cases [consumes 1, case_names fatal release released]:
  assumes "client_active_unlock t s = Some s'"
  obtains "place s t = Holding" "\<not> is_active (client s)" "s' = die t In_Unlock s"
  | "place s t = Holding" "is_active (client s)"
      "s' = put t Releasing (set_rw (goto t Count_Out (rw s)) s)"
  | "place s t = Releasing" "point (rw s) t = Outside" "s' = put t Idle s"
  using assms by (cases "place s t") (auto simp: client_active_unlock_def split: if_splits)

lemma client_wake_cases [consumes 1, case_names activate fatal retire]:
  assumes "activate_client t s = Some s' \<or> permanently_deactivate_client t s = Some s'"
  obtains "place s t = Activating" "cond_mutex (client s) = None"
      "s' = put t Idle (wake_all (set_client ((client s)\<lparr>is_active := True\<rparr>) s))"
  | "s' = die t In_Permanently s"
  | "place s t = Retiring" "cond_mutex (client s) = None"
      "s' = put t Idle (wake_all (set_client ((client s)\<lparr>is_permanently_deactivated := True\<rparr>) s))"
  using assms
  by (auto simp: activate_client_def permanently_deactivate_client_def Let_def split: if_splits)

lemma client_step_split [consumes 1, case_names lock wake start deactivate unlock move rw overdue]:
  assumes "client_step m s s'"
  obtains t where "client_active_lock t s = Some s' \<or> client_active_trylock t s = Some s'"
  | t where "activate_client t s = Some s' \<or> permanently_deactivate_client t s = Some s'"
  | t where "start_deactivating_client t s = Some s'"
  | t where "deactivate_client t s = Some s'"
  | t where "client_active_unlock t s = Some s'"
  | t p where "s' = put t p s" "holds p = holds (place s t)" "drains p = drains (place s t)"
      "drained p = drained (place s t)" "grabs p = grabs (place s t)"
      "manages p = manages (place s t) \<or> t = m" "rw_points p = rw_points (place s t)"
  | t r where "s' = set_rw r s"
      "rw_section t (rw s) = Some r \<or> r = goto t (awake (point (rw s) t)) (rw s)"
  | t where "s' = die t Overdue s"
  using assms
proof (cases rule: client_step.cases)
  case (call_lock t)
  then show ?thesis by (intro that(6) [of t Locking]) simp_all
next
  case (call_trylock t)
  then show ?thesis by (intro that(6) [of t Trying]) simp_all
next
  case (call_flag t)
  then show ?thesis by (intro that(6) [of t "Flagging True"]) simp_all
next
  case (call_manage p)
  then show ?thesis by (intro that(6) [of m p]) auto
next
  case (spurious t)
  then show ?thesis by (intro that(6) [of t Locking]) simp_all
qed (use that in blast)+

text \<open>Progress inside the readers-writer lock stays inside the call that the thread is in.\<close>

lemma rw_points_awake: "p \<in> rw_points q \<Longrightarrow> awake p \<in> rw_points q"
  by (cases q) (auto split: if_splits)

lemma rw_points_section:
  assumes "rw_section t r = Some r'" "\<forall>u. point r u \<in> rw_points (f u)"
  shows "point r' u \<in> rw_points (f u)"
proof (cases "u = t")
  case True
  have "point r t \<in> rw_points (f t)" using assms(2) by blast
  with assms(1) True show ?thesis
    by (cases rule: rw_section_cases; cases "f t") (auto split: if_splits)
next
  case False
  have "point r u \<in> rw_points (f u)" using assms(2) by blast
  with rw_section_frame [OF assms(1) False] show ?thesis by (auto intro: rw_points_awake)
qed

lemma client_link_rw:
  assumes "client_link s" "rw_section t (rw s) = Some r"
  shows "client_link (set_rw r s)"
  using assms rw_points_section [OF assms(2)] by (auto simp: client_link_def intro: rw_inv_section)

lemma client_link_call:
  assumes "client_link s" "rw_step t (rw s) (goto t p (rw s))" "p \<in> rw_points q"
  shows "client_link (put t q (set_rw (goto t p (rw s)) s))"
  using assms by (auto simp: client_link_def intro: rw_inv_step)

lemma client_link_put:
  assumes "client_link s" "rw_points (place s t) \<subseteq> rw_points q \<or> point (rw s) t \<in> rw_points q"
  shows "client_link (put t q s)"
  using assms by (auto simp: client_link_def)

lemma client_link_frame [simp]:
  "client_link (set_client c s) = client_link s" "client_link (die t f s) = client_link s"
  "client_link (put t q (set_client c s)) = client_link (put t q s)"
  by (simp_all add: client_link_def)

lemma client_linkD: "client_link s \<Longrightarrow> point (rw s) t \<in> rw_points (place s t)"
  by (simp add: client_link_def)

lemma client_link_wake_all: "client_link s \<Longrightarrow> client_link (wake_all s)"
proof -
  assume "client_link s"
  then have "point (rw s) t \<in> rw_points (place (wake_all s) t)" for t
    using client_linkD [of s t] by auto
  with \<open>client_link s\<close> show ?thesis by (simp add: client_link_def)
qed

lemma client_link_lock:
  assumes "client_active_lock t s = Some s' \<or> client_active_trylock t s = Some s'" "client_link s"
  shows "client_link s'"
  using assms(1)
proof (cases rule: client_lock_cases)
  case grab
  then have "point (rw s) t = Outside" using client_linkD [OF assms(2), of t] by auto
  with grab assms(2) show ?thesis by (simp add: grab_def client_link_call rw_step.intros)
next
  case grabbed
  with assms(2) show ?thesis by (simp add: client_link_put)
next
  case (none p)
  with assms(2) show ?thesis by (auto simp: client_link_put)
qed

lemma client_link_deactivate:
  assumes "deactivate_client t s = Some s'" "client_link s"
  shows "client_link s'"
  using assms(1)
proof (cases rule: deactivate_client_cases)
  case drain
  then have "point (rw s) t = Outside" using client_linkD [OF assms(2), of t] by simp
  with drain assms(2) show ?thesis by (simp add: client_link_call rw_step.intros)
qed (use assms(2) in \<open>simp_all add: client_link_put client_link_call rw_step.intros\<close>)

lemma client_link_unlock:
  assumes "client_active_unlock t s = Some s'" "client_link s"
  shows "client_link s'"
  using assms(1)
proof (cases rule: client_unlock_cases)
  case release
  then have "point (rw s) t = Reading" using client_linkD [OF assms(2), of t] by simp
  with release assms(2) show ?thesis by (simp add: client_link_call rw_step.intros)
qed (use assms(2) in \<open>simp_all add: client_link_put\<close>)

lemma client_link_start:
  assumes "start_deactivating_client t s = Some s'" "client_link s"
  shows "client_link s'"
  using assms by (cases rule: start_deactivating_cases) (auto simp: client_link_put)

lemma client_link_wake:
  assumes "activate_client t s = Some s' \<or> permanently_deactivate_client t s = Some s'"
    "client_link s"
  shows "client_link s'"
  using assms by (cases rule: client_wake_cases) (auto simp: client_link_put client_link_wake_all)

lemma client_link_step:
  assumes "client_step m s s'" "client_link s"
  shows "client_link s'"
  using assms(1)
proof (cases rule: client_step_split)
  case (move t p)
  then show ?thesis using assms(2) by (simp add: client_link_put)
next
  case (rw t r)
  then show ?thesis using assms(2) rw_points_awake [OF client_linkD [OF assms(2), of t]]
    by (auto simp: client_link_rw client_link_def
        intro: rw_inv_step rw_step.spurious rw_points_section rw_inv_section)
next
  case (overdue t)
  then show ?thesis using assms(2) by simp
qed (use assms(2) in \<open>blast intro: client_link_lock client_link_deactivate client_link_unlock
       client_link_start client_link_wake\<close>)+

lemma client_roles_lock:
  assumes "client_active_lock t s = Some s' \<or> client_active_trylock t s = Some s'" "client_roles m s"
  shows "client_roles m s'"
  using assms(1)
proof (cases rule: client_lock_cases)
  case grab
  with assms(2) show ?thesis by (auto simp: client_roles_def grab_def within_put [of grabs])
next
  case grabbed
  then have "t \<in> within grabs s" by simp
  with grabbed assms(2) show ?thesis by (simp add: client_roles_def within_put [of grabs])
next
  case (none p)
  with assms(2) show ?thesis by (auto simp: client_roles_def)
qed

lemma client_roles_ops:
  assumes "client_roles m s"
  shows "deactivate_client t s = Some s' \<Longrightarrow> client_roles m s'"
    and "client_active_unlock t s = Some s' \<Longrightarrow> client_roles m s'"
    and "start_deactivating_client t s = Some s' \<Longrightarrow> client_roles m s'"
    and "activate_client t s = Some s' \<or> permanently_deactivate_client t s = Some s' \<Longrightarrow>
      client_roles m s'"
proof -
  assume "deactivate_client t s = Some s'"
  then show "client_roles m s'"
  proof (cases rule: deactivate_client_cases)
    case finish
    with assms show ?thesis by (auto simp: client_roles_def within_put [of manages])
  qed (use assms in \<open>simp_all add: client_roles_def\<close>)
next
  assume "client_active_unlock t s = Some s'"
  then show "client_roles m s'" using assms
    by (cases rule: client_unlock_cases) (auto simp: client_roles_def)
next
  assume "start_deactivating_client t s = Some s'"
  then show "client_roles m s'" using assms
    by (cases rule: start_deactivating_cases) (auto simp: client_roles_def within_put [of manages])
next
  assume "activate_client t s = Some s' \<or> permanently_deactivate_client t s = Some s'"
  then show "client_roles m s'" using assms
    by (cases rule: client_wake_cases) (auto simp: client_roles_def within_put [of manages])
qed

lemma client_roles_step:
  assumes "client_step m s s'" "client_roles m s"
  shows "client_roles m s'"
  using assms(1)
proof (cases rule: client_step_split)
  case (move t p)
  then show ?thesis using assms(2) by (auto simp: client_roles_def within_put [of manages])
next
  case (rw t r)
  then show ?thesis using assms(2) by (simp add: client_roles_def)
next
  case (overdue t)
  then show ?thesis using assms(2) by (simp add: client_roles_def)
qed (use assms(2) in \<open>blast intro: client_roles_ops client_roles_lock\<close>)+

text \<open>The only place where the exclusion of the readers-writer lock is used: when the manager gets
  the write lock, nobody holds the client.\<close>

lemma client_link_drained:
  assumes "client_link s" "point (rw s) t = Writing"
  shows "\<not> holds (place s u)"
proof
  assume "holds (place s u)"
  then have "point (rw s) u = Reading"
    using client_linkD [OF assms(1), of u] by (cases "place s u") (auto split: if_splits)
  with rw.writer_alone [OF _ assms(2)] assms(1) show False by (auto simp: client_link_def)
qed

lemma drains_manages: "drains p \<Longrightarrow> manages p" "drained p \<Longrightarrow> drains p"
  by (cases p; simp)+

lemma client_flags_deactivate:
  assumes "deactivate_client t s = Some s'" "client_link s" "client_roles m s" "client_flags s"
  shows "client_flags s'"
  using assms(1)
proof (cases rule: deactivate_client_cases)
  case drain
  with assms(4) show ?thesis by (auto simp: client_flags_def within_put [of drains])
next
  case drained
  then have "within holds s = {}" using client_link_drained [OF assms(2)] by (simp add: within_def)
  with drained assms(4) show ?thesis by (auto simp: client_flags_def)
next
  case finishing
  with assms(4) show ?thesis by (simp add: client_flags_def)
next
  case finish
  then have "t \<in> within drained s" by simp
  then have "within holds s = {}" using assms(4) by (auto simp: client_flags_def)
  moreover have "within drains s \<subseteq> {m}" "t \<in> within manages s"
    using assms(3) finish unfolding client_roles_def by (auto dest!: subsetD drains_manages(1))
  then have "within drains s - {t} = {}" using assms(3) by (auto simp: client_roles_def)
  ultimately show ?thesis using finish assms(4)
    by (simp add: client_flags_def within_put [of drains])
qed (use assms(4) in \<open>simp add: client_flags_def\<close>)

lemma client_flags_lock:
  assumes "client_active_lock t s = Some s' \<or> client_active_trylock t s = Some s'"
    "client_roles m s" "client_flags s"
  shows "client_flags s'"
  using assms(1)
proof (cases rule: client_lock_cases)
  case grab
  with assms(3) show ?thesis by (auto simp: client_flags_def grab_def)
next
  case grabbed
  then have "t \<in> within grabs s" by simp
  then have "cond_mutex (client s) \<noteq> None" using assms(2) by (auto simp: client_roles_def)
  with assms(3) have "is_active (client s)" "within drains s = {}"
    by (auto simp: client_flags_def)
  moreover from this(2) have "within drained s = {}" by (auto simp: within_def dest: drains_manages)
  ultimately show ?thesis using grabbed by (simp add: client_flags_def)
next
  case (none p)
  with assms(3) show ?thesis by (auto simp: client_flags_def)
qed

lemma client_flags_ops:
  assumes "client_flags s"
  shows "client_active_unlock t s = Some s' \<Longrightarrow> client_flags s'"
    and "start_deactivating_client t s = Some s' \<Longrightarrow> client_flags s'"
    and "activate_client t s = Some s' \<or> permanently_deactivate_client t s = Some s' \<Longrightarrow>
      client_flags s'"
proof -
  assume "client_active_unlock t s = Some s'"
  then show "client_flags s'" using assms
    by (cases rule: client_unlock_cases) (auto simp: client_flags_def within_put [of holds])
next
  assume "start_deactivating_client t s = Some s'"
  then show "client_flags s'" using assms
    by (cases rule: start_deactivating_cases) (auto simp: client_flags_def)
next
  assume "activate_client t s = Some s' \<or> permanently_deactivate_client t s = Some s'"
  then show "client_flags s'" using assms
    by (cases rule: client_wake_cases) (auto simp: client_flags_def)
qed

lemma client_flags_step:
  assumes "client_step m s s'" "client_link s" "client_roles m s" "client_flags s"
  shows "client_flags s'"
  using assms(1)
proof (cases rule: client_step_split)
  case (move t p)
  then show ?thesis using assms(4) by (simp add: client_flags_def)
next
  case (rw t r)
  then show ?thesis using assms(4) by (simp add: client_flags_def)
next
  case (overdue t)
  then show ?thesis using assms(4) by (simp add: client_flags_def)
qed (use assms in \<open>blast intro: client_flags_ops client_flags_lock client_flags_deactivate\<close>)+

lemma client_flags_holds: "client_flags s \<Longrightarrow> holds (place s t) \<Longrightarrow> is_active (client s)"
  by (auto simp: client_flags_def within_def)

lemma client_asserts_step:
  assumes "client_step m s s'" "client_flags s" "client_asserts s"
  shows "client_asserts s'"
  using assms(1)
proof (cases rule: client_step_split)
  case (start t)
  then show ?thesis using assms(3) client_flags_holds [OF assms(2), of t]
    by (cases rule: start_deactivating_cases) (auto simp: client_asserts_def)
next
  case (unlock t)
  then show ?thesis using assms(3) client_flags_holds [OF assms(2), of t]
    by (cases rule: client_unlock_cases) (auto simp: client_asserts_def)
next
  case (deactivate t)
  then show ?thesis using assms(3)
    by (cases rule: deactivate_client_cases) (auto simp: client_asserts_def)
next
  case (lock t)
  then show ?thesis using assms(3)
    by (cases rule: client_lock_cases) (auto simp: client_asserts_def grab_def)
next
  case (wake t)
  then show ?thesis using assms(3)
    by (cases rule: client_wake_cases) (auto simp: client_asserts_def)
qed (use assms(3) in \<open>simp_all add: client_asserts_def\<close>)

definition client_inv :: "nat \<Rightarrow> client_sys \<Rightarrow> bool" where
  "client_inv m s \<longleftrightarrow> client_link s \<and> client_roles m s \<and> client_flags s \<and> client_asserts s"

lemma client_inv_start: "client_inv m client_start"
  by (simp add: client_inv_def client_link_def client_roles_def client_flags_def client_asserts_def
      client_start_def init_client_def within_def rw_inv_start)
    (simp add: rw_start_def)

lemma client_reach_inv: "client_reach m s \<Longrightarrow> client_inv m s"
proof (induction rule: client_reach.induct)
  case (step s s')
  then show ?case
    by (auto simp: client_inv_def
        intro: client_link_step client_roles_step client_flags_step client_asserts_step)
qed (rule client_inv_start)

section \<open>The holder of the mutex never waits\<close>

lemma client_link_announced:
  assumes "client_link s" "announced (point (rw s) u)"
  shows "drains (place s u)"
  using client_linkD [OF assms(1), of u] assms(2)
  by (cases "place s u") (auto split: if_splits)

lemma client_link_owns:
  assumes "client_link s" "owns (point (rw s) u)"
  shows "grabs (place s u)"
  using client_linkD [OF assms(1), of u] assms(2)
  by (cases "place s u") (auto split: if_splits)

lemma client_inv_grabbing:
  assumes inv: "client_inv m s" and "place s t = Grabbing"
  shows "point (rw s) t = Reading \<or> rw_section t (rw s) \<noteq> None"
proof -
  have link: "client_link s" and rwi: "rw_inv (rw s)"
    using inv by (simp_all add: client_inv_def client_link_def)
  have "t \<in> within grabs s" using assms(2) by simp
  then have mutex: "cond_mutex (client s) = Some t"
    using inv by (auto simp: client_inv_def client_roles_def)
  have "within drains s = {}" using inv mutex by (auto simp: client_inv_def client_flags_def)
  then have quiet: "\<not> announced (point (rw s) u)" for u
    using client_link_announced [OF link, of u] by (auto simp: within_def)
  have asleep: "point (rw s) t \<noteq> Asleep_Writers"
    using rw_sleepD(3) [of "rw s" t] rwi quiet by (auto simp: rw_inv_def)
  have free: "num_writers_lock (lock (rw s)) = None" if "point (rw s) t = Await_Writers"
  proof (rule ccontr)
    assume "num_writers_lock (lock (rw s)) \<noteq> None"
    then obtain u where "num_writers_lock (lock (rw s)) = Some u" by auto
    with rwi have "u \<in> at owns (rw s)" by (simp add: rw_inv_def rw_exclusion_def)
    then have "grabs (place s u)" and "u \<noteq> t"
      using client_link_owns [OF link] that by auto
    then have "u \<in> within grabs s" by simp
    with inv mutex \<open>u \<noteq> t\<close> show False by (auto simp: client_inv_def client_roles_def)
  qed
  have "point (rw s) t \<in> rw_points Grabbing" using client_linkD [OF link, of t] assms(2) by simp
  with asleep free show ?thesis
    using rw_section_runs [of _ "rw s" t, OF refl] by auto
qed

section \<open>Property\<close>

text \<open>C40: Whatever the threads do, and in whatever order their steps interleave: the client is active
  as long as a thread holds an activation lock, so the assertion in \<^verbatim>\<open>client_active_unlock\<close> never
  fails, nor does the one in \<^verbatim>\<open>start_deactivating_client\<close> when a holder calls it. In particular
  \<^verbatim>\<open>deactivate_client\<close> does not clear \<^verbatim>\<open>is_active\<close> before the last holder has gone. And a thread
  that keeps \<^verbatim>\<open>cond_mutex\<close> while it takes the read lock never has to wait for anybody there: it has
  the lock, or its next section can run.\<close>

theorem client_lock_sound:
  assumes "client_reach m s"
  shows "(holds (place s t) \<longrightarrow> is_active (client s)) \<and>
    fatal s \<noteq> Some (t, In_Unlock) \<and> fatal s \<noteq> Some (t, In_Start True) \<and>
    (place s t = Grabbing \<longrightarrow> point (rw s) t = Reading \<or> (\<exists>r. rw_section t (rw s) = Some r))"
proof -
  have inv: "client_inv m s" using assms by (rule client_reach_inv)
  then have "holds (place s t) \<longrightarrow> is_active (client s)"
    by (auto simp: client_inv_def client_flags_holds)
  moreover have "fatal s \<noteq> Some (t, In_Unlock)" "fatal s \<noteq> Some (t, In_Start True)"
    using inv by (simp_all add: client_inv_def client_asserts_def)
  ultimately show ?thesis using client_inv_grabbing [OF inv, of t] by auto
qed

text \<open>A run: the manager (thread 0) activates the client, thread 1 takes an activation lock and asks
  for deactivation, and the manager waits for it in \<^verbatim>\<open>write_lock\<close>.\<close>

datatype client_move = Ask nat place | Op nat | Lock_Op nat

definition client_section :: "nat \<Rightarrow> client_sys \<Rightarrow> client_sys option" where
  "client_section t s =
     (case place s t of
        Activating \<Rightarrow> activate_client t s
      | Flagging _ \<Rightarrow> start_deactivating_client t s
      | Locking \<Rightarrow> client_active_lock t s
      | Grabbing \<Rightarrow> client_active_lock t s
      | Trying \<Rightarrow> client_active_trylock t s
      | Holding \<Rightarrow> client_active_unlock t s
      | Releasing \<Rightarrow> client_active_unlock t s
      | Retiring \<Rightarrow> permanently_deactivate_client t s
      | _ \<Rightarrow> deactivate_client t s)"

fun client_act :: "client_move \<Rightarrow> client_sys \<Rightarrow> client_sys option" where
  "client_act (Ask t p) s =
     (if place s t = Idle \<and> (p = Locking \<or> p = Trying \<or> t = 0 \<and>
           (p = Activating \<or> p = Flagging False \<or> p = Deactivating \<or> p = Retiring))
         \<or> place s t = Holding \<and> p = Flagging True
      then Some (put t p s) else None)"
| "client_act (Op t) s = client_section t s"
| "client_act (Lock_Op t) s = map_option (\<lambda>r. set_rw r s) (rw_section t (rw s))"

fun client_play :: "client_move list \<Rightarrow> client_sys \<Rightarrow> client_sys option" where
  "client_play [] s = Some s"
| "client_play (a # as) s = (if fatal s = None then Option.bind (client_act a s) (client_play as) else None)"

lemma client_act_step: "fatal s = None \<Longrightarrow> client_act a s = Some s' \<Longrightarrow> client_step 0 s s'"
  by (cases a) (auto simp: client_section_def intro: client_step.intros split: if_splits place.splits)

lemma client_play_reach: "client_reach 0 s \<Longrightarrow> client_play as s = Some s' \<Longrightarrow> client_reach 0 s'"
proof (induction as arbitrary: s)
  case (Cons a as)
  then obtain r where "client_act a s = Some r" "client_play as r = Some s'" "fatal s = None"
    by (auto split: Option.bind_splits if_splits)
  then show ?case using Cons client_act_step client_reach.step by blast
qed simp

definition waiting_manager :: client_sys where
  "waiting_manager = the (client_play [Ask 0 Activating, Op 0, Ask 1 Locking, Op 1, Lock_Op 1,
     Lock_Op 1, Lock_Op 1, Op 1, Ask 1 (Flagging True), Op 1, Ask 0 Deactivating, Op 0, Lock_Op 0,
     Lock_Op 0] client_start)"

lemmas client_eval = client_start_def init_client_def rw_start_def init_rw_lock_def
  client_section_def activate_client_def start_deactivating_client_def deactivate_client_def
  client_active_lock_def grab_def grabbed_def rw_call_defs Let_def

lemma waiting_manager_reach: "client_reach 0 waiting_manager"
  by (rule client_play_reach [OF client_reach.start, where as = "[Ask 0 Activating, Op 0,
      Ask 1 Locking, Op 1, Lock_Op 1, Lock_Op 1, Lock_Op 1, Op 1, Ask 1 (Flagging True), Op 1,
      Ask 0 Deactivating, Op 0, Lock_Op 0, Lock_Op 0]"])
    (simp add: waiting_manager_def client_eval)

theorem client_lock_sound_witness:
  "place waiting_manager 1 = Holding \<and> point (rw waiting_manager) 0 = Asleep_Readers \<and>
   is_active (client waiting_manager)"
proof -
  have "place waiting_manager 1 = Holding" "point (rw waiting_manager) 0 = Asleep_Readers"
    by (simp_all add: waiting_manager_def client_eval)
  with client_lock_sound [OF waiting_manager_reach, of 1] show ?thesis by simp
qed

end
