(* ===== verification/Spec2Isabelle.thy ===== *)
theory Spec2Isabelle
  imports Linked_List Fifo_Queue Whist_Memory Rs_Wrapper Fec Ring_Buffer_Props Ltr_Reach Throttle
    Network_Algorithm Rw_Lock Client_Lock
begin

text \<open>
  \<^bold>\<open>Verification of the Whist streaming protocol.\<close> The C sources are under \<^verbatim>\<open>protocol/\<close>; below, a
  path without a directory lies in \<^verbatim>\<open>protocol/whist/\<close>.

  \<^bold>\<open>The program.\<close> A server captures the screen, encodes it frame by frame and sends it to a client over UDP.
  The encoder asks the long-term reference state (\<^verbatim>\<open>video/ltr.c\<close>) which kind of frame to make next.
  A frame is cut into segments, protected against losses by an erasure code (\<^verbatim>\<open>fec/\<close>), and paid for in
  the throttler (\<^verbatim>\<open>network/throttle.c\<close>) before it goes out. The client collects the segments in a ring
  buffer (\<^verbatim>\<open>network/ringbuffer.c\<close>), asks for missing ones, and hands complete frames to the renderer;
  its congestion controller (\<^verbatim>\<open>network/network_algorithm.c\<close>) turns delays and losses into a bitrate for
  the throttler. Below these are a linked list, a blocking queue, block allocators and dynamic buffers, and
  a readers-writer lock (\<^verbatim>\<open>utils/\<close>, \<^verbatim>\<open>core/\<close>). The server's threads may use the client's sockets only under
  an activation lock (\<^verbatim>\<open>protocol/server/client.c\<close>).

  \<^bold>\<open>Conventions.\<close> A struct is a record, an enum a datatype, a buffer a list of 8-bit words. An operation that can end the
  process, by a failed assertion or an access outside an object, returns an option, and \<open>None\<close> is
  that outcome; where a C loop may not end, \<open>None\<close> also stands for not returning, and the theory says so. Sizes, timestamps,
  ticket and group ids are words where their wrap-around can matter, integers where a proved bound keeps them in
  range. A double is a real or rational number: rounding is not modelled. Clock readings, the operating
  system's answers and C++ or vendored code are arguments.

  \<^bold>\<open>Theories\<close>, in the order in which they build on each other:

  Whist_Prelude: assertions as options, \<^verbatim>\<open>int_div_roundup\<close>, segments of linked structures, byte
  buffers; the collections \<open>seg_simps\<close>, \<open>abs_simps\<close> and \<open>step_defs\<close>.

  Linked_List (\<^verbatim>\<open>utils/linked_list.c\<close>): a heap of headers and an anchor, every operation on pointers. The
  relation \<open>dll\<close> abstracts a heap to a sequence; the mutators refine the operations on sequences, the sort gives a
  sorted permutation, and the validity check decides exactly the lists that are linked right in the sense of the code. Locale
  \<open>sequence_store\<close>.

  Fifo_Queue (\<^verbatim>\<open>utils/queue.c\<close>): storage and critical sections, and the blocking calls as a step relation. A history
  returns the items in the order in which they were put in, no wake-up is lost, and creation has the stated outcome for each
  combination of failed allocations. Locale \<open>bounded_fifo\<close>.

  Whist_Memory (\<^verbatim>\<open>core/whist_memory.c\<close>): regions over a record of the operating system, the block
  allocator and its free list, dynamic buffers. Blocks in use are distinct and keep their contents; resizing a dynamic buffer keeps
  its contents and bounds its capacity, and the doubling does not end above 2^63. Locale \<open>block_pool\<close>.

  Rs_Wrapper and Fec (\<^verbatim>\<open>fec/rs_wrapper.c\<close>, \<^verbatim>\<open>fec/fec.c\<close>): groups, indices, counters, encoder and decoder. The
  vendored code is the record \<open>rs_lib\<close>; the hypothesis about it is the documented law of an erasure code. The index maps are
  bijections, a frame is recovered from any sufficient set of packets, and encoding followed by decoding is the identity. Locale
  \<open>erasure_code\<close>.

  Network_Settings: the settings of a connection and the conversion of a double to an int.

  Ring_Buffer, Ring_Buffer_Receive and Ring_Buffer_Props (\<^verbatim>\<open>network/ringbuffer.c\<close>): the model and its invariant, the calls that
  receive and nack, and the properties in every state that the calls of \<^verbatim>\<open>udp.cpp\<close> reach. The
  frames use the blocks of Whist_Memory and the decoder of Fec.

  Ltr and Ltr_Reach (\<^verbatim>\<open>video/ltr.c\<close>): the model, and its relation to a decoder along every sequence of
  calls. A ghost record keeps what the decoder holds and what the client has reported. The walk of a nack changes the lists
  that it walks, so it has fuel: three times the number of frames and three more (\<open>nack_fuel\<close>). In every reachable state this is enough: the
  calls return a value, and lemma \<open>nack_run\<close> says which.

  Throttle (\<^verbatim>\<open>network/throttle.c\<close>): the bucket, the tickets and the threads. The rate bound and the order of service hold for every
  interleaving as long as fewer than 2^31 tickets were handed out. The loop of a paying thread takes the list of its clock readings as
  fuel, and a packet that fits is paid for after an explicit number of intervals.

  Network_Algorithm (\<^verbatim>\<open>network/network_algorithm.c\<close>): the state machine of the controller; the bitrate stays between the minimum and the
  maximum for the display and changes by limited factors (displays of at most 2^25 pixels, which keeps the integers in range).

  Rw_Lock and Client_Lock (\<^verbatim>\<open>utils/rwlock.c\<close>, \<^verbatim>\<open>protocol/server/client.c\<close>): threads with program points. A section works under one mutex
  and is one step, except in \<^verbatim>\<open>read_lock\<close> and \<^verbatim>\<open>client_active_lock\<close>, which hold a mutex over several sections; the owner of
  that mutex is part of the state. Exclusion, counters, writer preference and freedom from deadlock for the lock; for the client, that it
  stays active while somebody holds it. Locale \<open>readers_writer\<close>.

  \<^bold>\<open>Kinds of lemmas.\<close> Each component has an invariant, one preservation lemma per operation or step, case rules for its operations
  where several proofs need them, and the properties, which are short consequences. Transition systems have an inductive predicate
  of reachable states, and a function that executes a schedule for the witnesses.

  \<^bold>\<open>Not modelled.\<close> C++ (\<^verbatim>\<open>network/udp.cpp\<close>, \<^verbatim>\<open>fec/fec_controller.cpp\<close>, \<^verbatim>\<open>cursor/\<close>, most of \<^verbatim>\<open>protocol/client/\<close>): what the C code calls of it
  is a parameter. Vendored code (\<^verbatim>\<open>fec/wirehair\<close>, \<^verbatim>\<open>fec/cm256\<close>, \<^verbatim>\<open>fec/gf256\<close>, \<^verbatim>\<open>fec/lugi_rs.c\<close>, \<^verbatim>\<open>utils/lodepng.c\<close>, the headers under
  \<^verbatim>\<open>video/nvidia-linux\<close>). Code that only calls FFmpeg, CUDA, X11, the sound systems, OpenSSL or sockets. Logging and statistics. The Go
  backend and the browser.

  \<^bold>\<open>Plan.\<close> Next: the chunk protocols of the file and clipboard synchronizers, the packet batches of
  \<^verbatim>\<open>utils/avpacket_buffer.c\<close>, the option and feature tables (\<^verbatim>\<open>utils/command_line.c\<close>, \<^verbatim>\<open>core/features.c\<close>), the string helpers, and the
  reassembly of TCP packets in \<^verbatim>\<open>network/tcp.c\<close>.
\<close>

end
